(* ===== verification/Prelude.thy ===== *)
theory Prelude
  imports Main "HOL-Library.Word"
begin

text \<open>
  Shared vocabulary of the development: the machine integer types of the kernel
  (include/kernel/types.h), the errno values the modelled calls return, byte-array
  helpers, and two interfaces used by several components: a transition system with an
  inductive invariant, and a bounded byte queue.
\<close>

unbundle bit_operations_syntax

section \<open>Machine integers and errno values\<close>

type_synonym u8 = "8 word"
type_synonym u16 = "16 word"
type_synonym u32 = "32 word"
type_synonym u64 = "64 word"

abbreviation (input) EPERM :: int where "EPERM \<equiv> 1"
abbreviation (input) ENOENT :: int where "ENOENT \<equiv> 2"
abbreviation (input) ESRCH :: int where "ESRCH \<equiv> 3"
abbreviation (input) EINTR :: int where "EINTR \<equiv> 4"
abbreviation (input) EIO :: int where "EIO \<equiv> 5"
abbreviation (input) E2BIG :: int where "E2BIG \<equiv> 7"
abbreviation (input) EBADF :: int where "EBADF \<equiv> 9"
abbreviation (input) EAGAIN :: int where "EAGAIN \<equiv> 11"
abbreviation (input) ENOMEM :: int where "ENOMEM \<equiv> 12"
abbreviation (input) EACCES :: int where "EACCES \<equiv> 13"
abbreviation (input) EFAULT :: int where "EFAULT \<equiv> 14"
abbreviation (input) EBUSY :: int where "EBUSY \<equiv> 16"
abbreviation (input) EEXIST :: int where "EEXIST \<equiv> 17"
abbreviation (input) ENODEV :: int where "ENODEV \<equiv> 19"
abbreviation (input) EINVAL :: int where "EINVAL \<equiv> 22"
abbreviation (input) EFBIG :: int where "EFBIG \<equiv> 27"
abbreviation (input) ENOSPC :: int where "ENOSPC \<equiv> 28"
abbreviation (input) EPIPE :: int where "EPIPE \<equiv> 32"
abbreviation (input) ERANGE :: int where "ERANGE \<equiv> 34"
abbreviation (input) ENOLCK :: int where "ENOLCK \<equiv> 37"
abbreviation (input) ENOSYS :: int where "ENOSYS \<equiv> 38"
abbreviation (input) ENOMSG :: int where "ENOMSG \<equiv> 42"
abbreviation (input) EIDRM :: int where "EIDRM \<equiv> 43"
abbreviation (input) EOVERFLOW :: int where "EOVERFLOW \<equiv> 75"
abbreviation (input) EOPNOTSUPP :: int where "EOPNOTSUPP \<equiv> 95"

section \<open>Lists used as arrays\<close>

text \<open>\<open>blit xs i ys\<close>: the array \<open>xs\<close> after \<open>ys\<close> was stored from index \<open>i\<close> on.\<close>

definition blit :: "'a list \<Rightarrow> nat \<Rightarrow> 'a list \<Rightarrow> 'a list" where
  "blit xs i ys = take i xs @ ys @ drop (i + length ys) xs"

lemma length_blit [simp]: "i + length ys \<le> length xs \<Longrightarrow> length (blit xs i ys) = length xs"
  by (simp add: blit_def)

lemma nth_blit:
  assumes "i + length ys \<le> length xs" "k < length xs"
  shows "blit xs i ys ! k = (if i \<le> k \<and> k < i + length ys then ys ! (k - i) else xs ! k)"
  using assms by (auto simp: blit_def nth_append min_def)

lemma blit_Nil [simp]: "blit xs i [] = xs"
  by (simp add: blit_def)

lemma mod_once: "b \<le> a \<Longrightarrow> a < 2 * b \<Longrightarrow> a mod b = a - b" for a b :: nat
  by (simp add: le_mod_geq)

lemma sum_list_upd: "i < length xs \<Longrightarrow> sum_list (map f (xs[i := y])) + f (xs ! i) = sum_list (map f xs) + (f y :: nat)"
  by (induction xs arbitrary: i) (auto split: nat.splits)

lemma length_filter_upd:
  "i < length xs \<Longrightarrow> length (filter P (xs[i := y])) + (if P (xs ! i) then 1 else 0) = length (filter P xs) + (if P y then 1 else 0)"
proof (induction xs arbitrary: i)
  case (Cons x xs)
  then show ?case using Cons.IH [of "i - 1"] by (cases i) (auto split: if_splits)
qed simp

lemma find_upt_Some:
  "find P [a..<b] = Some i \<longleftrightarrow> a \<le> i \<and> i < b \<and> P i \<and> (\<forall>j. a \<le> j \<longrightarrow> j < i \<longrightarrow> \<not> P j)" (is "?L = ?R")
proof
  assume ?L
  then obtain k where k: "k < b - a" "P (a + k)" "i = a + k" "\<forall>j<k. \<not> P (a + j)"
    by (auto simp: find_Some_iff)
  have "\<not> P j" if "a \<le> j" "j < i" for j
    using k(3,4) that by (metis le_add_diff_inverse nat_add_left_cancel_less)
  then show ?R using k by auto
next
  assume ?R
  then show ?L unfolding find_Some_iff by (intro exI [of _ "i - a"]) auto
qed

lemma find_upt_None: "find P [a..<b] = None \<longleftrightarrow> (\<forall>j. a \<le> j \<longrightarrow> j < b \<longrightarrow> \<not> P j)"
  by (auto simp: find_None_iff)

lemma find_skip:
  assumes "\<And>j. a \<le> j \<Longrightarrow> j < b \<Longrightarrow> \<not> P j" "a \<le> b" "b \<le> c"
  shows "find P [a..<c] = find P [b..<c]"
proof -
  have "find P (xs @ ys) = find P ys" if "\<forall>x\<in>set xs. \<not> P x" for xs ys
    using that by (induction xs) auto
  then have "find P ([a..<b] @ [b..<c]) = find P [b..<c]" using assms(1) by simp
  moreover have "[a..<c] = [a..<b] @ [b..<c]" using assms(2,3) by (metis le_Suc_ex upt_add_eq_append)
  ultimately show ?thesis by simp
qed

lemma find_upt0_Some:
  assumes "find P [0..<n] = Some i"
  shows "i < n \<and> P i"
  using assms by (metis atLeastLessThan_iff find_Some_iff nth_mem set_upt)

lemma find_upt0_None: "find P [0..<n] = None \<longleftrightarrow> (\<forall>i<n. \<not> P i)"
  by (auto simp: find_None_iff)

section \<open>Case analysis on conditional results\<close>

lemma if_cases: "(if b then x else y) = z \<Longrightarrow> (b \<Longrightarrow> x = z \<Longrightarrow> P) \<Longrightarrow> (\<not> b \<Longrightarrow> y = z \<Longrightarrow> P) \<Longrightarrow> P"
  by (cases b) auto

lemma option_cases:
  "(case w of None \<Rightarrow> x | Some q \<Rightarrow> f q) = z \<Longrightarrow> (w = None \<Longrightarrow> x = z \<Longrightarrow> P) \<Longrightarrow>
    (\<And>q. w = Some q \<Longrightarrow> f q = z \<Longrightarrow> P) \<Longrightarrow> P"
  by (cases w) auto

section \<open>Words\<close>

text \<open>The little-endian reading of bytes, as the structures the kernel copies from user memory have it.\<close>

definition le_bytes :: "u8 list \<Rightarrow> 'a::len word" where
  "le_bytes bs = foldr (\<lambda>b w. 256 * w + ucast b) bs 0"

lemma and_not_mask_eq: "x AND NOT (mask n) = push_bit n (drop_bit n x)" for x :: "'a::len word"
  by (rule bit_eqI) (auto simp: bit_simps)

lemma page_base_nat: "x AND NOT 4095 = of_nat (4096 * (unat x div 4096))" for x :: u32
proof -
  have "(4095 :: u32) = mask 12" by (simp add: mask_eq_exp_minus_1)
  then have "x AND NOT 4095 = push_bit 12 (drop_bit 12 x)" by (simp only: and_not_mask_eq)
  also have "\<dots> = of_nat (unat (drop_bit 12 x)) * 4096" by (simp add: push_bit_eq_mult)
  also have "unat (drop_bit 12 x) = unat x div 4096" by (subst unat_drop_bit_eq) (simp add: drop_bit_eq_div)
  finally show ?thesis by (simp add: mult.commute)
qed

text \<open>The \<open>n\<close> little-endian bytes of an integer, two's complement.\<close>

definition le_enc :: "nat \<Rightarrow> int \<Rightarrow> u8 list" where
  "le_enc n x = map (\<lambda>i. word_of_int (x div 256 ^ i)) [0..<n]"

lemma length_le_enc [simp]: "length (le_enc n x) = n"
  by (simp add: le_enc_def)

lemma le_enc_Suc: "le_enc (Suc n) x = word_of_int x # le_enc n (x div 256)"
  by (simp add: le_enc_def upt_conv_Cons map_Suc_upt [symmetric] zdiv_zmult2_eq del: upt_Suc)

primrec le_int :: "u8 list \<Rightarrow> int" where
  "le_int [] = 0"
| "le_int (b # bs) = uint b + 256 * le_int bs"

lemma le_bytes_le_int: "(le_bytes bs :: 'a::len word) = word_of_int (le_int bs)"
proof (induction bs)
  case (Cons b bs)
  have "(le_bytes (b # bs) :: 'a word) = 256 * le_bytes bs + ucast b" by (simp add: le_bytes_def)
  then show ?case using Cons by (simp add: word_of_int_uint mult.commute add.commute unsigned_ucast_eq)
qed (simp add: le_bytes_def)

lemma le_enc_le_int: "le_enc (length bs) (le_int bs + k * 256 ^ length bs) = bs"
proof (induction bs arbitrary: k)
  case Nil
  then show ?case by (simp add: le_enc_def)
next
  case (Cons b bs)
  let ?x = "le_int (b # bs) + k * 256 ^ length (b # bs)"
  have x: "?x = uint b + 256 * (le_int bs + k * 256 ^ length bs)" by (simp add: algebra_simps)
  have b: "0 \<le> uint b" "uint b < 256" using unsigned_less [of b] by simp_all
  have "?x div 256 = le_int bs + k * 256 ^ length bs" unfolding x using b by (subst div_add1_eq) simp
  moreover have "(word_of_int ?x :: u8) = b"
  proof -
    have "(word_of_int ?x :: u8) = word_of_int (uint b)"
      unfolding x word_of_int_eq_iff take_bit_eq_mod by (simp del: distrib_left_numeral)
    then show ?thesis by simp
  qed
  ultimately show ?case using Cons.IH [of k] by (simp only: length_Cons le_enc_Suc)
qed

lemma le_enc_sint:
  assumes "8 * length bs = LENGTH('a::len)"
  shows "le_enc (length bs) (sint (le_bytes bs :: 'a word)) = bs"
proof -
  have "(word_of_int (sint (le_bytes bs :: 'a word)) :: 'a word) = word_of_int (le_int bs)"
    by (simp add: le_bytes_le_int)
  then have "sint (le_bytes bs :: 'a word) mod 2 ^ LENGTH('a) = le_int bs mod 2 ^ LENGTH('a)"
    by (simp only: word_of_int_eq_iff take_bit_eq_mod)
  then obtain k where "sint (le_bytes bs :: 'a word) = le_int bs + k * 2 ^ LENGTH('a)"
    by (metis mod_eqE mult.commute)
  moreover have "(2 :: int) ^ LENGTH('a) = 256 ^ length bs" unfolding assms [symmetric] power_mult by simp
  ultimately show ?thesis by (simp only: le_enc_le_int)
qed

section \<open>Invariants of transition systems\<close>

text \<open>
  A component whose operations interleave is a step relation. The contract of an
  invariant: every initial state satisfies it and every step keeps it. What a client
  gets is that it holds in every reachable state, and along every run.
\<close>

locale transition_invariant =
  fixes init :: "'s \<Rightarrow> bool"
    and step :: "'s \<Rightarrow> 's \<Rightarrow> bool"
    and inv :: "'s \<Rightarrow> bool"
  assumes inv_init: "init s \<Longrightarrow> inv s"
    and inv_step: "inv s \<Longrightarrow> step s t \<Longrightarrow> inv t"
begin

lemma inv_steps: "step\<^sup>*\<^sup>* s t \<Longrightarrow> inv s \<Longrightarrow> inv t"
  by (induction rule: rtranclp_induct) (auto intro: inv_step)

lemma inv_reachable: "init s \<Longrightarrow> step\<^sup>*\<^sup>* s t \<Longrightarrow> inv t"
  using inv_steps inv_init by blast

end

section \<open>Bounded byte queues\<close>

text \<open>
  What a bounded byte channel promises: \<open>put\<close> appends when there is room, \<open>peek\<close>
  shows a prefix and \<open>advance\<close> removes it. The client lemma: over any run of
  transfers nothing is lost, duplicated or reordered.
\<close>

datatype 'b transfer = Put "'b list" | Get nat

locale byte_queue =
  fixes contents :: "'q \<Rightarrow> 'b list"
    and put :: "'b list \<Rightarrow> 'q \<Rightarrow> 'q"
    and peek :: "nat \<Rightarrow> 'q \<Rightarrow> 'b list"
    and advance :: "nat \<Rightarrow> 'q \<Rightarrow> 'q"
    and invar :: "'q \<Rightarrow> bool"
    and cap :: nat
  assumes contents_put:
      "invar q \<Longrightarrow> length (contents q) + length bs \<le> cap \<Longrightarrow> contents (put bs q) = contents q @ bs"
    and invar_put: "invar q \<Longrightarrow> length (contents q) + length bs \<le> cap \<Longrightarrow> invar (put bs q)"
    and peek_contents: "invar q \<Longrightarrow> n \<le> length (contents q) \<Longrightarrow> peek n q = take n (contents q)"
    and contents_advance: "invar q \<Longrightarrow> n \<le> length (contents q) \<Longrightarrow> contents (advance n q) = drop n (contents q)"
    and invar_advance: "invar q \<Longrightarrow> n \<le> length (contents q) \<Longrightarrow> invar (advance n q)"
begin

fun run :: "'b transfer list \<Rightarrow> 'q \<Rightarrow> 'b list \<times> 'q" where
  "run [] q = ([], q)"
| "run (Put bs # ts) q = run ts (if length (contents q) + length bs \<le> cap then put bs q else q)"
| "run (Get n # ts) q =
     (let k = min n (length (contents q)); (out, q') = run ts (advance k q) in (peek k q @ out, q'))"

fun accepted :: "'b transfer list \<Rightarrow> 'q \<Rightarrow> 'b list" where
  "accepted [] q = []"
| "accepted (Put bs # ts) q =
     (if length (contents q) + length bs \<le> cap then bs @ accepted ts (put bs q) else accepted ts q)"
| "accepted (Get n # ts) q = accepted ts (advance (min n (length (contents q))) q)"

lemma run_fifo:
  "invar q \<Longrightarrow> run ts q = (out, q') \<Longrightarrow> out @ contents q' = contents q @ accepted ts q"
proof (induction ts arbitrary: q out)
  case Nil
  then show ?case by simp
next
  case (Cons t ts)
  show ?case
  proof (cases t)
    case (Put bs)
    show ?thesis
    proof (cases "length (contents q) + length bs \<le> cap")
      case True
      with Cons.prems Put have r: "run ts (put bs q) = (out, q')" and i: "invar (put bs q)"
        by (simp_all add: invar_put)
      from Cons.IH [OF i r] True Cons.prems(1) Put show ?thesis by (simp add: contents_put)
    next
      case False
      with Cons Put show ?thesis by simp
    qed
  next
    case (Get n)
    let ?k = "min n (length (contents q))"
    obtain out' where r: "run ts (advance ?k q) = (out', q')" and o: "out = peek ?k q @ out'"
      using Cons.prems(2) Get by (auto simp: Let_def split: prod.splits)
    have "out' @ contents q' = contents (advance ?k q) @ accepted ts (advance ?k q)"
      using Cons.IH [OF _ r] Cons.prems(1) by (simp add: invar_advance)
    then show ?thesis
      using Cons.prems(1) Get by (simp add: o peek_contents contents_advance)
  qed
qed

end

section \<open>Allocators\<close>

text \<open>
  What an allocator promises: a block it hands out shares no resource with any block
  already handed out, and freeing a block takes back that block only. \<open>foot\<close> is what a
  block occupies (frame numbers, bytes, slots). The client lemma: over any run of requests
  and well-formed frees the blocks held never overlap.
\<close>

datatype ('r, 'b) alloc_call = Alloc 'r | Free 'b

locale allocator =
  fixes ainv :: "'s \<Rightarrow> bool"
    and live :: "'s \<Rightarrow> 'b set"
    and foot :: "'b \<Rightarrow> nat set"
    and alloc :: "'r \<Rightarrow> 's \<Rightarrow> 'b option \<times> 's"
    and free :: "'b \<Rightarrow> 's \<Rightarrow> 's"
  assumes alloc_inv: "ainv s \<Longrightarrow> alloc r s = (res, t) \<Longrightarrow> ainv t"
    and alloc_fresh: "ainv s \<Longrightarrow> alloc r s = (Some b, t) \<Longrightarrow> c \<in> live s \<Longrightarrow> foot b \<inter> foot c = {}"
    and alloc_new: "ainv s \<Longrightarrow> alloc r s = (Some b, t) \<Longrightarrow> b \<notin> live s"
    and alloc_live: "ainv s \<Longrightarrow> alloc r s = (Some b, t) \<Longrightarrow> live t = insert b (live s)"
    and alloc_fail: "ainv s \<Longrightarrow> alloc r s = (None, t) \<Longrightarrow> live t = live s"
    and free_inv: "ainv s \<Longrightarrow> b \<in> live s \<Longrightarrow> ainv (free b s)"
    and free_live: "ainv s \<Longrightarrow> b \<in> live s \<Longrightarrow> live (free b s) = live s - {b}"
begin

text \<open>A run: the blocks the client holds are a set, a free of a block it does not hold is skipped.\<close>

fun alloc_run :: "('r, 'b) alloc_call list \<Rightarrow> 'b set \<Rightarrow> 's \<Rightarrow> 'b set \<times> 's" where
  "alloc_run [] h s = (h, s)"
| "alloc_run (Alloc r # cs) h s =
     (case alloc r s of (None, t) \<Rightarrow> alloc_run cs h t | (Some b, t) \<Rightarrow> alloc_run cs (insert b h) t)"
| "alloc_run (Free b # cs) h s = (if b \<in> h then alloc_run cs (h - {b}) (free b s) else alloc_run cs h s)"

definition held_apart :: "'b set \<Rightarrow> 's \<Rightarrow> bool" where
  "held_apart h s \<longleftrightarrow> h \<subseteq> live s \<and> (\<forall>b\<in>h. \<forall>c\<in>live s. b \<noteq> c \<longrightarrow> foot b \<inter> foot c = {})"

lemma held_apart_alloc:
  assumes "ainv s" "held_apart h s" "alloc r s = (Some b, t)"
  shows "held_apart (insert b h) t"
proof -
  note fr = alloc_fresh [OF assms(1,3)] and lv = alloc_live [OF assms(1,3)]
  have "foot c \<inter> foot b = {}" if "c \<in> live s" for c using fr [OF that] by blast
  then show ?thesis using assms(2) fr unfolding held_apart_def lv by blast
qed

lemma run_exclusive:
  "ainv s \<Longrightarrow> held_apart h s \<Longrightarrow> alloc_run cs h s = (h', t) \<Longrightarrow> ainv t \<and> held_apart h' t"
proof (induction cs arbitrary: h s)
  case Nil
  then show ?case by simp
next
  case (Cons c cs)
  show ?case
  proof (cases c)
    case (Alloc r)
    obtain res u where a: "alloc r s = (res, u)" by (cases "alloc r s")
    note i = alloc_inv [OF Cons.prems(1) a]
    show ?thesis
    proof (cases res)
      case None
      then have "held_apart h u" using alloc_fail Cons.prems(1,2) a by (auto simp: held_apart_def)
      then show ?thesis using Cons.IH [OF i] Cons.prems(3) Alloc a None by simp
    next
      case (Some b)
      then show ?thesis
        using Cons.IH [OF i held_apart_alloc [OF Cons.prems(1,2)]] Cons.prems(3) Alloc a by simp
    qed
  next
    case (Free b)
    show ?thesis
    proof (cases "b \<in> h")
      case True
      then have l: "b \<in> live s" using Cons.prems(2) by (auto simp: held_apart_def)
      have "held_apart (h - {b}) (free b s)"
        using Cons.prems(2) free_live [OF Cons.prems(1) l] by (auto simp: held_apart_def)
      then show ?thesis
        using Cons.IH [OF free_inv [OF Cons.prems(1) l]] Cons.prems(3) Free True by simp
    next
      case False
      then show ?thesis using Cons Free by simp
    qed
  qed
qed

text \<open>A client's run takes nothing of the others' blocks and gives back only its own.\<close>

lemma run_others:
  "ainv s \<Longrightarrow> h \<subseteq> live s \<Longrightarrow> alloc_run cs h s = (h', t) \<Longrightarrow> h' \<subseteq> live t \<and> live t - h' = live s - h"
proof (induction cs arbitrary: h s)
  case Nil
  then show ?case by simp
next
  case (Cons c cs)
  show ?case
  proof (cases c)
    case (Alloc r)
    obtain res u where a: "alloc r s = (res, u)" by (cases "alloc r s")
    note i = alloc_inv [OF Cons.prems(1) a]
    show ?thesis
    proof (cases res)
      case None
      then have "live u = live s" using alloc_fail Cons.prems(1) a by blast
      then show ?thesis using Cons.IH [OF i] Cons.prems Alloc a None by simp
    next
      case (Some b)
      then have l: "live u = insert b (live s)" "b \<notin> live s" using alloc_live alloc_new Cons.prems(1) a by blast+
      then have "insert b h \<subseteq> live u" using Cons.prems(2) by auto
      moreover have "alloc_run cs (insert b h) u = (h', t)" using Cons.prems(3) Alloc a Some by simp
      ultimately have "h' \<subseteq> live t \<and> live t - h' = live u - insert b h" by (rule Cons.IH [OF i])
      then show ?thesis using l Cons.prems(2) by auto
    qed
  next
    case (Free b)
    show ?thesis
    proof (cases "b \<in> h")
      case True
      then have l: "b \<in> live s" using Cons.prems(2) by blast
      have "h - {b} \<subseteq> live (free b s)" using free_live [OF Cons.prems(1) l] Cons.prems(2) by auto
      then have "h' \<subseteq> live t \<and> live t - h' = live (free b s) - (h - {b})"
        using Cons.IH [OF free_inv [OF Cons.prems(1) l]] Cons.prems(3) Free True by simp
      then show ?thesis using free_live [OF Cons.prems(1) l] True by auto
    next
      case False
      then show ?thesis using Cons Free by simp
    qed
  qed
qed

end

end
