(* ===== verification/Printf.thy ===== *)
theory Printf
  imports Prelude
begin

text \<open>
  The kernel's formatted string writer, src/lib/printf.c: the character, string and number
  writers over a buffer of \<open>n\<close> bytes and the format interpreter \<open>vsnprintf\<close>, and a reference
  rendering \<open>render\<close> that knows nothing of buffers.  The lemmas show that the writer stores
  exactly the rendering cut to the buffer, and that the digits of a number denote it.
  A C string is the list of its characters; its end stands for the terminating NUL.
\<close>

section \<open>Characters and arguments\<close>

definition isdigit :: "char \<Rightarrow> bool" where
  "isdigit c = (48 \<le> (of_char c :: nat) \<and> (of_char c :: nat) \<le> 57)"

definition digit_val :: "char \<Rightarrow> nat" where
  "digit_val c = of_char c - 48"

text \<open>The arguments of a call as the format reads them.  A conversion whose argument is missing
  or of another size reads outside its argument: the result is None.\<close>

datatype va = VInt u32 | VLong u64 | VPtr u32 | VStr "string option"

fun va_uint :: "nat \<Rightarrow> va list \<Rightarrow> (u64 \<times> va list) option" where
  "va_uint lng (VInt x # as) = (if 2 \<le> lng then None else Some (ucast x, as))"
| "va_uint lng (VLong x # as) = (if 2 \<le> lng then Some (x, as) else None)"
| "va_uint lng as = None"

fun va_int :: "nat \<Rightarrow> va list \<Rightarrow> (u64 \<times> va list) option" where
  "va_int lng (VInt x # as) = (if 2 \<le> lng then None else Some (scast x, as))"
| "va_int lng (VLong x # as) = (if 2 \<le> lng then Some (x, as) else None)"
| "va_int lng as = None"

section \<open>Writing into the buffer\<close>

type_synonym wr = "string \<times> nat"

definition write_char :: "nat \<Rightarrow> char \<Rightarrow> wr \<Rightarrow> wr" where
  "write_char n c st = (case st of (buf, pos) \<Rightarrow>
     (if pos < n - 1 then buf[pos := c] else buf, pos + 1))"

definition write_chars :: "nat \<Rightarrow> string \<Rightarrow> wr \<Rightarrow> wr" where
  "write_chars n s st = fold (write_char n) s st"

definition write_str :: "nat \<Rightarrow> string \<Rightarrow> nat \<Rightarrow> bool \<Rightarrow> wr \<Rightarrow> wr" where
  "write_str n s width left_align st =
     (let len = length s;
          st1 = (if left_align then st else write_chars n (replicate (width - len) CHR '' '') st);
          st2 = write_chars n s st1
      in if left_align then write_chars n (replicate (width - len) CHR '' '') st2 else st2)"

definition digits_lower :: string where "digits_lower = ''0123456789abcdef''"
definition digits_upper :: string where "digits_upper = ''0123456789ABCDEF''"

text \<open>The digits of a number, least significant first: the loop over the 64-bit value while its
  upper half is not zero, then the loop over the 32-bit rest.  The bases in use are 8, 10 and 16;
  a base below 2 is excluded for the loops to end.\<close>

function wide_digits :: "u64 \<Rightarrow> string \<Rightarrow> u64 \<Rightarrow> string \<times> u64" where
  "wide_digits base dg v =
     (if base < 2 \<or> drop_bit 32 v = 0 then ([], v)
      else let (ds, r) = wide_digits base dg (v div base) in (dg ! unat (v mod base) # ds, r))"
  by auto

function low_digits :: "u32 \<Rightarrow> string \<Rightarrow> u32 \<Rightarrow> string" where
  "low_digits base dg v =
     (if base < 2 \<or> v = 0 then [] else dg ! unat (v mod base) # low_digits base dg (v div base))"
  by auto

lemma div_base_less:
  fixes v base :: "'a::len word"
  assumes "2 \<le> unat base" "v \<noteq> 0"
  shows "unat (v div base) < unat v"
  using assms by (simp add: unat_div unat_gt_0)

lemma base_ge2:
  "\<not> (base :: u64) < 2 \<Longrightarrow> 2 \<le> unat base" "\<not> (b :: u32) < 2 \<Longrightarrow> 2 \<le> unat b"
  by (simp_all add: word_less_nat_alt)

termination wide_digits
  by (relation "measure (\<lambda>(b, d, v). unat v)") (auto intro!: div_base_less base_ge2)

termination low_digits
  by (relation "measure (\<lambda>(b, d, v). unat v)") (auto intro!: div_base_less base_ge2)

declare wide_digits.simps [simp del] low_digits.simps [simp del]

definition uint_digits :: "u64 \<Rightarrow> u32 \<Rightarrow> bool \<Rightarrow> string" where
  "uint_digits val base upper =
     (let digits = (if upper then digits_upper else digits_lower)
      in if val = 0 then ''0''
         else let (ds, v64) = wide_digits (ucast base) digits val
              in ds @ low_digits base digits (ucast v64))"

definition write_uint ::
    "nat \<Rightarrow> u64 \<Rightarrow> u32 \<Rightarrow> bool \<Rightarrow> nat \<Rightarrow> bool \<Rightarrow> bool \<Rightarrow> wr \<Rightarrow> wr" where
  "write_uint n val base upper width zero_pad left_align st =
     (let tmp = uint_digits val base upper; len = length tmp;
          pad = (if zero_pad then CHR ''0'' else CHR '' '');
          st1 = (if left_align then st else write_chars n (replicate (width - len) pad) st);
          st2 = write_chars n (rev tmp) st1
      in if left_align then write_chars n (replicate (width - len) CHR '' '') st2 else st2)"

definition write_int :: "nat \<Rightarrow> u64 \<Rightarrow> nat \<Rightarrow> bool \<Rightarrow> bool \<Rightarrow> wr \<Rightarrow> wr" where
  "write_int n val width zero_pad left_align st =
     (if sint val < 0
      then write_uint n (0 - val) 10 False (if width > 1 then width - 1 else 0) zero_pad left_align
             (write_char n CHR ''-'' st)
      else write_uint n val 10 False width zero_pad left_align st)"

section \<open>The format interpreter\<close>

definition conversion ::
    "nat \<Rightarrow> char \<Rightarrow> bool \<Rightarrow> bool \<Rightarrow> nat \<Rightarrow> nat \<Rightarrow> va list \<Rightarrow> wr \<Rightarrow> (wr \<times> va list) option" where
  "conversion n spec left_align zero_pad width lng args st =
     (if spec \<in> {CHR ''d'', CHR ''i''} then
        map_option (\<lambda>(x, as). (write_int n x width zero_pad left_align st, as)) (va_int lng args)
      else if spec = CHR ''u'' then
        map_option (\<lambda>(x, as). (write_uint n x 10 False width zero_pad left_align st, as))
          (va_uint lng args)
      else if spec = CHR ''x'' then
        map_option (\<lambda>(x, as). (write_uint n x 16 False width zero_pad left_align st, as))
          (va_uint lng args)
      else if spec = CHR ''X'' then
        map_option (\<lambda>(x, as). (write_uint n x 16 True width zero_pad left_align st, as))
          (va_uint lng args)
      else if spec = CHR ''o'' then
        map_option (\<lambda>(x, as). (write_uint n x 8 False width zero_pad left_align st, as))
          (va_uint lng args)
      else if spec = CHR ''p'' then
        (case args of
           VPtr x # as \<Rightarrow> Some (write_uint n (ucast x) 16 False 8 True False
                            (write_char n CHR ''x'' (write_char n CHR ''0'' st)), as)
         | _ \<Rightarrow> None)
      else if spec = CHR ''c'' then
        (case args of VInt x # as \<Rightarrow> Some (write_char n (char_of (unat x)) st, as) | _ \<Rightarrow> None)
      else if spec = CHR ''s'' then
        (case args of
           VStr s # as \<Rightarrow> Some (write_str n (case s of None \<Rightarrow> ''(null)'' | Some t \<Rightarrow> t)
                                 width left_align st, as)
         | _ \<Rightarrow> None)
      else if spec = CHR ''%'' then Some (write_char n CHR ''%'' st, args)
      else Some (write_char n spec (write_char n CHR ''%'' st), args))"

definition isflag :: "char \<Rightarrow> bool" where
  "isflag c = (c = CHR ''-'' \<or> c = CHR ''0'')"

definition dec_val :: "string \<Rightarrow> nat" where
  "dec_val ds = fold (\<lambda>c w. w * 10 + digit_val c) ds 0"

text \<open>One pass over the format.  A format that ends inside a conversion makes the interpreter
  step over its terminating NUL: None.\<close>

function vsn_loop :: "nat \<Rightarrow> string \<Rightarrow> va list \<Rightarrow> wr \<Rightarrow> wr option" where
  "vsn_loop n [] args st = Some st"
| "vsn_loop n (c # fmt) args st =
     (if c \<noteq> CHR ''%'' then vsn_loop n fmt args (write_char n c st)
      else let flags = takeWhile isflag fmt; f1 = dropWhile isflag fmt;
               width = dec_val (takeWhile isdigit f1); f2 = dropWhile isdigit f1;
               lng = length (takeWhile (\<lambda>x. x = CHR ''l'') f2);
               f3 = dropWhile (\<lambda>x. x = CHR ''l'') f2
           in if f3 = [] then None
              else case conversion n (hd f3) (CHR ''-'' \<in> set flags) (CHR ''0'' \<in> set flags)
                          width lng args st of
                     None \<Rightarrow> None
                   | Some (st', args') \<Rightarrow> vsn_loop n (tl f3) args' st')"
  by pat_completeness auto

lemma tl_dropWhile_length:
  "length (tl (dropWhile P (dropWhile Q (dropWhile R xs)))) \<le> length xs"
proof -
  have "length (tl ys) \<le> length ys" for ys :: "'a list" by simp
  then show ?thesis
    using length_dropWhile_le [of R xs] length_dropWhile_le [of Q "dropWhile R xs"]
      length_dropWhile_le [of P "dropWhile Q (dropWhile R xs)"]
    by (meson le_trans)
qed

termination vsn_loop
  by (relation "measure (\<lambda>(n, f, a, s). length f)")
     (simp_all add: less_Suc_eq_le tl_dropWhile_length del: length_tl)

definition vsnprintf :: "string option \<Rightarrow> nat \<Rightarrow> string \<Rightarrow> va list \<Rightarrow> (string option \<times> nat) option" where
  "vsnprintf dst n fmt args = (case dst of
     None \<Rightarrow> Some (None, 0)
   | Some buf \<Rightarrow>
       if n = 0 then Some (Some buf, 0)
       else case vsn_loop n fmt args (buf, 0) of
         None \<Rightarrow> None
       | Some (b, pos) \<Rightarrow> Some (Some (b[(if pos < n then pos else n - 1) := CHR 0x00]), pos))"

definition snprintf :: "string \<Rightarrow> nat \<Rightarrow> string \<Rightarrow> va list \<Rightarrow> (string \<times> nat) option" where
  "snprintf buf n fmt args = map_option (\<lambda>(b, r). (the b, r)) (vsnprintf (Some buf) n fmt args)"

section \<open>Reference rendering\<close>

definition pad_text :: "bool \<Rightarrow> char \<Rightarrow> nat \<Rightarrow> string \<Rightarrow> string" where
  "pad_text left_align pad width s =
     (if left_align then s @ replicate (width - length s) CHR '' ''
      else replicate (width - length s) pad @ s)"

definition uint_text :: "u64 \<Rightarrow> u32 \<Rightarrow> bool \<Rightarrow> nat \<Rightarrow> bool \<Rightarrow> bool \<Rightarrow> string" where
  "uint_text val base upper width zero_pad left_align =
     pad_text left_align (if zero_pad then CHR ''0'' else CHR '' '') width
       (rev (uint_digits val base upper))"

definition int_text :: "u64 \<Rightarrow> nat \<Rightarrow> bool \<Rightarrow> bool \<Rightarrow> string" where
  "int_text val width zero_pad left_align =
     (if sint val < 0
      then CHR ''-'' # uint_text (- val) 10 False (if width > 1 then width - 1 else 0)
                         zero_pad left_align
      else uint_text val 10 False width zero_pad left_align)"

definition conv_text ::
    "char \<Rightarrow> bool \<Rightarrow> bool \<Rightarrow> nat \<Rightarrow> nat \<Rightarrow> va list \<Rightarrow> (string \<times> va list) option" where
  "conv_text spec left_align zero_pad width lng args =
     (let num = (\<lambda>base upper. map_option (\<lambda>(x, as). (uint_text x base upper width zero_pad left_align, as))
                   (va_uint lng args))
      in if spec \<in> {CHR ''d'', CHR ''i''} then
           map_option (\<lambda>(x, as). (int_text x width zero_pad left_align, as)) (va_int lng args)
         else if spec = CHR ''u'' then num 10 False
         else if spec = CHR ''x'' then num 16 False
         else if spec = CHR ''X'' then num 16 True
         else if spec = CHR ''o'' then num 8 False
         else if spec = CHR ''p'' then
           (case args of VPtr x # as \<Rightarrow> Some (''0x'' @ uint_text (ucast x) 16 False 8 True False, as)
            | _ \<Rightarrow> None)
         else if spec = CHR ''c'' then
           (case args of VInt x # as \<Rightarrow> Some ([char_of (unat x)], as) | _ \<Rightarrow> None)
         else if spec = CHR ''s'' then
           (case args of
              VStr s # as \<Rightarrow> Some (pad_text left_align CHR '' '' width
                                     (case s of None \<Rightarrow> ''(null)'' | Some t \<Rightarrow> t), as)
            | _ \<Rightarrow> None)
         else if spec = CHR ''%'' then Some (''%'', args)
         else Some ([CHR ''%'', spec], args))"

function render :: "string \<Rightarrow> va list \<Rightarrow> string option" where
  "render [] args = Some []"
| "render (c # fmt) args =
     (if c \<noteq> CHR ''%'' then map_option ((#) c) (render fmt args)
      else let flags = takeWhile isflag fmt; f1 = dropWhile isflag fmt;
               width = dec_val (takeWhile isdigit f1); f2 = dropWhile isdigit f1;
               lng = length (takeWhile (\<lambda>x. x = CHR ''l'') f2);
               f3 = dropWhile (\<lambda>x. x = CHR ''l'') f2
           in if f3 = [] then None
              else case conv_text (hd f3) (CHR ''-'' \<in> set flags) (CHR ''0'' \<in> set flags)
                          width lng args of
                     None \<Rightarrow> None
                   | Some (s, args') \<Rightarrow> map_option ((@) s) (render (tl f3) args'))"
  by pat_completeness auto

termination render
  by (relation "measure (\<lambda>(f, a). length f)")
     (simp_all add: less_Suc_eq_le tl_dropWhile_length del: length_tl)

section \<open>The writer stores the rendering\<close>

definition put :: "nat \<Rightarrow> string \<Rightarrow> string \<Rightarrow> wr" where
  "put n buf s = (blit buf 0 (take (n - 1) s), length s)"

lemma put_Nil: "put n buf [] = (buf, 0)"
  by (simp add: put_def blit_def)

lemma write_char_put:
  assumes "n \<le> length buf"
  shows "write_char n c (put n buf s) = put n buf (s @ [c])"
proof (cases "length s < n - 1")
  case True
  then have "length s < length buf" using assms by simp
  then have "drop (length s) buf = buf ! length s # drop (Suc (length s)) buf"
    by (simp add: Cons_nth_drop_Suc)
  then show ?thesis using True
    by (simp add: write_char_def put_def blit_def list_update_append)
qed (simp add: write_char_def put_def)

lemma write_chars_put:
  "n \<le> length buf \<Longrightarrow> write_chars n t (put n buf s) = put n buf (s @ t)"
  by (induction t arbitrary: s) (simp_all add: write_chars_def write_char_put)

lemmas writes = write_char_put write_chars_put

lemma write_str_put:
  "n \<le> length buf \<Longrightarrow>
   write_str n t w l (put n buf s) = put n buf (s @ pad_text l CHR '' '' w t)"
  by (simp add: write_str_def Let_def writes pad_text_def)

lemma write_uint_put:
  "n \<le> length buf \<Longrightarrow>
   write_uint n v b u w z l (put n buf s) = put n buf (s @ uint_text v b u w z l)"
  by (simp add: write_uint_def Let_def writes pad_text_def uint_text_def)

lemma write_int_put:
  "n \<le> length buf \<Longrightarrow>
   write_int n v w z l (put n buf s) = put n buf (s @ int_text v w z l)"
  by (simp add: write_int_def writes write_uint_put int_text_def)

lemma conversion_put:
  assumes "n \<le> length buf"
  shows "conversion n c l z w g as (put n buf s) =
    map_option (\<lambda>(t, as'). (put n buf (s @ t), as')) (conv_text c l z w g as)"
  using assms
  by (simp add: conversion_def conv_text_def Let_def writes write_str_put write_uint_put write_int_put
      option.map_comp comp_def case_prod_unfold split: list.split va.split)

lemma vsn_loop_put:
  assumes "n \<le> length buf"
  shows "vsn_loop n fmt args (put n buf s) = map_option (\<lambda>t. put n buf (s @ t)) (render fmt args)"
  using assms
proof (induction fmt args arbitrary: s rule: render.induct)
  case (2 c fmt args)
  show ?case
  proof (cases "c = CHR ''%''")
    case False
    then show ?thesis using 2 by (simp add: writes option.map_comp comp_def)
  next
    case True
    note IH = 2(2) [OF _ refl refl refl refl refl refl]
    show ?thesis using True 2(3) IH
      by (auto simp: Let_def conversion_put option.map_comp comp_def split: option.splits)
  qed
qed simp

section \<open>The digits denote the number\<close>

text \<open>\<open>pos_val b ks\<close>: the number whose digits in base \<open>b\<close> are \<open>ks\<close>, least significant first.\<close>

definition pos_val :: "nat \<Rightarrow> nat list \<Rightarrow> nat" where
  "pos_val b ks = foldr (\<lambda>k a. k + b * a) ks 0"

lemma pos_val_append: "pos_val b (ks @ ls) = pos_val b ks + b ^ length ks * pos_val b ls"
  by (induction ks) (simp_all add: pos_val_def algebra_simps)

definition denotes :: "string \<Rightarrow> nat \<Rightarrow> string \<Rightarrow> nat \<Rightarrow> bool" where
  "denotes dg b ds v \<longleftrightarrow> (\<exists>ks. ds = map (\<lambda>k. dg ! k) ks \<and> (\<forall>k \<in> set ks. k < b) \<and> pos_val b ks = v)"

lemma denotes_Nil: "denotes dg b [] 0"
  by (simp add: denotes_def pos_val_def)

lemma denotes_Cons:
  assumes "denotes dg b ds (v div b)" "0 < b"
  shows "denotes dg b (dg ! (v mod b) # ds) v"
proof -
  obtain ks where "ds = map (\<lambda>k. dg ! k) ks" "\<forall>k \<in> set ks. k < b" "pos_val b ks = v div b"
    using assms(1) by (auto simp: denotes_def)
  then show ?thesis using assms(2) unfolding denotes_def
    by (intro exI [of _ "v mod b # ks"]) (simp add: pos_val_def)
qed

lemma low_digits_denote:
  "2 \<le> unat b \<Longrightarrow> denotes dg (unat b) (low_digits b dg v) (unat v)"
proof (induction b dg v rule: low_digits.induct)
  case (1 b dg v)
  show ?case
  proof (cases "v = 0")
    case True
    then show ?thesis by (simp add: low_digits.simps denotes_Nil)
  next
    case False
    have b: "\<not> b < 2" using 1(2) by (simp add: word_less_nat_alt)
    then have "denotes dg (unat b) (low_digits b dg (v div b)) (unat v div unat b)"
      using 1 False by (simp add: unat_div)
    from denotes_Cons [OF this] 1(2) False b show ?thesis
      by (subst low_digits.simps) (simp add: unat_mod)
  qed
qed

lemma wide_digits_denote:
  assumes "2 \<le> unat b" "wide_digits b dg v = (ds, r)" "denotes dg (unat b) es (unat r)"
  shows "denotes dg (unat b) (ds @ es) (unat v)"
  using assms
proof (induction b dg v arbitrary: ds rule: wide_digits.induct)
  case (1 b dg v)
  have b: "\<not> b < 2" using 1(2) by (simp add: word_less_nat_alt)
  show ?case
  proof (cases "drop_bit 32 v = 0")
    case True
    then show ?thesis using 1(3,4) by (simp add: wide_digits.simps)
  next
    case False
    obtain ds' r' where w: "wide_digits b dg (v div b) = (ds', r')" by fastforce
    then have d: "ds = dg ! unat (v mod b) # ds'" "r' = r"
      using 1(3) False b by (simp_all add: wide_digits.simps [of b dg v])
    have "denotes dg (unat b) (ds' @ es) (unat v div unat b)"
      using 1(1) [OF _ 1(2) _ 1(4)] w d(2) False b by (simp add: unat_div)
    from denotes_Cons [OF this] 1(2) show ?thesis by (simp add: d(1) unat_mod)
  qed
qed

lemma wide_digits_low:
  "\<not> b < 2 \<Longrightarrow> wide_digits b dg v = (ds, r) \<Longrightarrow> drop_bit 32 r = 0"
proof (induction b dg v arbitrary: ds rule: wide_digits.induct)
  case (1 b dg v)
  then show ?case
    by (cases "drop_bit 32 v = 0") (auto simp: wide_digits.simps [of b dg v] split: prod.splits)
qed

lemma low_half: "drop_bit 32 (r :: u64) = 0 \<Longrightarrow> unat (ucast r :: u32) = unat r"
proof -
  assume "drop_bit 32 r = 0"
  then have "unat r div 2 ^ 32 = 0" by (metis unat_0 unat_drop_bit_eq drop_bit_eq_div)
  then show ?thesis by (simp add: unsigned_ucast_eq take_bit_nat_eq_self div_eq_0_iff)
qed

lemma unat_ucast64: "unat (ucast (b :: u32) :: u64) = unat b"
proof -
  have "unat b < 2 ^ 64" using unsigned_less [of b, where 'a = nat] by simp
  then show ?thesis by (simp add: unsigned_ucast_eq take_bit_nat_eq_self)
qed

lemma uint_digits_denote:
  assumes "2 \<le> unat b"
  shows "denotes (if u then digits_upper else digits_lower) (unat b) (uint_digits v b u) (unat v)"
proof (cases "v = 0")
  case True
  then have "uint_digits v b u = [(if u then digits_upper else digits_lower) ! 0]"
    by (simp add: uint_digits_def digits_upper_def digits_lower_def)
  moreover have "denotes dg (unat b) [dg ! 0] 0" for dg
    using denotes_Cons [of dg "unat b" "[]" 0] denotes_Nil [of dg "unat b"] assms by simp
  ultimately show ?thesis using True by simp
next
  case False
  let ?dg = "if u then digits_upper else digits_lower"
  obtain ds r where w: "wide_digits (ucast b) ?dg v = (ds, r)" by fastforce
  have ub: "unat (ucast b :: u64) = unat b" by (rule unat_ucast64)
  then have "drop_bit 32 r = 0"
    using wide_digits_low [OF _ w] assms by (simp add: word_less_nat_alt)
  then have "denotes ?dg (unat b) (low_digits b ?dg (ucast r)) (unat r)"
    using low_digits_denote [OF assms, of ?dg "ucast r"] by (simp add: low_half)
  from wide_digits_denote [OF _ w, unfolded ub, OF assms this] show ?thesis
    using False w by (simp add: uint_digits_def Let_def)
qed

lemma decimal_digit:
  assumes "k < 10"
  shows "isdigit (digits_lower ! k)" "digit_val (digits_lower ! k) = k"
proof -
  have "k \<in> {0, 1, 2, 3, 4, 5, 6, 7, 8, 9}" using assms by auto
  then show "isdigit (digits_lower ! k)" "digit_val (digits_lower ! k) = k"
    by (auto simp: digits_lower_def isdigit_def digit_val_def)
qed

lemma dec_val_rev:
  "\<forall>k \<in> set ks. k < 10 \<Longrightarrow> dec_val (rev (map (\<lambda>k. digits_lower ! k) ks)) = pos_val 10 ks"
  by (induction ks) (simp_all add: dec_val_def pos_val_def decimal_digit)

text \<open>The decimal text of a number: digits only, at least one, and read back as the number.\<close>

lemma dec_text:
  fixes v :: u64
  defines "t \<equiv> rev (uint_digits v 10 False)"
  shows "t \<noteq> []" "\<forall>c \<in> set t. isdigit c" "dec_val t = unat v"
proof -
  obtain ks where ks: "uint_digits v 10 False = map (\<lambda>k. digits_lower ! k) ks"
      "\<forall>k \<in> set ks. k < 10" "pos_val 10 ks = unat v"
    using uint_digits_denote [of 10 False v] by (auto simp: denotes_def)
  then show "\<forall>c \<in> set t. isdigit c" "dec_val t = unat v"
    by (auto simp: t_def dec_val_rev decimal_digit)
  show "t \<noteq> []"
  proof
    assume "t = []"
    then have "ks = []" using ks(1) by (simp add: t_def)
    then have "v = 0" using ks(3) by (simp add: pos_val_def unat_eq_zero)
    then show False using \<open>t = []\<close> by (simp add: t_def uint_digits_def)
  qed
qed

section \<open>The result of a call\<close>

lemma vsnprintf_stores:
  assumes "0 < n" "n \<le> length buf"
  shows "vsnprintf (Some buf) n fmt args =
    map_option (\<lambda>s. (Some (take (n - 1) s @ CHR 0x00 # drop (Suc (min (length s) (n - 1))) buf),
                     length s)) (render fmt args)"
proof (cases "render fmt args")
  case None
  then show ?thesis using vsn_loop_put [OF assms(2), of fmt args "[]"] assms(1)
    by (simp add: vsnprintf_def put_Nil)
next
  case (Some s)
  have "drop (min (length s) (n - 1)) buf =
      buf ! min (length s) (n - 1) # drop (Suc (min (length s) (n - 1))) buf"
    using assms by (simp add: Cons_nth_drop_Suc)
  then have "(blit buf 0 (take (n - 1) s))[(if length s < n then length s else n - 1) := CHR 0x00]
      = take (n - 1) s @ CHR 0x00 # drop (Suc (min (length s) (n - 1))) buf"
    using assms by (auto simp: blit_def list_update_append min_def split: if_splits)
  then show ?thesis using Some vsn_loop_put [OF assms(2), of fmt args "[]"] assms(1)
    by (simp add: vsnprintf_def put_Nil put_def)
qed

section \<open>Properties\<close>


text \<open>The digits written for a number in base 8, 10 or 16 denote that number: each is a digit
  of the base, and their positional value is the 64-bit argument, whichever of the two loops
  produced them.\<close>

theorem uint_digits_exact:
  assumes "b \<in> {8, 10, 16}"
  shows "\<exists>ks. uint_digits v b u = map (\<lambda>k. (if u then digits_upper else digits_lower) ! k) ks \<and>
      (\<forall>k \<in> set ks. k < unat b) \<and> foldr (\<lambda>k a. k + unat b * a) ks 0 = unat v"
  using uint_digits_denote [of b u v] assms by (auto simp: denotes_def pos_val_def)


theorem uint_digits_exact_witness:
  "\<exists>ks. uint_digits 255 16 True = map (\<lambda>k. digits_upper ! k) ks \<and>
      (\<forall>k \<in> set ks. k < 16) \<and> foldr (\<lambda>k a. k + 16 * a) ks 0 = 255"
  using uint_digits_exact [of 16 255 True] by simp

end
