(* ===== verification/Firewall.thy ===== *)
theory Firewall
  imports Printf
begin

text \<open>
  The packet filter, src/net/firewall.c: the rule table and its first-match decision, the checks
  of the socket layer, the two lwIP input hooks over the bytes of a packet, the control-line
  parser and the dump of the table.  Network-order addresses are the 32-bit words the code holds
  (first octet in the low byte).  A packet is the payload of its first pbuf.
\<close>

section \<open>Rules and the decision\<close>

abbreviation (input) FW_IN :: int where "FW_IN \<equiv> 1"
abbreviation (input) FW_OUT :: int where "FW_OUT \<equiv> 2"
abbreviation (input) FW_ANYDIR :: int where "FW_ANYDIR \<equiv> 3"
abbreviation (input) FW_ALLOW :: int where "FW_ALLOW \<equiv> 0"
abbreviation (input) FW_DROP :: int where "FW_DROP \<equiv> 1"
abbreviation (input) FW_TCP :: int where "FW_TCP \<equiv> 6"
abbreviation (input) FW_UDP :: int where "FW_UDP \<equiv> 17"
abbreviation (input) FW_ICMP :: int where "FW_ICMP \<equiv> 1"
abbreviation (input) FW_ANYPROTO :: int where "FW_ANYPROTO \<equiv> 0"
abbreviation (input) FW_MAX_RULES :: nat where "FW_MAX_RULES \<equiv> 32"

record fw_rule =
  in_use :: u8
  action :: u8
  dir :: u8
  proto :: u8
  ip :: u32
  mask :: u32
  any_port :: u8
  port_lo :: u16
  port_hi :: u16
  hits :: u32

definition zero_rule :: fw_rule where
  "zero_rule = \<lparr>in_use = 0, action = 0, dir = 0, proto = 0, ip = 0, mask = 0,
     any_port = 0, port_lo = 0, port_hi = 0, hits = 0\<rparr>"

record fw =
  rules :: "fw_rule list"
  fw_enabled :: bool
  policy_in :: int
  policy_out :: int

definition fw_boot :: fw where
  "fw_boot = \<lparr>rules = replicate FW_MAX_RULES zero_rule, fw_enabled = False,
     policy_in = FW_ALLOW, policy_out = FW_ALLOW\<rparr>"

definition rule_matches :: "fw_rule \<Rightarrow> int \<Rightarrow> int \<Rightarrow> u32 \<Rightarrow> u16 \<Rightarrow> bool \<Rightarrow> bool" where
  "rule_matches r d pr a port v6 =
     (if in_use r = 0 then False
      else if v6 \<and> mask r \<noteq> 0 then False
      else if uint (dir r) \<noteq> FW_ANYDIR \<and> uint (dir r) \<noteq> d then False
      else if uint (proto r) \<noteq> FW_ANYPROTO \<and> uint (proto r) \<noteq> pr then False
      else if mask r \<noteq> 0 \<and> a AND mask r \<noteq> ip r AND mask r then False
      else if any_port r = 0 \<and> (port < port_lo r \<or> port > port_hi r) then False
      else True)"

text \<open>The scan of the table from index \<open>i\<close>: the index of the first matching rule.\<close>

fun decide_scan :: "fw_rule list \<Rightarrow> nat \<Rightarrow> int \<Rightarrow> int \<Rightarrow> u32 \<Rightarrow> u16 \<Rightarrow> bool \<Rightarrow> nat option" where
  "decide_scan [] i d pr a port v6 = None"
| "decide_scan (r # rs) i d pr a port v6 =
     (if rule_matches r d pr a port v6 then Some i else decide_scan rs (i + 1) d pr a port v6)"

definition fw_decide_af :: "int \<Rightarrow> int \<Rightarrow> u32 \<Rightarrow> u16 \<Rightarrow> bool \<Rightarrow> fw \<Rightarrow> int \<times> fw" where
  "fw_decide_af d pr a port v6 F =
     (if \<not> fw_enabled F then (FW_ALLOW, F)
      else case decide_scan (rules F) 0 d pr a port v6 of
        Some i \<Rightarrow> (uint (action (rules F ! i)),
                   F\<lparr>rules := (rules F)[i := (rules F ! i)\<lparr>hits := hits (rules F ! i) + 1\<rparr>]\<rparr>)
      | None \<Rightarrow> (if d = FW_IN then policy_in F else policy_out F, F))"

definition fw_decide :: "int \<Rightarrow> int \<Rightarrow> u32 \<Rightarrow> u16 \<Rightarrow> fw \<Rightarrow> int \<times> fw" where
  "fw_decide d pr a port F = fw_decide_af d pr a port False F"

definition firewall_check :: "int \<Rightarrow> int \<Rightarrow> u32 \<Rightarrow> u16 \<Rightarrow> fw \<Rightarrow> int \<times> fw" where
  "firewall_check d pr remote_ip port F =
     (let (r, F') = fw_decide d pr remote_ip port F in (if r = FW_DROP then - EACCES else 0, F'))"

definition firewall_check6 :: "int \<Rightarrow> int \<Rightarrow> u16 \<Rightarrow> fw \<Rightarrow> int \<times> fw" where
  "firewall_check6 d pr port F =
     (let (r, F') = fw_decide_af d pr 0 port True F in (if r = FW_DROP then - EACCES else 0, F'))"

section \<open>Inbound packets\<close>

text \<open>A hook gets the bytes of the first pbuf (None: no pbuf) and the name of the interface (None:
  no interface), and returns 1 when it consumed, that is freed, the packet.\<close>

definition is_lo :: "string option \<Rightarrow> bool" where
  "is_lo inp = (case inp of None \<Rightarrow> False | Some nm \<Rightarrow> take 2 nm = ''lo'')"

definition be16 :: "u8 list \<Rightarrow> nat \<Rightarrow> u16" where
  "be16 b i = (push_bit 8 (ucast (b ! i))) OR ucast (b ! (i + 1))"

text \<open>The walk over the IPv6 extension headers, at most \<open>k\<close> of them.\<close>

fun ext_walk :: "nat \<Rightarrow> u8 list \<Rightarrow> u8 \<Rightarrow> nat \<Rightarrow> u8 \<times> nat" where
  "ext_walk 0 b nh off = (nh, off)"
| "ext_walk (Suc k) b nh off =
     (if nh = 0 \<or> nh = 43 \<or> nh = 60 then
        if length b < off + 8 then (255, off)
        else ext_walk k b (b ! off) (off + 8 + 8 * unat (b ! (off + 1)))
      else (nh, off))"

definition firewall_ip6_input_hook :: "u8 list option \<Rightarrow> string option \<Rightarrow> fw \<Rightarrow> int \<times> fw" where
  "firewall_ip6_input_hook p inp F = (case p of
     None \<Rightarrow> (0, F)
   | Some b \<Rightarrow>
       if \<not> fw_enabled F \<or> length b < 40 then (0, F)
       else if is_lo inp then (0, F)
       else
         let (nh, off) = ext_walk 8 b (b ! 6) 40;
             pr = (if nh = 58 then FW_ICMP else uint nh)
         in if nh = 58 \<and> off + 1 \<le> length b \<and>
               (130 \<le> b ! off \<and> b ! off \<le> 137 \<or> b ! off = 143) then (0, F)
            else
              let dport = (if nh \<noteq> 58 \<and> (uint nh = FW_TCP \<or> uint nh = FW_UDP) \<and>
                              off + 4 \<le> length b then be16 b (off + 2) else 0);
                  (r, F') = fw_decide_af FW_IN pr 0 dport True F
              in (if r = FW_DROP then 1 else 0, F'))"

definition firewall_ip4_input_hook :: "u8 list option \<Rightarrow> string option \<Rightarrow> fw \<Rightarrow> int \<times> fw" where
  "firewall_ip4_input_hook p inp F = (case p of
     None \<Rightarrow> (0, F)
   | Some b \<Rightarrow>
       if \<not> fw_enabled F \<or> length b < 20 then (0, F)
       else if is_lo inp then (0, F)
       else
         let pr = uint (b ! 9);
             src = ucast (b ! 12) OR push_bit 8 (ucast (b ! 13)) OR push_bit 16 (ucast (b ! 14))
                     OR push_bit 24 (ucast (b ! 15)) :: u32;
             ihl = unat (b ! 0 AND 0x0F) * 4;
             l4 = (ihl + 4 \<le> length b)
         in if pr = FW_UDP \<and> l4 \<and> (be16 b (ihl + 2) = 67 \<or> be16 b (ihl + 2) = 68) then (0, F)
            else
              let dport = (if (pr = FW_TCP \<or> pr = FW_UDP) \<and> l4 then be16 b (ihl + 2) else 0);
                  (r, F') = fw_decide FW_IN pr src dport F
              in (if r = FW_DROP then 1 else 0, F'))"

section \<open>Control lines\<close>

text \<open>A position in the line is the rest of the line; \<open>cur\<close> is the character there, NUL at the
  end.\<close>

definition cur :: "string \<Rightarrow> char" where
  "cur p = (case p of [] \<Rightarrow> CHR 0x00 | c # _ \<Rightarrow> c)"

definition isblank :: "char \<Rightarrow> bool" where
  "isblank c = (c = CHR '' '' \<or> c = CHR 0x09)"

fun parse_digits :: "u32 \<Rightarrow> u32 \<Rightarrow> string \<Rightarrow> (u32 \<times> string) option" where
  "parse_digits mx v [] = Some (v, [])"
| "parse_digits mx v (c # p) =
     (if isdigit c then
        let v' = v * 10 + of_nat (digit_val c) in if v' > mx then None else parse_digits mx v' p
      else Some (v, c # p))"

definition parse_num :: "string \<Rightarrow> u32 \<Rightarrow> (u32 \<times> string) option" where
  "parse_num p mx = (if \<not> isdigit (cur p) then None else parse_digits mx 0 p)"

text \<open>The loop over the octets \<open>i .. 3\<close>, with the octets read so far.\<close>

fun parse_octets :: "nat \<Rightarrow> bool \<Rightarrow> string \<Rightarrow> (u32 list \<times> string) option" where
  "parse_octets 0 dot p = Some ([], p)"
| "parse_octets (Suc k) dot p =
     (if dot \<and> cur p \<noteq> CHR ''.'' then None
      else case parse_num (if dot then tl p else p) 255 of
        None \<Rightarrow> None
      | Some (v, q) \<Rightarrow> map_option (\<lambda>(vs, r). (v # vs, r)) (parse_octets k True q))"

definition ip_of :: "u32 list \<Rightarrow> u32" where
  "ip_of b = (b ! 0) OR (push_bit 8 (b ! 1)) OR (push_bit 16 (b ! 2)) OR (push_bit 24 (b ! 3))"

definition parse_ip :: "string \<Rightarrow> (u32 \<times> string) option" where
  "parse_ip p = map_option (\<lambda>(b, q). (ip_of b, q)) (parse_octets 4 False p)"

definition at_token_end :: "string \<Rightarrow> bool" where
  "at_token_end p = (cur p = CHR '' '' \<or> cur p = CHR 0x09 \<or> cur p = CHR 0x00 \<or> cur p = CHR 0x0A)"

definition skip_ws :: "string \<Rightarrow> string" where
  "skip_ws p = dropWhile isblank p"

text \<open>\<open>strncmp\<close> of src/lib/string.c.\<close>

fun strncmp :: "string \<Rightarrow> string \<Rightarrow> nat \<Rightarrow> int" where
  "strncmp a b 0 = 0"
| "strncmp a b (Suc n) =
     (if cur a \<noteq> CHR 0x00 \<and> cur a = cur b then strncmp (tl a) (tl b) n
      else of_char (cur a) - of_char (cur b))"

definition word_is :: "string \<Rightarrow> string \<Rightarrow> string option" where
  "word_is pp w =
     (let p = skip_ws pp; n = length w
      in if strncmp p w n = 0 \<and> at_token_end (drop n p) then Some (drop n p) else None)"

text \<open>A chain of conditional expressions over \<open>word_is\<close>: the value of the first word that is
  there, which is then skipped, else the last value of the chain.\<close>

fun word_choice :: "(string \<times> int) list \<Rightarrow> int \<Rightarrow> string \<Rightarrow> int \<times> string" where
  "word_choice [] d p = (d, p)"
| "word_choice ((w, v) # ws) d p =
     (case word_is p w of Some q \<Rightarrow> (v, q) | None \<Rightarrow> word_choice ws d p)"

definition add_rule :: "int \<Rightarrow> int \<Rightarrow> int \<Rightarrow> u32 \<Rightarrow> u32 \<Rightarrow> bool \<Rightarrow> u16 \<Rightarrow> u16 \<Rightarrow> fw \<Rightarrow> int \<times> fw" where
  "add_rule act d pr a m anyp lo hi F =
     (case find (\<lambda>i. in_use (rules F ! i) = 0) [0..<length (rules F)] of
        None \<Rightarrow> (- 1, F)
      | Some i \<Rightarrow> (0, F\<lparr>rules := (rules F)[i :=
          \<lparr>in_use = 1, action = word_of_int act, dir = word_of_int d, proto = word_of_int pr,
           ip = a, mask = m, any_port = (if anyp then 1 else 0), port_lo = lo, port_hi = hi,
           hits = 0\<rparr>]\<rparr>))"

definition bswap32 :: "u32 \<Rightarrow> u32" where
  "bswap32 x = push_bit 24 x OR push_bit 8 (x AND 0xFF00) OR (drop_bit 8 x AND 0xFF00)
     OR drop_bit 24 x"

definition mask_of :: "u32 \<Rightarrow> u32" where
  "mask_of bits = (if bits = 32 then 0xFFFFFFFF else if bits = 0 then 0
     else bswap32 (push_bit (32 - unat bits) 0xFFFFFFFF))"

text \<open>The optional address of a rule line: address, mask and the rest; None is an error.\<close>

definition rule_addr :: "string \<Rightarrow> (u32 \<times> u32 \<times> string) option" where
  "rule_addr p =
     (if \<not> isdigit (cur p) then Some (0, 0, p)
      else case parse_ip p of
        None \<Rightarrow> None
      | Some (a, q) \<Rightarrow>
          (case (if cur q = CHR ''/'' then parse_num (tl q) 32 else Some (32, q)) of
             None \<Rightarrow> None
           | Some (bits, r) \<Rightarrow> if at_token_end r then Some (a, mask_of bits, r) else None))"

text \<open>The optional port or range of ports.\<close>

definition rule_ports :: "string \<Rightarrow> (bool \<times> u32 \<times> u32 \<times> string) option" where
  "rule_ports p =
     (if \<not> isdigit (cur p) then Some (True, 0, 0, p)
      else case parse_num p 65535 of
        None \<Rightarrow> None
      | Some (lo, q) \<Rightarrow>
          if cur q = CHR ''-'' then
            (case parse_num (tl q) 65535 of
               None \<Rightarrow> None
             | Some (hi, r) \<Rightarrow> if hi < lo then None else Some (False, lo, hi, r))
          else Some (False, lo, lo, q))"

text \<open>A rule line after the word \<open>rule\<close>: action, direction, protocol, address, mask, any port,
  first and last port; None is an error.\<close>

type_synonym rule_fields = "int \<times> int \<times> int \<times> u32 \<times> u32 \<times> bool \<times> u32 \<times> u32"

abbreviation (input) act_words :: "(string \<times> int) list" where
  "act_words \<equiv> [(''allow'', FW_ALLOW), (''drop'', FW_DROP)]"
abbreviation (input) dir_words :: "(string \<times> int) list" where
  "dir_words \<equiv> [(''in'', FW_IN), (''out'', FW_OUT), (''any'', FW_ANYDIR)]"
abbreviation (input) proto_words :: "(string \<times> int) list" where
  "proto_words \<equiv> [(''tcp'', FW_TCP), (''udp'', FW_UDP), (''icmp'', FW_ICMP), (''any'', FW_ANYPROTO)]"

definition rule_parse :: "string \<Rightarrow> rule_fields option" where
  "rule_parse p0 =
     (let (act, p1) = word_choice act_words (- 1) p0
      in if act < 0 then None
         else
           let (d, p2) = word_choice dir_words FW_ANYDIR p1;
               (pr, p3) = word_choice proto_words FW_ANYPROTO p2
           in case rule_addr (skip_ws p3) of
                None \<Rightarrow> None
              | Some (a, m, p4) \<Rightarrow>
                  (case rule_ports (skip_ws p4) of
                     None \<Rightarrow> None
                   | Some (anyp, lo, hi, p5) \<Rightarrow>
                       (let p6 = skip_ws p5
                        in if cur p6 \<noteq> CHR 0x00 \<and> cur p6 \<noteq> CHR 0x0A then None
                           else Some (act, d, pr, a, m, anyp, lo, hi))))"

definition rule_line :: "string \<Rightarrow> fw \<Rightarrow> int \<times> fw" where
  "rule_line p F = (case rule_parse p of
     None \<Rightarrow> (- 1, F)
   | Some (act, d, pr, a, m, anyp, lo, hi) \<Rightarrow> add_rule act d pr a m anyp (ucast lo) (ucast hi) F)"

definition policy_line :: "string \<Rightarrow> fw \<Rightarrow> int \<times> fw" where
  "policy_line p0 F =
     (let (d, p1) = word_choice [(''in'', FW_IN), (''out'', FW_OUT)] (- 1) p0
      in if d < 0 then (- 1, F)
         else let (act, p2) = word_choice [(''drop'', FW_DROP), (''allow'', FW_ALLOW)] (- 1) p1
              in if act < 0 then (- 1, F)
                 else (0, if d = FW_IN then F\<lparr>policy_in := act\<rparr> else F\<lparr>policy_out := act\<rparr>))"

definition firewall_ctl_line :: "string \<Rightarrow> fw \<Rightarrow> int \<times> fw" where
  "firewall_ctl_line line F =
     (let p = skip_ws line
      in if cur p = CHR ''#'' \<or> cur p = CHR 0x00 \<or> cur p = CHR 0x0A then (0, F)
         else if word_is p ''enable'' \<noteq> None then (0, F\<lparr>fw_enabled := True\<rparr>)
         else if word_is p ''disable'' \<noteq> None then (0, F\<lparr>fw_enabled := False\<rparr>)
         else if word_is p ''flush'' \<noteq> None then
           (0, F\<lparr>rules := replicate FW_MAX_RULES zero_rule\<rparr>)
         else case word_is p ''policy'' of
           Some q \<Rightarrow> policy_line q F
         | None \<Rightarrow> (case word_is p ''rule'' of Some q \<Rightarrow> rule_line q F | None \<Rightarrow> (- 1, F)))"

section \<open>The dump\<close>

function mask_bits :: "u32 \<Rightarrow> nat" where
  "mask_bits m = (if m AND 0x80000000 = 0 then 0 else 1 + mask_bits (push_bit 1 m))"
  by auto

termination mask_bits
proof (relation "measure (\<lambda>m. LEAST k. push_bit k m AND 0x80000000 = 0)")
  fix m :: u32
  assume "m AND 0x80000000 \<noteq> 0"
  moreover have "push_bit 32 m = 0" by (rule bit_word_eqI) (simp add: bit_push_bit_iff)
  ultimately have "(LEAST k. push_bit k m AND 0x80000000 = 0) =
      Suc (LEAST k. push_bit (Suc k) m AND 0x80000000 = 0)"
    by (intro Least_Suc [of _ 32]) simp_all
  then show "(push_bit 1 m, m) \<in> measure (\<lambda>m. LEAST k. push_bit k m AND 0x80000000 = 0)"
    by (simp add: push_bit_push_bit)
qed simp

declare mask_bits.simps [simp del]

text \<open>\<open>snprintf (buf + off, cap - off, ...)\<close>: the buffer afterwards and the length returned.\<close>

definition snprintf_at :: "string \<Rightarrow> nat \<Rightarrow> nat \<Rightarrow> string \<Rightarrow> va list \<Rightarrow> (string \<times> nat) option" where
  "snprintf_at buf off cap fmt args =
     map_option (\<lambda>(b, n). (take off buf @ b, n)) (snprintf (drop off buf) (cap - off) fmt args)"

definition status_fmt :: string where
  "status_fmt = ''firewall: %s  policy in=%s out=%s'' @ [CHR 0x0A]"

definition status_args :: "fw \<Rightarrow> va list" where
  "status_args F =
     [VStr (Some (if fw_enabled F then ''enabled'' else ''disabled'')),
      VStr (Some (if policy_in F = FW_DROP then ''drop'' else ''allow'')),
      VStr (Some (if policy_out F = FW_DROP then ''drop'' else ''allow''))]"

definition rule_fmt :: string where
  "rule_fmt = ''  %s %s %s %u.%u.%u.%u/%d port %s  hits=%u'' @ [CHR 0x0A]"

text \<open>The local buffer \<open>ports\<close> of 16 bytes, read as the string up to its NUL.\<close>

definition ports_buf :: "fw_rule \<Rightarrow> string option" where
  "ports_buf r =
     map_option (\<lambda>(b, n). takeWhile (\<lambda>c. c \<noteq> CHR 0x00) b)
       (if any_port r \<noteq> 0 then snprintf (replicate 16 CHR 0x00) 16 ''any'' []
        else snprintf (replicate 16 CHR 0x00) 16 ''%u-%u''
               [VInt (ucast (port_lo r)), VInt (ucast (port_hi r))])"

definition rule_args :: "fw_rule \<Rightarrow> string \<Rightarrow> va list" where
  "rule_args r ports =
     [VStr (Some (if uint (action r) = FW_DROP then ''drop'' else ''allow'')),
      VStr (Some (if uint (dir r) = FW_IN then ''in'' else if uint (dir r) = FW_OUT then ''out''
                  else ''any'')),
      VStr (Some (if uint (proto r) = FW_TCP then ''tcp'' else if uint (proto r) = FW_UDP then ''udp''
                  else if uint (proto r) = FW_ICMP then ''icmp'' else ''any'')),
      VInt (ip r AND 0xFF), VInt (drop_bit 8 (ip r) AND 0xFF), VInt (drop_bit 16 (ip r) AND 0xFF),
      VInt (drop_bit 24 (ip r) AND 0xFF), VInt (of_nat (mask_bits (bswap32 (mask r)))),
      VStr (Some ports), VInt (hits r)]"

fun dump_rules :: "nat \<Rightarrow> fw_rule list \<Rightarrow> string \<Rightarrow> nat \<Rightarrow> (string \<times> nat) option" where
  "dump_rules cap [] buf off = Some (buf, off)"
| "dump_rules cap (r # rs) buf off =
     (if \<not> off < cap then Some (buf, off)
      else if in_use r = 0 then dump_rules cap rs buf off
      else case ports_buf r of
        None \<Rightarrow> None
      | Some ports \<Rightarrow>
          (case snprintf_at buf off cap rule_fmt (rule_args r ports) of
             None \<Rightarrow> None
           | Some (b, n) \<Rightarrow> dump_rules cap rs b (off + n)))"

definition firewall_dump :: "string \<Rightarrow> nat \<Rightarrow> fw \<Rightarrow> (string \<times> nat) option" where
  "firewall_dump buf cap F =
     (case snprintf_at buf 0 cap status_fmt (status_args F) of
        None \<Rightarrow> None
      | Some (b, n) \<Rightarrow>
          map_option (\<lambda>(b', off). (b', if cap \<noteq> 0 \<and> cap \<le> off then cap - 1 else off))
            (dump_rules cap (rules F) b n))"

section \<open>Prefixes\<close>

text \<open>The bit of the byte-swapped word that bit \<open>k\<close> comes from.\<close>

definition swap_pos :: "nat \<Rightarrow> nat" where
  "swap_pos k = 8 * (3 - k div 8) + k mod 8"

lemma bit_bswap32: "k < 32 \<Longrightarrow> bit (bswap32 x) k = bit x (swap_pos k)"
proof -
  assume "k < 32"
  then have "k \<in> {0, 1, 2, 3, 4, 5, 6, 7, 8, 9, 10, 11, 12, 13, 14, 15, 16, 17, 18, 19, 20, 21, 22,
      23, 24, 25, 26, 27, 28, 29, 30, 31}"
    unfolding insert_iff empty_iff by presburger
  moreover have "\<not> bit x j" if "32 \<le> j" for j using that by (auto dest: bit_imp_le_length)
  ultimately show ?thesis
    unfolding bswap32_def swap_pos_def bit_or_iff bit_and_iff bit_push_bit_iff bit_drop_bit_eq comp_def
    by (elim insertE emptyE; simp flip: numeral_2_eq_2)
qed

lemma swap_pos_less: "k < 32 \<Longrightarrow> swap_pos k < 32"
  unfolding swap_pos_def by linarith

lemma swap_pos_swap: "k < 32 \<Longrightarrow> swap_pos (swap_pos k) = k"
  unfolding swap_pos_def by (simp add: div_mult_self4)

lemma bswap32_bswap32: "bswap32 (bswap32 x) = x"
  by (rule bit_word_eqI) (simp add: bit_bswap32 swap_pos_less swap_pos_swap)

lemma bswap32_and: "bswap32 (x AND y) = bswap32 x AND bswap32 y"
  by (rule bit_word_eqI) (simp add: bit_bswap32 bit_and_iff swap_pos_less)

lemma bswap32_eq: "bswap32 x = bswap32 y \<longleftrightarrow> x = y"
  by (metis bswap32_bswap32)

lemma all_ones: "(0xFFFFFFFF :: u32) = - 1"
  by simp

lemma prefix_eq:
  fixes x y :: u32
  assumes "k \<le> 32"
  shows "x AND push_bit k 0xFFFFFFFF = y AND push_bit k 0xFFFFFFFF \<longleftrightarrow> drop_bit k x = drop_bit k y"
proof -
  have b: "bit (0xFFFFFFFF :: u32) j" if "j < 32" for j
    unfolding all_ones bit_minus_1_iff using that by simp
  show ?thesis
  proof
    assume e: "x AND push_bit k 0xFFFFFFFF = y AND push_bit k 0xFFFFFFFF"
    show "drop_bit k x = drop_bit k y"
    proof (rule bit_word_eqI)
      fix j assume "j < LENGTH(32)"
      have "bit x (k + j) = bit y (k + j)" if "k + j < 32"
        using arg_cong [OF e, of "\<lambda>w. bit w (k + j)"] that b
        by (simp add: bit_and_iff bit_push_bit_iff)
      moreover have "\<not> bit x (k + j) \<and> \<not> bit y (k + j)" if "\<not> k + j < 32"
        using that by (auto dest: bit_imp_le_length)
      ultimately show "bit (drop_bit k x) j = bit (drop_bit k y) j"
        by (auto simp: bit_drop_bit_eq)
    qed
  next
    assume e: "drop_bit k x = drop_bit k y"
    show "x AND push_bit k 0xFFFFFFFF = y AND push_bit k 0xFFFFFFFF"
    proof (rule bit_word_eqI)
      fix j assume "j < LENGTH(32)"
      have "bit x j = bit y j" if "k \<le> j"
        using arg_cong [OF e, of "\<lambda>w. bit w (j - k)"] that by (simp add: bit_drop_bit_eq)
      then show "bit (x AND push_bit k 0xFFFFFFFF) j = bit (y AND push_bit k 0xFFFFFFFF) j"
        by (auto simp: bit_and_iff bit_push_bit_iff)
    qed
  qed
qed

text \<open>The address test of a rule with prefix length \<open>n\<close> compares the first \<open>n\<close> bits of the two
  addresses in host order.\<close>

lemma mask_of_prefix:
  assumes "n \<le> 32"
  shows "x AND mask_of n = y AND mask_of n \<longleftrightarrow>
    drop_bit (32 - unat n) (bswap32 x) = drop_bit (32 - unat n) (bswap32 y)"
proof -
  have n: "unat n \<le> 32" using assms by (simp add: word_le_nat_alt)
  consider "n = 32" | "n = 0" | "n \<noteq> 32" "n \<noteq> 0" by blast
  then show ?thesis
  proof cases
    case 1
    moreover have "z AND 0xFFFFFFFF = z" for z :: u32
      unfolding all_ones by simp
    ultimately show ?thesis by (simp add: mask_of_def bswap32_eq)
  next
    case 2
    then show ?thesis by (simp add: mask_of_def)
  next
    case 3
    have "x AND mask_of n = y AND mask_of n \<longleftrightarrow>
        bswap32 (x AND mask_of n) = bswap32 (y AND mask_of n)" by (simp add: bswap32_eq)
    then show ?thesis using 3 prefix_eq [of "32 - unat n"]
      by (simp add: mask_of_def bswap32_and bswap32_bswap32)
  qed
qed

section \<open>The decision is the first match\<close>

lemma decide_scan_Some:
  "decide_scan rs i d pr a port v6 = Some k \<longleftrightarrow>
    (\<exists>j < length rs. k = i + j \<and> rule_matches (rs ! j) d pr a port v6 \<and>
       (\<forall>l < j. \<not> rule_matches (rs ! l) d pr a port v6))"
proof (induction rs arbitrary: i)
  case (Cons r rs)
  show ?case
  proof (cases "rule_matches r d pr a port v6")
    case True
    then show ?thesis by (force intro: exI [of _ 0])
  next
    case False
    have "(\<exists>j < length (r # rs). k = i + j \<and> rule_matches ((r # rs) ! j) d pr a port v6 \<and>
         (\<forall>l < j. \<not> rule_matches ((r # rs) ! l) d pr a port v6)) \<longleftrightarrow>
        (\<exists>j < length rs. k = i + 1 + j \<and> rule_matches (rs ! j) d pr a port v6 \<and>
         (\<forall>l < j. \<not> rule_matches (rs ! l) d pr a port v6))" (is "?L \<longleftrightarrow> ?R")
    proof
      assume ?L
      then obtain j where j: "j < length (r # rs)" "k = i + j"
          "rule_matches ((r # rs) ! j) d pr a port v6"
          "\<forall>l < j. \<not> rule_matches ((r # rs) ! l) d pr a port v6" by blast
      then obtain j' where "j = Suc j'" using False by (cases j) auto
      then show ?R using j by (intro exI [of _ j']) auto
    next
      assume ?R
      then obtain j where "j < length rs" "k = i + 1 + j" "rule_matches (rs ! j) d pr a port v6"
          "\<forall>l < j. \<not> rule_matches (rs ! l) d pr a port v6" by blast
      then show ?L using False by (intro exI [of _ "Suc j"]) (auto simp: less_Suc_eq_0_disj)
    qed
    then show ?thesis using False Cons by simp
  qed
qed simp

lemma decide_scan_None:
  "decide_scan rs i d pr a port v6 = None \<longleftrightarrow> (\<forall>r \<in> set rs. \<not> rule_matches r d pr a port v6)"
  by (induction rs arbitrary: i) auto

section \<open>Tokens of a control line\<close>

text \<open>The tokens of a line: the maximal runs of other characters between blanks, up to the first
  newline or NUL.\<close>

definition tok_end :: "char \<Rightarrow> bool" where
  "tok_end c = (isblank c \<or> c = CHR 0x00 \<or> c = CHR 0x0A)"

abbreviation (input) tok :: "string \<Rightarrow> string" where
  "tok p \<equiv> takeWhile (\<lambda>c. \<not> tok_end c) (skip_ws p)"

abbreviation (input) rest :: "string \<Rightarrow> string" where
  "rest p \<equiv> dropWhile (\<lambda>c. \<not> tok_end c) (skip_ws p)"

function tokens :: "string \<Rightarrow> string list" where
  "tokens p = (if tok p = [] then [] else tok p # tokens (rest p))"
  by auto

lemma rest_length: "tok p \<noteq> [] \<Longrightarrow> length (rest p) < length p"
proof -
  assume "tok p \<noteq> []"
  moreover have "length (tok p) + length (rest p) = length (skip_ws p)"
    by (metis length_append takeWhile_dropWhile_id)
  moreover have "length (skip_ws p) \<le> length p" by (simp add: skip_ws_def length_dropWhile_le)
  ultimately show ?thesis by (metis add_less_cancel_right add_0 length_greater_0_conv less_le_trans)
qed

termination tokens
  by (relation "measure length") (simp_all add: rest_length)

declare tokens.simps [simp del]

lemma at_token_end_cur: "at_token_end p \<longleftrightarrow> tok_end (cur p)"
  by (auto simp: at_token_end_def tok_end_def isblank_def)

lemma cur_Nil [simp]: "cur [] = CHR 0x00" and cur_Cons [simp]: "cur (c # p) = c"
  by (simp_all add: cur_def)

lemma strncmp_prefix:
  "CHR 0x00 \<notin> set w \<Longrightarrow> strncmp p w (length w) = 0 \<longleftrightarrow> take (length w) p = w"
proof (induction w arbitrary: p)
  case (Cons c w)
  moreover have "c \<noteq> CHR 0x00" "(of_char x :: int) = of_char y \<longleftrightarrow> x = y" for x y :: char
    using Cons.prems by (auto simp: of_char_eq_iff)
  moreover from this(1) this(2) [of c "CHR 0x00"] have "(of_char c :: int) \<noteq> 0" by simp
  ultimately show ?case by (cases p) auto
qed simp

definition word :: "string \<Rightarrow> bool" where
  "word w \<longleftrightarrow> w \<noteq> [] \<and> (\<forall>c \<in> set w. \<not> tok_end c)"

lemma tok_end_NUL [simp]: "tok_end CHR 0x00"
  by (simp add: tok_end_def)

lemma takeWhile_is:
  assumes "\<forall>c \<in> set w. \<not> tok_end c"
  shows "takeWhile (\<lambda>c. \<not> tok_end c) q = w \<longleftrightarrow>
    take (length w) q = w \<and> tok_end (cur (drop (length w) q))"
proof
  assume t: "takeWhile (\<lambda>c. \<not> tok_end c) q = w"
  have "q = w @ dropWhile (\<lambda>c. \<not> tok_end c) q" using t by (metis takeWhile_dropWhile_id)
  then have "take (length w) q = w" "drop (length w) q = dropWhile (\<lambda>c. \<not> tok_end c) q"
    by (metis append_eq_conv_conj)+
  moreover have "tok_end (cur (dropWhile (\<lambda>c. \<not> tok_end c) q))"
    by (induction q) auto
  ultimately show "take (length w) q = w \<and> tok_end (cur (drop (length w) q))" by simp
next
  assume "take (length w) q = w \<and> tok_end (cur (drop (length w) q))"
  moreover from this have "q = w @ drop (length w) q" by (metis append_take_drop_id)
  ultimately show "takeWhile (\<lambda>c. \<not> tok_end c) q = w"
    using assms by (cases "drop (length w) q") (auto simp: takeWhile_append2 takeWhile_eq_all_conv)
qed

lemma word_is_tok:
  assumes "word w"
  shows "word_is p w = (if tok p = w then Some (rest p) else None)"
proof -
  have "CHR 0x00 \<notin> set w" using assms by (auto simp: word_def)
  then have "word_is p w = (if tok p = w then Some (drop (length w) (skip_ws p)) else None)"
    using assms takeWhile_is [of w "skip_ws p"]
    by (simp add: word_is_def Let_def strncmp_prefix at_token_end_cur word_def)
  then show ?thesis by (simp add: dropWhile_eq_drop)
qed

section \<open>Numbers, addresses and port ranges as written\<close>

definition dval :: "nat \<Rightarrow> string \<Rightarrow> nat" where
  "dval acc ds = fold (\<lambda>c w. w * 10 + digit_val c) ds acc"

lemma dval_ge: "acc \<le> dval acc ds"
proof (induction ds arbitrary: acc)
  case (Cons c ds)
  have "acc \<le> acc * 10 + digit_val c" by simp
  also have "\<dots> \<le> dval (acc * 10 + digit_val c) ds" by (rule Cons)
  finally show ?case by (simp add: dval_def)
qed (simp add: dval_def)

lemma digit_val_le: "isdigit c \<Longrightarrow> digit_val c \<le> 9"
  unfolding isdigit_def digit_val_def by linarith

lemma parse_digits_eq:
  assumes "unat mx \<le> 65535" "unat v \<le> unat mx"
  shows "parse_digits mx v p =
    (if dval (unat v) (takeWhile isdigit p) \<le> unat mx
     then Some (of_nat (dval (unat v) (takeWhile isdigit p)), dropWhile isdigit p) else None)"
  using assms(2)
proof (induction p arbitrary: v)
  case (Cons c p)
  show ?case
  proof (cases "isdigit c")
    case True
    let ?v = "v * 10 + of_nat (digit_val c)"
    have eq: "?v = of_nat (unat v * 10 + digit_val c)" by (simp add: unsigned_of_nat)
    have "unat v * 10 + digit_val c < 2 ^ 32"
      using Cons.prems assms(1) digit_val_le [OF True] by simp
    then have u: "unat ?v = unat v * 10 + digit_val c"
      unfolding eq unat_of_nat by simp
    show ?thesis
    proof (cases "?v > mx")
      case over: True
      then have "\<not> dval (unat ?v) (takeWhile isdigit p) \<le> unat mx"
        using dval_ge [of "unat ?v" "takeWhile isdigit p"] by (simp add: word_less_nat_alt)
      then show ?thesis using over True u by (simp add: dval_def)
    next
      case False
      then have "unat ?v \<le> unat mx" by (simp add: word_less_nat_alt)
      from Cons.IH [OF this] show ?thesis using False True u by (simp add: dval_def Let_def)
    qed
  next
    case False
    then show ?thesis using Cons.prems by (simp add: dval_def)
  qed
qed (simp add: dval_def)

text \<open>A decimal number no larger than \<open>mx\<close>.\<close>

definition num :: "nat \<Rightarrow> string \<Rightarrow> bool" where
  "num mx ds \<longleftrightarrow> ds \<noteq> [] \<and> (\<forall>c \<in> set ds. isdigit c) \<and> dec_val ds \<le> mx"

lemma isdigit_NUL [simp]: "\<not> isdigit CHR 0x00"
  by (simp add: isdigit_def)

lemma parse_num_iff:
  assumes "unat mx \<le> 65535"
  shows "parse_num p mx = Some (v, q) \<longleftrightarrow>
    (\<exists>ds. p = ds @ q \<and> num (unat mx) ds \<and> \<not> isdigit (cur q) \<and> v = of_nat (dec_val ds))"
proof -
  have e: "parse_num p mx = (if takeWhile isdigit p = [] \<or> unat mx < dec_val (takeWhile isdigit p) then None
      else Some (of_nat (dec_val (takeWhile isdigit p)), dropWhile isdigit p))"
    using parse_digits_eq [OF assms, of 0 p]
    by (cases p) (auto simp: parse_num_def dval_def dec_val_def)
  have t: "takeWhile isdigit (ds @ q) = ds" "dropWhile isdigit (ds @ q) = q"
    if "\<forall>c \<in> set ds. isdigit c" "\<not> isdigit (cur q)" for ds
    using that by (cases q; auto)+
  show ?thesis
  proof
    assume "parse_num p mx = Some (v, q)"
    then have *: "takeWhile isdigit p \<noteq> []" "dec_val (takeWhile isdigit p) \<le> unat mx"
        "v = of_nat (dec_val (takeWhile isdigit p))" "q = dropWhile isdigit p"
      by (auto simp: e split: if_splits)
    moreover have "\<not> isdigit (cur (dropWhile isdigit p))" by (induction p) auto
    ultimately show "\<exists>ds. p = ds @ q \<and> num (unat mx) ds \<and> \<not> isdigit (cur q) \<and> v = of_nat (dec_val ds)"
      by (intro exI [of _ "takeWhile isdigit p"]) (auto simp: num_def dest: set_takeWhileD)
  next
    assume "\<exists>ds. p = ds @ q \<and> num (unat mx) ds \<and> \<not> isdigit (cur q) \<and> v = of_nat (dec_val ds)"
    then show "parse_num p mx = Some (v, q)" using e t by (auto simp: num_def)
  qed
qed

abbreviation (input) value_of :: "string \<Rightarrow> u32" where
  "value_of ds \<equiv> of_nat (dec_val ds)"

definition dotted :: "string list \<Rightarrow> string" where
  "dotted dss = concat (map ((#) CHR ''.'') dss)"

lemma dot_digit [simp]: "\<not> isdigit CHR ''.''"
  by (simp add: isdigit_def)

lemma cur_dotted: "\<not> isdigit (cur q) \<Longrightarrow> \<not> isdigit (cur (dotted dss @ q))"
  by (cases dss) (auto simp: dotted_def)

lemma parse_octets_dots:
  "parse_octets k True p = Some (vs, q) \<longleftrightarrow>
    (\<exists>dss. length dss = k \<and> p = dotted dss @ q \<and> (\<forall>ds \<in> set dss. num 255 ds) \<and>
       (0 < k \<longrightarrow> \<not> isdigit (cur q)) \<and> vs = map value_of dss)"
proof (induction k arbitrary: p vs)
  case 0
  show ?case by (auto simp: dotted_def)
next
  case (Suc k)
  show ?case
  proof
    assume l: "parse_octets (Suc k) True p = Some (vs, q)"
    then obtain v r ws where *: "cur p = CHR ''.''" "parse_num (tl p) 255 = Some (v, r)"
        "parse_octets k True r = Some (ws, q)" "vs = v # ws"
      by (auto split: if_splits option.splits)
    obtain ds where ds: "tl p = ds @ r" "num 255 ds" "\<not> isdigit (cur r)" "v = value_of ds"
      using *(2) parse_num_iff [of 255 "tl p" v r] by auto
    obtain dss where dss: "length dss = k" "r = dotted dss @ q" "\<forall>ds \<in> set dss. num 255 ds"
        "0 < k \<longrightarrow> \<not> isdigit (cur q)" "ws = map value_of dss" using *(3) Suc by auto
    have "p = CHR ''.'' # tl p" using *(1) by (cases p) auto
    then have "p = dotted (ds # dss) @ q" using ds dss by (simp add: dotted_def)
    moreover have "\<not> isdigit (cur q)" using ds(3) dss by (cases k) (auto simp: dotted_def)
    ultimately show "\<exists>dss. length dss = Suc k \<and> p = dotted dss @ q \<and> (\<forall>ds \<in> set dss. num 255 ds) \<and>
       (0 < Suc k \<longrightarrow> \<not> isdigit (cur q)) \<and> vs = map value_of dss"
      using ds dss *(4) by (intro exI [of _ "ds # dss"]) simp
  next
    assume "\<exists>dss. length dss = Suc k \<and> p = dotted dss @ q \<and> (\<forall>ds \<in> set dss. num 255 ds) \<and>
       (0 < Suc k \<longrightarrow> \<not> isdigit (cur q)) \<and> vs = map value_of dss"
    then obtain ds dss where *: "length dss = k" "p = CHR ''.'' # ds @ dotted dss @ q" "num 255 ds"
        "\<forall>ds \<in> set dss. num 255 ds" "\<not> isdigit (cur q)" "vs = value_of ds # map value_of dss"
      by (auto simp: length_Suc_conv dotted_def)
    have "parse_num (tl p) 255 = Some (value_of ds, dotted dss @ q)"
      using * cur_dotted [OF *(5)] by (subst parse_num_iff) auto
    moreover have "parse_octets k True (dotted dss @ q) = Some (map value_of dss, q)"
      using * by (subst Suc) auto
    ultimately show "parse_octets (Suc k) True p = Some (vs, q)" using * by simp
  qed
qed

text \<open>Four octets: the first, and three with a dot before them.\<close>

definition octets :: "string list \<Rightarrow> bool" where
  "octets dss \<longleftrightarrow> length dss = 4 \<and> (\<forall>ds \<in> set dss. num 255 ds)"

definition ip_text :: "string list \<Rightarrow> string" where
  "ip_text dss = tl (dotted dss)"

lemma ip_text_Cons: "ip_text (ds # dss) = ds @ dotted dss"
  by (simp add: ip_text_def dotted_def)

lemma octets_split:
  "(\<exists>dss. octets dss \<and> P dss) \<longleftrightarrow>
   (\<exists>ds dss. length dss = 3 \<and> num 255 ds \<and> (\<forall>ds \<in> set dss. num 255 ds) \<and> P (ds # dss))"
  (is "?L \<longleftrightarrow> ?R")
proof
  assume ?L
  then obtain dss where "octets dss" "P dss" by blast
  then show ?R by (cases dss) (auto simp: octets_def)
next
  assume ?R
  then obtain ds dss where "length dss = 3" "num 255 ds" "\<forall>ds \<in> set dss. num 255 ds" "P (ds # dss)"
    by blast
  then show ?L by (intro exI [of _ "ds # dss"]) (simp add: octets_def)
qed

lemma parse_ip_unfold:
  "parse_ip p = (case parse_num p 255 of
     None \<Rightarrow> None
   | Some (v, q) \<Rightarrow> map_option (\<lambda>(vs, r). (ip_of (v # vs), r)) (parse_octets 3 True q))"
proof -
  have "(4 :: nat) = Suc 3" by simp
  then have "parse_octets 4 False p = (case parse_num p 255 of None \<Rightarrow> None
      | Some (v, q) \<Rightarrow> map_option (\<lambda>(vs, r). (v # vs, r)) (parse_octets 3 True q))"
    by (simp only: parse_octets.simps simp_thms if_False)
  then show ?thesis
    by (auto simp: parse_ip_def option.map_comp comp_def case_prod_unfold split: option.split)
qed

lemma parse_ip_iff:
  "parse_ip p = Some (a, q) \<longleftrightarrow>
    (\<exists>dss. octets dss \<and> p = ip_text dss @ q \<and> \<not> isdigit (cur q) \<and> a = ip_of (map value_of dss))"
proof -
  have "parse_ip p = Some (a, q) \<longleftrightarrow> (\<exists>v r vs. parse_num p 255 = Some (v, r) \<and>
      parse_octets 3 True r = Some (vs, q) \<and> a = ip_of (v # vs))"
    by (auto simp: parse_ip_unfold split: option.splits)
  also have "\<dots> \<longleftrightarrow> (\<exists>ds dss. length dss = 3 \<and> num 255 ds \<and> (\<forall>ds \<in> set dss. num 255 ds) \<and>
      p = ds @ dotted dss @ q \<and> \<not> isdigit (cur q) \<and> a = ip_of (value_of ds # map value_of dss))"
    unfolding parse_octets_dots using cur_dotted [of q] by (subst parse_num_iff) (simp, fastforce)
  also have "\<dots> \<longleftrightarrow> (\<exists>dss. octets dss \<and> p = ip_text dss @ q \<and> \<not> isdigit (cur q) \<and>
      a = ip_of (map value_of dss))"
    by (simp add: octets_split ip_text_Cons)
  finally show ?thesis .
qed

section \<open>The grammar of a rule line\<close>

definition addr_syntax :: "string \<Rightarrow> u32 \<Rightarrow> u32 \<Rightarrow> bool" where
  "addr_syntax t a m \<longleftrightarrow> (\<exists>dss. octets dss \<and> a = ip_of (map value_of dss) \<and>
     (t = ip_text dss \<and> m = mask_of 32 \<or>
      (\<exists>b. t = ip_text dss @ CHR ''/'' # b \<and> num 32 b \<and> m = mask_of (value_of b))))"

definition ports_syntax :: "string \<Rightarrow> u32 \<Rightarrow> u32 \<Rightarrow> bool" where
  "ports_syntax t lo hi \<longleftrightarrow> (\<exists>l. num 65535 l \<and> lo = value_of l \<and>
     (t = l \<and> hi = lo \<or>
      (\<exists>h. t = l @ CHR ''-'' # h \<and> num 65535 h \<and> hi = value_of h \<and> lo \<le> hi)))"

lemma num_chars: "num k ds \<Longrightarrow> c \<in> set ds \<Longrightarrow> \<not> tok_end c"
  by (auto simp: num_def isdigit_def tok_end_def isblank_def)

lemma tok_end_digit: "tok_end c \<Longrightarrow> \<not> isdigit c"
  by (auto simp: isdigit_def tok_end_def isblank_def)

lemma tok_end_dot [simp]: "\<not> tok_end CHR ''.''"
  by (simp add: tok_end_def isblank_def)

lemma dotted_chars: "\<forall>ds \<in> set dss. num k ds \<Longrightarrow> c \<in> set (dotted dss) \<Longrightarrow> \<not> tok_end c"
  by (induction dss) (auto simp: dotted_def dest: num_chars)

lemma ip_text_chars: "octets dss \<Longrightarrow> c \<in> set (ip_text dss) \<Longrightarrow> \<not> tok_end c"
  unfolding octets_def ip_text_def by (cases "dotted dss") (auto dest: dotted_chars)

lemma num_cur: "num k ds \<Longrightarrow> isdigit (cur (ds @ q))"
  by (cases ds) (auto simp: num_def)

lemma ip_text_cur: "octets dss \<Longrightarrow> isdigit (cur (ip_text dss @ q))"
  by (cases dss) (auto simp: octets_def ip_text_Cons num_cur)

lemma addr_chars: "addr_syntax t a m \<Longrightarrow> c \<in> set t \<Longrightarrow> \<not> tok_end c"
  by (auto simp: addr_syntax_def tok_end_def isblank_def
      dest: ip_text_chars [unfolded tok_end_def isblank_def] num_chars [unfolded tok_end_def isblank_def])

lemma addr_cur: "addr_syntax t a m \<Longrightarrow> isdigit (cur (t @ q))"
  by (auto simp: addr_syntax_def ip_text_cur)

lemma ports_chars: "ports_syntax t lo hi \<Longrightarrow> c \<in> set t \<Longrightarrow> \<not> tok_end c"
  by (auto simp: ports_syntax_def tok_end_def isblank_def dest: num_chars [unfolded tok_end_def isblank_def])

lemma ports_cur: "ports_syntax t lo hi \<Longrightarrow> isdigit (cur (t @ q))"
  by (auto simp: ports_syntax_def num_cur)

lemma slash [simp]: "\<not> isdigit CHR ''/''" "\<not> isdigit CHR ''-''" "\<not> tok_end CHR ''/''"
  "\<not> tok_end CHR ''-''"
  by (simp_all add: isdigit_def tok_end_def isblank_def)

lemma cur_tl: "cur q = c \<Longrightarrow> c \<noteq> CHR 0x00 \<Longrightarrow> q = c # tl q"
  by (cases q) auto

lemma rule_addr_iff:
  assumes "isdigit (cur p)"
  shows "rule_addr p = Some (a, m, r) \<longleftrightarrow> (\<exists>t. p = t @ r \<and> addr_syntax t a m \<and> tok_end (cur r))"
proof
  assume "rule_addr p = Some (a, m, r)"
  then obtain q bits where *: "parse_ip p = Some (a, q)" "m = mask_of bits" "tok_end (cur r)"
      "(if cur q = CHR ''/'' then parse_num (tl q) 32 else Some (32, q)) = Some (bits, r)"
    using assms by (auto simp: rule_addr_def at_token_end_cur split: option.splits if_splits)
  obtain dss where dss: "octets dss" "p = ip_text dss @ q" "a = ip_of (map value_of dss)"
    using *(1) by (auto simp: parse_ip_iff)
  show "\<exists>t. p = t @ r \<and> addr_syntax t a m \<and> tok_end (cur r)"
  proof (cases "cur q = CHR ''/''")
    case True
    then obtain b where "tl q = b @ r" "num 32 b" "bits = value_of b"
      using *(4) parse_num_iff [of 32 "tl q" bits r] by auto
    then show ?thesis using cur_tl [OF True] dss * unfolding addr_syntax_def
      by (intro exI [of _ "ip_text dss @ CHR ''/'' # b"]) auto
  next
    case False
    then show ?thesis using dss * unfolding addr_syntax_def
      by (intro exI [of _ "ip_text dss"]) auto
  qed
next
  assume "\<exists>t. p = t @ r \<and> addr_syntax t a m \<and> tok_end (cur r)"
  then obtain t dss where t: "p = t @ r" "octets dss" "a = ip_of (map value_of dss)" "tok_end (cur r)"
      "t = ip_text dss \<and> m = mask_of 32 \<or>
       (\<exists>b. t = ip_text dss @ CHR ''/'' # b \<and> num 32 b \<and> m = mask_of (value_of b))"
    by (auto simp: addr_syntax_def)
  note nd = tok_end_digit [OF t(4)]
  from t(5) show "rule_addr p = Some (a, m, r)"
  proof
    assume *: "t = ip_text dss \<and> m = mask_of 32"
    then have "parse_ip p = Some (a, r)" using t nd by (auto simp: parse_ip_iff)
    moreover have "cur r \<noteq> CHR ''/''" using t(4) slash(3) by metis
    ultimately show ?thesis using assms t(4) * by (simp add: rule_addr_def at_token_end_cur)
  next
    assume "\<exists>b. t = ip_text dss @ CHR ''/'' # b \<and> num 32 b \<and> m = mask_of (value_of b)"
    then obtain b where b: "t = ip_text dss @ CHR ''/'' # b" "num 32 b" "m = mask_of (value_of b)" by blast
    have "parse_ip p = Some (a, CHR ''/'' # b @ r)"
      using t b by (subst parse_ip_iff) auto
    moreover have "parse_num (b @ r) 32 = Some (value_of b, r)"
      using b nd by (subst parse_num_iff) auto
    ultimately show ?thesis using assms t(4) b by (simp add: rule_addr_def at_token_end_cur)
  qed
qed

lemma rule_ports_iff:
  assumes "isdigit (cur p)" "tok_end (cur r)"
  shows "rule_ports p = Some (anyp, lo, hi, r) \<longleftrightarrow> \<not> anyp \<and> (\<exists>t. p = t @ r \<and> ports_syntax t lo hi)"
proof
  assume l: "rule_ports p = Some (anyp, lo, hi, r)"
  then obtain q where q: "parse_num p 65535 = Some (lo, q)" "\<not> anyp"
      "if cur q = CHR ''-'' then parse_num (tl q) 65535 = Some (hi, r) \<and> lo \<le> hi else hi = lo \<and> r = q"
    using assms by (auto simp: rule_ports_def split: option.splits if_splits)
  obtain l where l: "p = l @ q" "num 65535 l" "lo = value_of l"
    using q(1) parse_num_iff [of 65535 p lo q] by auto
  show "\<not> anyp \<and> (\<exists>t. p = t @ r \<and> ports_syntax t lo hi)"
  proof (cases "cur q = CHR ''-''")
    case True
    then obtain h where "tl q = h @ r" "num 65535 h" "hi = value_of h" "lo \<le> hi"
      using q(3) parse_num_iff [of 65535 "tl q" hi r] by auto
    then show ?thesis using cur_tl [OF True] l q(2) unfolding ports_syntax_def
      by (intro conjI exI [of _ "l @ CHR ''-'' # h"] exI [of _ l]) auto
  next
    case False
    then show ?thesis using l q unfolding ports_syntax_def
      by (intro conjI exI [of _ l] exI [of _ l]) auto
  qed
next
  assume "\<not> anyp \<and> (\<exists>t. p = t @ r \<and> ports_syntax t lo hi)"
  then obtain t l where t: "\<not> anyp" "p = t @ r" "num 65535 l" "lo = value_of l"
      "t = l \<and> hi = lo \<or> (\<exists>h. t = l @ CHR ''-'' # h \<and> num 65535 h \<and> hi = value_of h \<and> lo \<le> hi)"
    by (auto simp: ports_syntax_def)
  note nd = tok_end_digit [OF assms(2)]
  from t(5) show "rule_ports p = Some (anyp, lo, hi, r)"
  proof
    assume *: "t = l \<and> hi = lo"
    then have "parse_num p 65535 = Some (lo, r)" using t nd by (subst parse_num_iff) auto
    moreover have "cur r \<noteq> CHR ''-''" using assms(2) slash(4) by metis
    ultimately show ?thesis using assms * t by (simp add: rule_ports_def)
  next
    assume "\<exists>h. t = l @ CHR ''-'' # h \<and> num 65535 h \<and> hi = value_of h \<and> lo \<le> hi"
    then obtain h where h: "t = l @ CHR ''-'' # h" "num 65535 h" "hi = value_of h" "lo \<le> hi" by blast
    have "parse_num p 65535 = Some (lo, CHR ''-'' # h @ r)"
      using t h by (subst parse_num_iff) auto
    moreover have "parse_num (h @ r) 65535 = Some (hi, r)" using h nd by (subst parse_num_iff) auto
    ultimately show ?thesis using assms h t by (simp add: rule_ports_def)
  qed
qed

definition tail_syntax :: "string list \<Rightarrow> u32 \<Rightarrow> u32 \<Rightarrow> bool \<Rightarrow> u32 \<Rightarrow> u32 \<Rightarrow> bool" where
  "tail_syntax ts a m anyp lo hi \<longleftrightarrow>
     ts = [] \<and> a = 0 \<and> m = 0 \<and> anyp \<and> lo = 0 \<and> hi = 0 \<or>
     (\<exists>t. ts = [t] \<and> addr_syntax t a m \<and> anyp \<and> lo = 0 \<and> hi = 0) \<or>
     (\<exists>t u. ts = [t, u] \<and> addr_syntax t a m \<and> ports_syntax u lo hi \<and> \<not> anyp)"

definition opt_word :: "(string \<times> int) list \<Rightarrow> int \<Rightarrow> string list \<Rightarrow> int \<Rightarrow> bool" where
  "opt_word ws d ts v \<longleftrightarrow> ts = [] \<and> v = d \<or> (\<exists>w. ts = [w] \<and> (w, v) \<in> set ws)"

text \<open>\<open>allow|drop [in|out|any] [tcp|udp|icmp|any] [a.b.c.d[/bits] [lo[-hi]]]\<close>.\<close>

definition rule_syntax :: "string list \<Rightarrow> rule_fields \<Rightarrow> bool" where
  "rule_syntax ts x = (case x of (act, d, pr, a, m, anyp, lo, hi) \<Rightarrow>
     \<exists>w dw pw aw. ts = w # dw @ pw @ aw \<and> (w, act) \<in> set act_words \<and>
       opt_word dir_words FW_ANYDIR dw d \<and> opt_word proto_words FW_ANYPROTO pw pr \<and>
       tail_syntax aw a m anyp lo hi)"

lemma skip_ws_idem [simp]: "skip_ws (skip_ws p) = skip_ws p"
  by (simp add: skip_ws_def)

lemma tokens_skip [simp]: "tokens (skip_ws p) = tokens p"
  by (subst (1 2) tokens.simps) simp

lemma tok_split:
  "takeWhile (\<lambda>c. \<not> tok_end c) p = t \<and> dropWhile (\<lambda>c. \<not> tok_end c) p = r \<longleftrightarrow>
    p = t @ r \<and> (\<forall>c \<in> set t. \<not> tok_end c) \<and> tok_end (cur r)" (is "?L \<longleftrightarrow> ?R")
proof
  assume l: ?L
  have "tok_end (cur (dropWhile (\<lambda>c. \<not> tok_end c) p))" by (induction p) auto
  then show ?R using l by (auto dest: set_takeWhileD)
next
  assume r: ?R
  then show ?L by (cases r) auto
qed

lemma skip_ws_digit: "isdigit (cur p) \<Longrightarrow> skip_ws p = p"
  by (cases p) (auto simp: skip_ws_def isblank_def isdigit_def)

lemma tokens_digit:
  assumes "p = t @ r" "isdigit (cur p)" "\<forall>c \<in> set t. \<not> tok_end c" "tok_end (cur r)"
  shows "tokens p = t # tokens r"
proof -
  have "t \<noteq> []" using assms(1,2,4) by (auto dest: tok_end_digit)
  then show ?thesis using tok_split [of p t r] assms skip_ws_digit [OF assms(2)]
    by (subst tokens.simps) simp
qed

lemma tokens_Nil: "tokens p = [] \<longleftrightarrow> cur (skip_ws p) = CHR 0x00 \<or> cur (skip_ws p) = CHR 0x0A"
proof -
  have "tokens p = [] \<longleftrightarrow> tok_end (cur (skip_ws p))"
    by (subst tokens.simps) (cases "skip_ws p"; auto)
  moreover have "\<not> isblank (cur (skip_ws p))"
    unfolding skip_ws_def by (induction p) (auto simp: isblank_def)
  ultimately show ?thesis by (auto simp: tok_end_def)
qed

lemma tokens_Nil_end: "tokens p = [] \<Longrightarrow> tok_end (cur p)"
  by (cases p) (auto simp: tokens_Nil skip_ws_def tok_end_def split: if_splits)

lemma tokens_Cons: "tokens p = t # ts \<longleftrightarrow>
    (\<exists>r. skip_ws p = t @ r \<and> t \<noteq> [] \<and> (\<forall>c \<in> set t. \<not> tok_end c) \<and> tok_end (cur r) \<and> ts = tokens r)"
proof -
  have "tokens p = t # ts \<longleftrightarrow> tok p = t \<and> t \<noteq> [] \<and> ts = tokens (rest p)"
    by (subst tokens.simps) auto
  also have "\<dots> \<longleftrightarrow> (\<exists>r. (tok p = t \<and> rest p = r) \<and> t \<noteq> [] \<and> ts = tokens r)" by blast
  finally show ?thesis unfolding tok_split by blast
qed

lemma addr_word: "addr_syntax t a m \<Longrightarrow> t \<noteq> [] \<and> (\<forall>c \<in> set t. \<not> tok_end c)"
  using addr_cur [of t a m "[]"] by (auto dest: addr_chars)

lemma ports_word: "ports_syntax t lo hi \<Longrightarrow> t \<noteq> [] \<and> (\<forall>c \<in> set t. \<not> tok_end c)"
  using ports_cur [of t lo hi "[]"] by (auto dest: ports_chars)

lemma token_take:
  assumes "\<And>t. S t \<Longrightarrow> t \<noteq> [] \<and> (\<forall>c \<in> set t. \<not> tok_end c)"
  shows "(\<exists>t r. skip_ws p = t @ r \<and> S t \<and> tok_end (cur r) \<and> Q (tokens r)) \<longleftrightarrow>
    (\<exists>t ts. tokens p = t # ts \<and> S t \<and> Q ts)"
  unfolding tokens_Cons using assms by blast

definition tail_parse :: "string \<Rightarrow> (u32 \<times> u32 \<times> bool \<times> u32 \<times> u32) option" where
  "tail_parse p =
     (case rule_addr (skip_ws p) of
        None \<Rightarrow> None
      | Some (a, m, p4) \<Rightarrow>
          (case rule_ports (skip_ws p4) of
             None \<Rightarrow> None
           | Some (anyp, lo, hi, p5) \<Rightarrow>
               if tokens p5 \<noteq> [] then None else Some (a, m, anyp, lo, hi)))"

lemma tail_ports:
  "(\<exists>r. rule_ports (skip_ws p) = Some (anyp, lo, hi, r) \<and> tokens r = []) \<longleftrightarrow>
    tokens p = [] \<and> anyp \<and> lo = 0 \<and> hi = 0 \<or>
    (\<exists>u. tokens p = [u] \<and> ports_syntax u lo hi \<and> \<not> anyp)"
proof (cases "isdigit (cur (skip_ws p))")
  case True
  have ne: "tokens p \<noteq> []" using True by (auto simp: tokens_Nil isdigit_def)
  have "(\<exists>r. rule_ports (skip_ws p) = Some (anyp, lo, hi, r) \<and> tokens r = []) \<longleftrightarrow>
      \<not> anyp \<and> (\<exists>u r. skip_ws p = u @ r \<and> ports_syntax u lo hi \<and> tok_end (cur r) \<and> tokens r = [])"
    using rule_ports_iff [OF True, of _ anyp lo hi] tokens_Nil_end by blast
  also have "\<dots> \<longleftrightarrow> (\<exists>u. tokens p = [u] \<and> ports_syntax u lo hi \<and> \<not> anyp)"
    using token_take [of "\<lambda>u. ports_syntax u lo hi" p "\<lambda>ts. ts = []", OF ports_word [of _ lo hi]] by auto
  finally show ?thesis using ne by simp
next
  case False
  then have "rule_ports (skip_ws p) = Some (True, 0, 0, skip_ws p)" by (simp add: rule_ports_def)
  moreover have "\<not> ports_syntax u lo hi" if "tokens p = [u]" for u
    using that False ports_cur [of u lo hi] by (auto simp: tokens_Cons)
  ultimately show ?thesis by auto
qed

lemma tail_parse_iff:
  "tail_parse p = Some (a, m, anyp, lo, hi) \<longleftrightarrow> tail_syntax (tokens p) a m anyp lo hi"
proof -
  have l: "tail_parse p = Some (a, m, anyp, lo, hi) \<longleftrightarrow> (\<exists>q. rule_addr (skip_ws p) = Some (a, m, q) \<and>
      (\<exists>r. rule_ports (skip_ws q) = Some (anyp, lo, hi, r) \<and> tokens r = []))"
    by (auto simp: tail_parse_def split: option.splits if_splits)
  show ?thesis
  proof (cases "isdigit (cur (skip_ws p))")
    case True
    have ne: "tokens p \<noteq> []" using True by (auto simp: tokens_Nil isdigit_def)
    have e: "(\<exists>q. rule_addr (skip_ws p) = Some (a, m, q) \<and> P (tokens q)) \<longleftrightarrow>
        (\<exists>t ts. tokens p = t # ts \<and> addr_syntax t a m \<and> P ts)" for P
      using token_take [of "\<lambda>t. addr_syntax t a m" p P, OF addr_word [of _ a m]]
      unfolding rule_addr_iff [OF True] by blast
    show ?thesis unfolding l tail_ports tail_syntax_def
      using e [of "\<lambda>ts. ts = [] \<and> anyp \<and> lo = 0 \<and> hi = 0 \<or>
          (\<exists>u. ts = [u] \<and> ports_syntax u lo hi \<and> \<not> anyp)"] ne by auto
  next
    case False
    then have "rule_addr (skip_ws p) = Some (0, 0, skip_ws p)" by (simp add: rule_addr_def)
    moreover have "\<not> addr_syntax t a m" if "tokens p = t # ts" for t ts
      using that False addr_cur [of t a m] by (auto simp: tokens_Cons)
    moreover have "rule_ports (skip_ws p) = Some (True, 0, 0, skip_ws p)"
      using False by (simp add: rule_ports_def)
    ultimately show ?thesis unfolding l tail_syntax_def by auto
  qed
qed

lemma word_choice_tok:
  "\<forall>(w, v) \<in> set ws. word w \<Longrightarrow>
    word_choice ws d p = (case map_of ws (tok p) of Some v \<Rightarrow> (v, rest p) | None \<Rightarrow> (d, p))"
  by (induction ws d p rule: word_choice.induct) (auto simp: word_is_tok)

lemma words:
  "\<forall>(w, v) \<in> set act_words. word w" "\<forall>(w, v) \<in> set dir_words. word w"
  "\<forall>(w, v) \<in> set proto_words. word w"
  by (simp_all add: word_def tok_end_def isblank_def)

lemma word_choice_tokens:
  assumes "\<forall>(w, v) \<in> set ws. word w" "word_choice ws d p = (v, q)"
  shows "case tokens p of
      [] \<Rightarrow> v = d \<and> q = p
    | t # ts \<Rightarrow> (case map_of ws t of Some x \<Rightarrow> v = x \<and> tokens q = ts | None \<Rightarrow> v = d \<and> q = p)"
proof -
  have "map_of ws [] = None" using assms(1) by (auto simp: map_of_eq_None_iff word_def)
  then show ?thesis using assms(2) word_choice_tok [OF assms(1), of d p]
    by (subst tokens.simps) (auto split: option.splits)
qed

lemma rule_parse_tail:
  "rule_parse p =
    (let (act, p1) = word_choice act_words (- 1) p;
         (d, p2) = word_choice dir_words FW_ANYDIR p1;
         (pr, p3) = word_choice proto_words FW_ANYPROTO p2
     in if act < 0 then None
        else map_option (\<lambda>(a, m, anyp, lo, hi). (act, d, pr, a, m, anyp, lo, hi)) (tail_parse p3))"
proof -
  obtain act p1 where 1: "word_choice act_words (- 1) p = (act, p1)" by fastforce
  obtain d p2 where 2: "word_choice dir_words FW_ANYDIR p1 = (d, p2)" by fastforce
  obtain pr p3 where 3: "word_choice proto_words FW_ANYPROTO p2 = (pr, p3)" by fastforce
  show ?thesis
    unfolding rule_parse_def tail_parse_def tokens_Nil 1 Let_def prod.case 2 3
    by (auto split: option.split)
qed

text \<open>A token that starts a word list is not an address.\<close>

lemma tail_first: "tail_syntax (t # ts) a m anyp lo hi \<Longrightarrow> isdigit (cur t)"
  using addr_cur [of t a m "[]"] by (auto simp: tail_syntax_def)

lemma word_choice_sound:
  assumes "\<forall>(w, v) \<in> set ws. word w" "word_choice ws d p = (v, q)"
  shows "\<exists>dw. tokens p = dw @ tokens q \<and> opt_word ws d dw v"
proof (cases "tokens p")
  case Nil
  then show ?thesis using word_choice_tokens [OF assms] by (auto simp: opt_word_def)
next
  case (Cons t ts)
  show ?thesis
  proof (cases "map_of ws t")
    case None
    then show ?thesis using word_choice_tokens [OF assms] Cons by (auto simp: opt_word_def)
  next
    case (Some x)
    then have "(t, x) \<in> set ws" by (rule map_of_SomeD)
    then show ?thesis using word_choice_tokens [OF assms] Cons Some
      by (intro exI [of _ "[t]"]) (simp add: opt_word_def)
  qed
qed

lemma word_choice_complete:
  assumes w: "\<forall>(w, v) \<in> set ws. word w" "distinct (map fst ws)"
    and t: "tokens p = dw @ ts" "opt_word ws d dw v"
    and n: "dw = [] \<Longrightarrow> ts = [] \<or> map_of ws (hd ts) = None"
  shows "\<exists>q. word_choice ws d p = (v, q) \<and> tokens q = ts"
proof -
  obtain v' q where c: "word_choice ws d p = (v', q)" by fastforce
  note r = word_choice_tokens [OF w(1) c]
  show ?thesis
  proof (cases dw)
    case Nil
    then have v: "v = d" using t(2) by (simp add: opt_word_def)
    have "v' = d \<and> q = p" using r t(1) n [OF Nil] Nil by (cases ts) auto
    then show ?thesis using c t(1) Nil v by simp
  next
    case (Cons u us)
    then have u: "us = []" "(u, v) \<in> set ws" using t(2) by (auto simp: opt_word_def)
    then have "map_of ws u = Some v" using w(2) by simp
    then show ?thesis using r c t(1) Cons u(1) by simp
  qed
qed

lemma rule_parse_sound: "rule_parse p = Some x \<Longrightarrow> rule_syntax (tokens p) x"
proof -
  assume l: "rule_parse p = Some x"
  obtain act p1 where 1: "word_choice act_words (- 1) p = (act, p1)" by fastforce
  obtain d p2 where 2: "word_choice dir_words FW_ANYDIR p1 = (d, p2)" by fastforce
  obtain pr p3 where 3: "word_choice proto_words FW_ANYPROTO p2 = (pr, p3)" by fastforce
  have "(if act < 0 then None else map_option (\<lambda>(a, m, anyp, lo, hi). (act, d, pr, a, m, anyp, lo, hi))
      (tail_parse p3)) = Some x"
    using l unfolding rule_parse_tail 1 Let_def prod.case 2 3 .
  then obtain a m anyp lo hi where t: "0 \<le> act" "tail_parse p3 = Some (a, m, anyp, lo, hi)"
      and x: "x = (act, d, pr, a, m, anyp, lo, hi)"
    by (auto split: if_splits)
  obtain w where "tokens p = w # tokens p1" "(w, act) \<in> set act_words"
    using word_choice_sound [OF words(1) 1] t(1) unfolding opt_word_def by force
  moreover obtain dw where "tokens p1 = dw @ tokens p2" "opt_word dir_words FW_ANYDIR dw d"
    using word_choice_sound [OF words(2) 2] by blast
  moreover obtain pw where "tokens p2 = pw @ tokens p3" "opt_word proto_words FW_ANYPROTO pw pr"
    using word_choice_sound [OF words(3) 3] by blast
  moreover have "tail_syntax (tokens p3) a m anyp lo hi" using t(2) by (simp add: tail_parse_iff)
  ultimately show ?thesis unfolding rule_syntax_def x prod.case
    by (intro exI [of _ w] exI [of _ dw] exI [of _ pw] exI [of _ "tokens p3"]) simp
qed

text \<open>The word \<open>any\<close> is taken for the direction; as a protocol it means the same.\<close>

lemma rule_syntax_any:
  assumes "rule_syntax ts (act, d, pr, a, m, anyp, lo, hi)"
  obtains w dw pw aw where "ts = w # dw @ pw @ aw" "(w, act) \<in> set act_words"
    "opt_word dir_words FW_ANYDIR dw d" "opt_word proto_words FW_ANYPROTO pw pr"
    "tail_syntax aw a m anyp lo hi" "dw = [] \<Longrightarrow> pw \<noteq> [''any'']"
proof -
  obtain w dw pw aw where *: "ts = w # dw @ pw @ aw" "(w, act) \<in> set act_words"
      "opt_word dir_words FW_ANYDIR dw d" "opt_word proto_words FW_ANYPROTO pw pr"
      "tail_syntax aw a m anyp lo hi" using assms unfolding rule_syntax_def prod.case by blast
  show thesis
  proof (cases "dw = [] \<and> pw = [''any'']")
    case True
    then have "d = FW_ANYDIR" "pr = FW_ANYPROTO" using *(3,4) by (simp_all add: opt_word_def)
    then show thesis using True * that [of w "[''any'']" "[]" aw] by (simp add: opt_word_def)
  next
    case False
    then show thesis using * that [of w dw pw aw] by blast
  qed
qed

lemma digit_no_word: "isdigit (cur t) \<Longrightarrow> map_of dir_words t = None \<and> map_of proto_words t = None"
proof -
  assume t: "isdigit (cur t)"
  have "\<forall>w \<in> fst ` set dir_words. \<not> isdigit (cur w)" "\<forall>w \<in> fst ` set proto_words. \<not> isdigit (cur w)"
    by (simp_all add: isdigit_def)
  then show ?thesis using t unfolding map_of_eq_None_iff by blast
qed

lemma rule_parse_complete:
  assumes "rule_syntax (tokens p) (act, d, pr, a, m, anyp, lo, hi)"
  shows "rule_parse p = Some (act, d, pr, a, m, anyp, lo, hi)"
proof -
  obtain w dw pw aw where *: "tokens p = w # dw @ pw @ aw" "(w, act) \<in> set act_words"
      "opt_word dir_words FW_ANYDIR dw d" "opt_word proto_words FW_ANYPROTO pw pr"
      "tail_syntax aw a m anyp lo hi" "dw = [] \<Longrightarrow> pw \<noteq> [''any'']"
    using rule_syntax_any [OF assms] by blast
  have dis: "distinct (map fst act_words)" "distinct (map fst dir_words)" "distinct (map fst proto_words)"
    by simp_all
  have aw: "aw = [] \<or> map_of dir_words (hd aw) = None \<and> map_of proto_words (hd aw) = None"
  proof (cases aw)
    case (Cons t ts)
    have "isdigit (cur t)" using tail_first *(5) unfolding Cons .
    from digit_no_word [OF this] show ?thesis by (simp only: Cons list.sel simp_thms)
  qed simp
  have "act \<ge> 0" using *(2) by auto
  obtain p1 where 1: "word_choice act_words (- 1) p = (act, p1)" "tokens p1 = dw @ pw @ aw"
    using word_choice_complete [OF words(1) dis(1), of p "[w]" "dw @ pw @ aw" "- 1" act] *(1,2)
    unfolding opt_word_def by fastforce
  have "dw @ pw @ aw = dw @ (pw @ aw)" by simp
  moreover have "pw @ aw = [] \<or> map_of dir_words (hd (pw @ aw)) = None" if "dw = []"
  proof (cases pw)
    case Nil
    then show ?thesis using aw by (metis append_Nil)
  next
    case (Cons u us)
    then have "us = []" "u \<noteq> ''any''" "(u, pr) \<in> set proto_words"
      using *(4,6) that by (auto simp: opt_word_def)
    then have "map_of dir_words u = None" by auto
    then show ?thesis unfolding Cons by simp
  qed
  ultimately obtain p2 where 2: "word_choice dir_words FW_ANYDIR p1 = (d, p2)" "tokens p2 = pw @ aw"
    using word_choice_complete [OF words(2) dis(2) 1(2) *(3)] by blast
  obtain p3 where 3: "word_choice proto_words FW_ANYPROTO p2 = (pr, p3)" "tokens p3 = aw"
    using word_choice_complete [OF words(3) dis(3) 2(2) *(4)] conjunct2 aw by metis
  have "tail_parse p3 = Some (a, m, anyp, lo, hi)" using *(5) 3(2) by (simp add: tail_parse_iff)
  then show ?thesis unfolding rule_parse_tail 1(1) Let_def prod.case 2(1) 3(1)
    using \<open>act \<ge> 0\<close> by simp
qed

section \<open>Well-formed tables\<close>

definition rule_wf :: "fw_rule \<Rightarrow> bool" where
  "rule_wf r \<longleftrightarrow> action r \<in> {0, 1} \<and> dir r \<in> {1, 2, 3} \<and> proto r \<in> {0, 1, 6, 17} \<and>
     (\<exists>n \<le> 32. mask r = mask_of n) \<and> port_lo r \<le> port_hi r"

definition fw_wf :: "fw \<Rightarrow> bool" where
  "fw_wf F \<longleftrightarrow> length (rules F) = FW_MAX_RULES \<and> policy_in F \<in> {0, 1} \<and> policy_out F \<in> {0, 1} \<and>
     (\<forall>r \<in> set (rules F). in_use r \<noteq> 0 \<longrightarrow> rule_wf r)"

lemma fw_wf_upd:
  assumes "fw_wf F" "rule_wf r"
  shows "fw_wf (F\<lparr>rules := (rules F)[i := r]\<rparr>)"
  using assms set_update_subset_insert [of "rules F" i r] by (auto simp: fw_wf_def)

lemma decide_scan_nth:
  assumes "decide_scan rs 0 d pr a port v6 = Some i"
  shows "i < length rs \<and> rule_matches (rs ! i) d pr a port v6"
  using assms by (auto simp: decide_scan_Some)

lemma matches_in_use: "rule_matches r d pr a port v6 \<Longrightarrow> in_use r \<noteq> 0"
  by (auto simp: rule_matches_def split: if_splits)

lemma fw_decide_wf:
  assumes "fw_wf F" "fw_decide_af d pr a port v6 F = (r, F')"
  shows "fw_wf F' \<and> r \<in> {FW_ALLOW, FW_DROP}"
proof (cases "fw_enabled F")
  case True
  show ?thesis
  proof (cases "decide_scan (rules F) 0 d pr a port v6")
    case None
    then show ?thesis using True assms by (auto simp: fw_decide_af_def fw_wf_def split: if_splits)
  next
    case (Some i)
    from decide_scan_nth [OF this] have w: "rule_wf (rules F ! i)"
      using assms(1) matches_in_use by (auto simp: fw_wf_def)
    then have "rule_wf ((rules F ! i)\<lparr>hits := hits (rules F ! i) + 1\<rparr>)"
      by (simp add: rule_wf_def)
    from fw_wf_upd [OF assms(1) this, of i] show ?thesis using True Some assms(2) w
      by (auto simp: fw_decide_af_def rule_wf_def)
  qed
qed (use assms in \<open>auto simp: fw_decide_af_def\<close>)

lemma value_le: "num k ds \<Longrightarrow> k < 2 ^ 32 \<Longrightarrow> value_of ds \<le> of_nat k"
  by (simp add: num_def word_le_nat_alt unat_of_nat)

lemma addr_mask: "addr_syntax t a m \<Longrightarrow> \<exists>n \<le> 32. m = mask_of n"
  using value_le [of 32] by (force simp: addr_syntax_def)

lemma ports_range: "ports_syntax t lo hi \<Longrightarrow> lo \<le> hi \<and> hi \<le> 65535"
  using value_le [of 65535] by (auto simp: ports_syntax_def)

lemma tail_fields:
  assumes "tail_syntax ts a m anyp lo hi"
  shows "(\<exists>n \<le> 32. m = mask_of n) \<and> lo \<le> hi \<and> hi \<le> 65535"
proof -
  have "mask_of 0 = 0" by (simp add: mask_of_def)
  moreover have "(0 :: u32) \<le> 32" by simp
  ultimately have "\<exists>n \<le> 32. 0 = mask_of n" by metis
  then show ?thesis using assms addr_mask ports_range unfolding tail_syntax_def
    by (metis order.refl word_zero_le)
qed

lemma ucast16_mono: "(lo :: u32) \<le> hi \<Longrightarrow> hi \<le> 65535 \<Longrightarrow> (ucast lo :: u16) \<le> ucast hi"
  by (simp add: word_le_nat_alt unsigned_ucast_eq take_bit_nat_eq_self)

lemma opt_word_value: "opt_word ws d ts v \<Longrightarrow> v = d \<or> v \<in> snd ` set ws"
  by (force simp: opt_word_def)

lemma rule_fields_ok:
  assumes "rule_syntax ts (act, d, pr, a, m, anyp, lo, hi)"
  shows "act \<in> {0, 1} \<and> d \<in> {1, 2, 3} \<and> pr \<in> {0, 1, 6, 17} \<and> (\<exists>n \<le> 32. m = mask_of n) \<and>
    lo \<le> hi \<and> hi \<le> 65535"
proof -
  obtain w dw pw aw where *: "(w, act) \<in> set act_words" "opt_word dir_words FW_ANYDIR dw d"
      "opt_word proto_words FW_ANYPROTO pw pr" "tail_syntax aw a m anyp lo hi"
    using assms unfolding rule_syntax_def prod.case by blast
  have "act \<in> {0, 1}" using *(1) by auto
  moreover have "d \<in> {1, 2, 3}" using opt_word_value [OF *(2)] by auto
  moreover have "pr \<in> {0, 1, 6, 17}" using opt_word_value [OF *(3)] by auto
  ultimately show ?thesis using tail_fields [OF *(4)] by blast
qed

lemma add_rule_wf:
  assumes "fw_wf F" "add_rule act d pr a m anyp lo hi F = (r, F')"
    and "act \<in> {0, 1}" "d \<in> {1, 2, 3}" "pr \<in> {0, 1, 6, 17}" "\<exists>n \<le> 32. m = mask_of n" "lo \<le> hi"
  shows "fw_wf F'"
  using assms by (auto simp: add_rule_def rule_wf_def intro!: fw_wf_upd split: option.splits)

lemma rule_line_wf:
  assumes "fw_wf F" "rule_line p F = (r, F')"
  shows "fw_wf F'"
proof (cases "rule_parse p")
  case None
  then show ?thesis using assms by (simp add: rule_line_def)
next
  case (Some x)
  obtain act d pr a m anyp lo hi where x: "x = (act, d, pr, a, m, anyp, lo, hi)" by (cases x) auto
  note f = rule_fields_ok [OF rule_parse_sound [OF Some, unfolded x]]
  show ?thesis
    using add_rule_wf [OF assms(1), of act d pr a m anyp "ucast lo" "ucast hi" r F'] f ucast16_mono
      assms(2) Some x by (simp add: rule_line_def)
qed

lemma policy_line_wf:
  assumes "fw_wf F" "policy_line p F = (r, F')"
  shows "fw_wf F'"
proof -
  obtain d p1 where 1: "word_choice [(''in'', FW_IN), (''out'', FW_OUT)] (- 1) p = (d, p1)" by fastforce
  obtain act p2 where 2: "word_choice [(''drop'', FW_DROP), (''allow'', FW_ALLOW)] (- 1) p1 = (act, p2)"
    by fastforce
  have "\<forall>(w, v) \<in> set [(''drop'', FW_DROP), (''allow'', FW_ALLOW)]. word w"
    by (simp add: word_def tok_end_def isblank_def)
  from opt_word_value word_choice_sound [OF this 2] have "act \<in> {- 1, 0, 1}" by fastforce
  then show ?thesis using assms unfolding policy_line_def 1 Let_def prod.case 2
    by (auto simp: fw_wf_def split: if_splits)
qed

lemma ctl_line_cases:
  assumes "firewall_ctl_line p F = (r, F')"
  obtains "F' = F" | b where "r = 0" "F' = F\<lparr>fw_enabled := b\<rparr>"
    | "r = 0" "F' = F\<lparr>rules := replicate FW_MAX_RULES zero_rule\<rparr>"
    | q where "policy_line q F = (r, F')" | q where "rule_line q F = (r, F')"
  using assms [unfolded firewall_ctl_line_def Let_def]
  by (elim if_cases option_cases Pair_inject) (assumption | blast | (erule that; fail) | (rule that; simp))+

lemma ctl_line_wf:
  assumes "fw_wf F" "firewall_ctl_line p F = (r, F')"
  shows "fw_wf F'"
  using assms(2)
proof (cases rule: ctl_line_cases)
  case 1
  then show ?thesis using assms(1) by simp
next
  case (2 b)
  then show ?thesis using assms(1) by (simp add: fw_wf_def)
next
  case 3
  then show ?thesis using assms(1) by (simp add: fw_wf_def zero_rule_def)
next
  case (4 q)
  then show ?thesis by (rule policy_line_wf [OF assms(1)])
next
  case (5 q)
  then show ?thesis by (rule rule_line_wf [OF assms(1)])
qed

section \<open>The text of the dump\<close>

definition dec :: "u64 \<Rightarrow> string" where
  "dec v = rev (uint_digits v 10 False)"

definition ports_text :: "fw_rule \<Rightarrow> string" where
  "ports_text r = (if any_port r \<noteq> 0 then ''any''
     else dec (ucast (port_lo r)) @ ''-'' @ dec (ucast (port_hi r)))"

definition status_text :: "fw \<Rightarrow> string" where
  "status_text F = ''firewall: '' @ (if fw_enabled F then ''enabled'' else ''disabled'') @
     ''  policy in='' @ (if policy_in F = FW_DROP then ''drop'' else ''allow'') @
     '' out='' @ (if policy_out F = FW_DROP then ''drop'' else ''allow'') @ [CHR 0x0A]"

definition octet :: "fw_rule \<Rightarrow> nat \<Rightarrow> string" where
  "octet r i = dec (ucast (drop_bit (8 * i) (ip r) AND 0xFF))"

definition rule_text :: "fw_rule \<Rightarrow> string" where
  "rule_text r = ''  '' @ (if uint (action r) = FW_DROP then ''drop'' else ''allow'') @ '' '' @
     (if uint (dir r) = FW_IN then ''in'' else if uint (dir r) = FW_OUT then ''out'' else ''any'') @
     '' '' @ (if uint (proto r) = FW_TCP then ''tcp'' else if uint (proto r) = FW_UDP then ''udp''
              else if uint (proto r) = FW_ICMP then ''icmp'' else ''any'') @ '' '' @
     octet r 0 @ ''.'' @ octet r 1 @ ''.'' @ octet r 2 @ ''.'' @ octet r 3 @ ''/'' @
     dec (of_nat (mask_bits (bswap32 (mask r)))) @ '' port '' @ ports_text r @ ''  hits='' @
     dec (ucast (hits r)) @ [CHR 0x0A]"

lemma conv_s: "conv_text CHR ''s'' False False 0 g (VStr (Some t) # as) = Some (t, as)"
  by (simp add: conv_text_def Let_def pad_text_def)

lemma conv_u: "conv_text CHR ''u'' False False 0 0 (VInt x # as) = Some (dec (ucast x), as)"
  by (simp add: conv_text_def Let_def pad_text_def uint_text_def dec_def)

lemma conv_d:
  "conv_text CHR ''d'' False False 0 0 (VInt x # as) =
    Some (if sint (scast x :: u64) < 0 then CHR ''-'' # dec (- scast x) else dec (scast x), as)"
  by (simp add: conv_text_def Let_def pad_text_def uint_text_def int_text_def dec_def)

lemma render_plain: "c \<noteq> CHR ''%'' \<Longrightarrow> render (c # f) as = map_option ((#) c) (render f as)"
  by simp

lemma render_conv:
  assumes "\<not> isflag c" "\<not> isdigit c" "c \<noteq> CHR ''l''"
  shows "render (CHR ''%'' # c # f) as = (case conv_text c False False 0 0 as of
      None \<Rightarrow> None | Some (s, as') \<Rightarrow> map_option ((@) s) (render f as'))"
  using assms by (simp add: Let_def dec_val_def split: option.split)

lemma specs [simp]:
  "\<not> isflag CHR ''s''" "\<not> isdigit CHR ''s''" "\<not> isflag CHR ''u''" "\<not> isdigit CHR ''u''"
  "\<not> isflag CHR ''d''" "\<not> isdigit CHR ''d''"
  by (simp_all add: isflag_def isdigit_def)

lemma render_status: "render status_fmt (status_args F) = Some (status_text F)"
  unfolding status_fmt_def status_args_def status_text_def append.simps
  by (simp add: render_plain render_conv conv_s del: render.simps(2))

lemma mask_bits_push: "k \<le> 32 \<Longrightarrow> mask_bits (push_bit (32 - k) m) \<le> k"
proof (induction k arbitrary: m)
  case 0
  have "push_bit 32 m = 0" by (rule bit_word_eqI) (simp add: bit_push_bit_iff)
  then show ?case by (simp add: mask_bits.simps)
next
  case (Suc k)
  have "push_bit 1 (push_bit (32 - Suc k) m) = push_bit (32 - k) m"
    using Suc.prems by (metis Suc_diff_le diff_Suc_Suc plus_1_eq_Suc push_bit_push_bit)
  then show ?case using Suc by (subst mask_bits.simps) simp
qed

lemma mask_bits_le: "mask_bits m \<le> 32"
  using mask_bits_push [of 32 m] by simp

lemma small_int:
  assumes "n \<le> 32"
  shows "\<not> sint (of_nat n :: u64) < 0" "(scast (of_nat n :: u32) :: u64) = of_nat n"
proof -
  have "signed_take_bit 31 (int n) = int n" "signed_take_bit 63 (int n) = int n"
    using assms by (intro signed_take_bit_int_eq_self; simp)+
  moreover have "n mod 2 ^ 32 = n" "n mod 2 ^ 64 = n" using assms by simp_all
  ultimately have s: "sint (of_nat n :: u32) = int n" "sint (of_nat n :: u64) = int n"
    by (simp_all add: sint_uint uint_nat unat_of_nat)
  have "(scast (of_nat n :: u32) :: u64) = of_int (sint (of_nat n :: u32))" by simp
  then show e: "(scast (of_nat n :: u32) :: u64) = of_nat n" by (simp add: s(1))
  show "\<not> sint (of_nat n :: u64) < 0" unfolding s(2) by simp
qed

lemma render_rule: "render rule_fmt (rule_args r ports) =
   Some (''  '' @ (if uint (action r) = FW_DROP then ''drop'' else ''allow'') @ '' '' @
     (if uint (dir r) = FW_IN then ''in'' else if uint (dir r) = FW_OUT then ''out'' else ''any'') @
     '' '' @ (if uint (proto r) = FW_TCP then ''tcp'' else if uint (proto r) = FW_UDP then ''udp''
              else if uint (proto r) = FW_ICMP then ''icmp'' else ''any'') @ '' '' @
     octet r 0 @ ''.'' @ octet r 1 @ ''.'' @ octet r 2 @ ''.'' @ octet r 3 @ ''/'' @
     dec (of_nat (mask_bits (bswap32 (mask r)))) @ '' port '' @ ports @ ''  hits='' @
     dec (ucast (hits r)) @ [CHR 0x0A])"
  unfolding rule_fmt_def rule_args_def octet_def append.simps
  by (simp add: render_plain render_conv conv_s conv_u conv_d small_int [OF mask_bits_le] del: render.simps(2))

lemma low_digits_length:
  "unat b = 10 \<Longrightarrow> unat v < 10 ^ k \<Longrightarrow> length (low_digits b dg v) \<le> k"
proof (induction k arbitrary: v)
  case 0
  then show ?case by (simp add: low_digits.simps unat_eq_zero)
next
  case (Suc k)
  have "unat (v div b) < 10 ^ k" using Suc.prems by (simp add: unat_div less_mult_imp_div_less mult.commute)
  then show ?case using Suc.IH [of "v div b"] Suc.prems(1) by (subst low_digits.simps) simp
qed

lemma dec_port: "length (dec (ucast (ucast (p :: u16) :: u32))) \<le> 5"
proof -
  let ?v = "ucast (ucast p :: u32) :: u64"
  have p: "unat p < 65536" using unsigned_less [of p, where 'a = nat] by simp
  then have "unat (ucast p :: u32) = unat p" by (simp add: unsigned_ucast_eq take_bit_nat_eq_self)
  then have u: "unat ?v = unat p" by (simp only: unat_ucast64)
  have "unat (drop_bit 32 ?v) = 0" unfolding unat_drop_bit_eq u using p by (simp add: drop_bit_eq_div)
  then have d: "drop_bit 32 ?v = 0" by (simp only: unat_eq_zero)
  show ?thesis
  proof (cases "?v = 0")
    case True
    then show ?thesis by (simp only: dec_def uint_digits_def) simp
  next
    case False
    have "dec ?v = rev (low_digits 10 digits_lower (ucast ?v))"
      using False d by (simp only: dec_def uint_digits_def wide_digits.simps [of _ _ ?v] Let_def if_False
          prod.case simp_thms if_True append_Nil)
    moreover have "unat (ucast ?v :: u32) < 10 ^ 5"
      using u p low_half [OF d] by simp
    ultimately show ?thesis using low_digits_length [of 10 "ucast ?v" 5 digits_lower] by simp
  qed
qed

lemma dec_no_NUL: "CHR 0x00 \<notin> set (dec v)"
  using dec_text(2) [of v] by (auto simp: dec_def)

lemma ports_buf_text: "ports_buf r = Some (ports_text r)"
proof -
  let ?args = "[VInt (ucast (port_lo r)), VInt (ucast (port_hi r))]"
  let ?t = "dec (ucast (ucast (port_lo r) :: u32)) @ ''-'' @ dec (ucast (ucast (port_hi r) :: u32))"
  have cut: "map_option (\<lambda>(b, n). takeWhile (\<lambda>c. c \<noteq> CHR 0x00) b)
      (snprintf (replicate 16 CHR 0x00) 16 fmt as) = Some s"
    if "render fmt as = Some s" "length s < 16" "CHR 0x00 \<notin> set s" for fmt as s
  proof -
    have "takeWhile (\<lambda>c. c \<noteq> CHR 0x00) (s @ CHR 0x00 # xs) = s" for xs
      using that(3) by (induction s) auto
    then show ?thesis using that vsnprintf_stores [of 16 "replicate 16 CHR 0x00" fmt as]
      by (simp add: snprintf_def)
  qed
  have "render ''any'' [] = Some ''any''" by simp
  from cut [OF this] have a: "any_port r \<noteq> 0 \<Longrightarrow> ports_buf r = Some ''any''"
    by (simp add: ports_buf_def)
  have "render ''%u-%u'' ?args = Some ?t"
    by (simp add: render_plain render_conv conv_u del: render.simps(2))
  moreover have "length ?t < 16" using dec_port [of "port_lo r"] dec_port [of "port_hi r"] by simp
  moreover have "CHR 0x00 \<notin> set ?t" using dec_no_NUL by simp
  ultimately have "any_port r = 0 \<Longrightarrow> ports_buf r = Some ?t"
    using cut [of "''%u-%u''" ?args ?t] by (simp add: ports_buf_def)
  moreover have "ucast (ucast p :: u32) = (ucast p :: u64)" for p :: u16
    by (rule bit_word_eqI) (auto simp: bit_simps dest: bit_imp_le_length)
  ultimately show ?thesis using a by (auto simp: ports_text_def)
qed

text \<open>A buffer that holds the text \<open>T\<close> cut to \<open>cap - 1\<close> characters and its NUL.\<close>

definition holds :: "nat \<Rightarrow> string \<Rightarrow> string \<Rightarrow> string" where
  "holds cap buf T = take (cap - 1) T @ CHR 0x00 # drop (Suc (min (length T) (cap - 1))) buf"

lemma snprintf_at_holds:
  assumes "cap \<le> length buf" "length T < cap" "render fmt as = Some s"
  shows "snprintf_at (holds cap buf T) (length T) cap fmt as = Some (holds cap buf (T @ s), length s)"
proof -
  have T: "take (cap - 1) T = T" "min (length T) (cap - 1) = length T" using assms(2) by simp_all
  then have d: "drop (length T) (holds cap buf T) = CHR 0x00 # drop (Suc (length T)) buf"
      "take (length T) (holds cap buf T) = T" by (simp_all add: holds_def)
  have "vsnprintf (Some (CHR 0x00 # drop (Suc (length T)) buf)) (cap - length T) fmt as =
      Some (Some (take (cap - length T - 1) s @ CHR 0x00 #
        drop (Suc (min (length s) (cap - length T - 1))) (CHR 0x00 # drop (Suc (length T)) buf)), length s)"
    using vsnprintf_stores [of "cap - length T" "CHR 0x00 # drop (Suc (length T)) buf" fmt as] assms
    by simp
  moreover have "min (length T + length s) (cap - 1) = length T + min (length s) (cap - length T - 1)"
    using assms(2) by simp
  moreover have "take (cap - 1) (T @ s) = T @ take (cap - length T - 1) s" using T by (simp add: diff_commute)
  ultimately show ?thesis unfolding snprintf_at_def snprintf_def d
    by (simp add: holds_def add.commute)
qed

lemma holds_cut:
  assumes "cap \<le> length T" "0 < cap"
  shows "holds cap buf (T @ U) = holds cap buf T"
  using assms by (simp add: holds_def)

abbreviation (input) rules_text :: "fw_rule list \<Rightarrow> string" where
  "rules_text rs \<equiv> concat (map rule_text (filter (\<lambda>r. in_use r \<noteq> 0) rs))"

lemma dump_rules_text:
  assumes "cap \<le> length buf" "0 < cap"
  shows "\<exists>off. dump_rules cap rs (holds cap buf T) (length T) = Some (holds cap buf (T @ rules_text rs), off) \<and>
    min off cap = min (length (T @ rules_text rs)) cap"
proof (induction rs arbitrary: T)
  case (Cons r rs)
  consider (full) "cap \<le> length T" | (free) "length T < cap" "in_use r = 0"
    | (rule) "length T < cap" "in_use r \<noteq> 0" by linarith
  then show ?case
  proof cases
    case full
    then show ?thesis using holds_cut [OF full assms(2)] by simp
  next
    case free
    then show ?thesis using Cons by simp
  next
    case rule
    have "render rule_fmt (rule_args r (ports_text r)) = Some (rule_text r)"
      by (simp add: render_rule rule_text_def)
    from snprintf_at_holds [OF assms(1) rule(1) this] show ?thesis
      using rule Cons [of "T @ rule_text r"] by (simp add: ports_buf_text)
  qed
qed simp

lemma holds_Nil: "snprintf_at buf 0 cap fmt as = map_option (\<lambda>s. (holds cap buf s, length s)) (render fmt as)"
  if "cap \<le> length buf" "0 < cap"
  using vsnprintf_stores [OF that(2,1), of fmt as]
  by (auto simp: snprintf_at_def snprintf_def holds_def option.map_comp comp_def)

section \<open>The firewall as a system\<close>

inductive fw_step :: "fw \<Rightarrow> fw \<Rightarrow> bool" where
  check: "firewall_check d pr a port F = (r, F') \<Longrightarrow> fw_step F F'"
| check6: "firewall_check6 d pr port F = (r, F') \<Longrightarrow> fw_step F F'"
| input4: "firewall_ip4_input_hook p inp F = (r, F') \<Longrightarrow> fw_step F F'"
| input6: "firewall_ip6_input_hook p inp F = (r, F') \<Longrightarrow> fw_step F F'"
| ctl: "firewall_ctl_line line F = (r, F') \<Longrightarrow> fw_step F F'"

lemma fw_wf_decide: "fw_wf F \<Longrightarrow> fw_wf (snd (fw_decide_af d pr a port v6 F))"
  using fw_decide_wf [of F d pr a port v6] by (metis prod.collapse)

lemma fw_step_wf: "fw_wf F \<Longrightarrow> fw_step F F' \<Longrightarrow> fw_wf F'"
proof (erule fw_step.cases)
  fix d pr a port Fa r F'' assume "fw_wf F" "F = Fa" "F' = F''" "firewall_check d pr a port Fa = (r, F'')"
  then show "fw_wf F'" using fw_wf_decide [of F d pr a port False]
    by (auto simp: firewall_check_def fw_decide_def split: prod.splits)
next
  fix d pr port Fa r F'' assume "fw_wf F" "F = Fa" "F' = F''" "firewall_check6 d pr port Fa = (r, F'')"
  then show "fw_wf F'" using fw_wf_decide [of F d pr 0 port True]
    by (auto simp: firewall_check6_def split: prod.splits)
next
  fix p inp Fa r F'' assume "fw_wf F" "F = Fa" "F' = F''" "firewall_ip4_input_hook p inp Fa = (r, F'')"
  then show "fw_wf F'" using fw_wf_decide [of F]
    by (auto simp: firewall_ip4_input_hook_def fw_decide_def Let_def case_prod_unfold
        split: option.splits if_split_asm)
next
  fix p inp Fa r F'' assume "fw_wf F" "F = Fa" "F' = F''" "firewall_ip6_input_hook p inp Fa = (r, F'')"
  then show "fw_wf F'" using fw_wf_decide [of F]
    by (auto simp: firewall_ip6_input_hook_def Let_def case_prod_unfold
        split: option.splits if_split_asm)
next
  fix line Fa r F'' assume "fw_wf F" "F = Fa" "F' = F''" "firewall_ctl_line line Fa = (r, F'')"
  then show "fw_wf F'" using ctl_line_wf by simp
qed

interpretation fw_system: transition_invariant "\<lambda>F. F = fw_boot" fw_step fw_wf
proof
  fix F assume "F = fw_boot"
  then show "fw_wf F" by (simp add: fw_boot_def fw_wf_def zero_rule_def)
qed (rule fw_step_wf)

lemma ctl_error_keeps:
  assumes "firewall_ctl_line line F = (- 1, F')"
  shows "F' = F"
  using assms
proof (cases rule: ctl_line_cases)
  case (4 q)
  then show ?thesis
    unfolding policy_line_def Let_def case_prod_unfold by (simp split: if_split_asm)
next
  case (5 q)
  then show ?thesis
    by (auto simp: rule_line_def add_rule_def split: option.splits prod.splits)
qed auto

lemma word_of_rule_line:
  assumes "tokens line = ''rule'' # ts"
  shows "\<exists>q. firewall_ctl_line line F = rule_line q F \<and> tokens q = ts"
proof -
  have t: "tok (skip_ws line) = ''rule''" "tokens (rest (skip_ws line)) = ts"
    using assms by (subst (asm) tokens.simps, simp split: if_split_asm)+
  have "takeWhile (\<lambda>c. \<not> tok_end c) (skip_ws line) = ''rule''" using t(1) by simp
  then have c: "cur (skip_ws line) = CHR ''r''"
    by (cases "skip_ws line") (auto split: if_splits)
  have "word_is (skip_ws line) w = (if w = ''rule'' then Some (rest (skip_ws line)) else None)"
    if "word w" for w using word_is_tok [OF that, of "skip_ws line"] t(1) by simp
  moreover have "word ''enable''" "word ''disable''" "word ''flush''" "word ''policy''" "word ''rule''"
    by (simp_all add: word_def tok_end_def isblank_def)
  ultimately have "firewall_ctl_line line F = rule_line (rest (skip_ws line)) F"
    using c by (simp add: firewall_ctl_line_def Let_def)
  then show ?thesis using t(2) by blast
qed

lemma rule_matches_v4:
  "in_use r \<noteq> 0 \<Longrightarrow> rule_matches r d pr a port False \<longleftrightarrow>
    (uint (dir r) = FW_ANYDIR \<or> uint (dir r) = d) \<and>
    (uint (proto r) = FW_ANYPROTO \<or> uint (proto r) = pr) \<and>
    \<not> (mask r \<noteq> 0 \<and> a AND mask r \<noteq> ip r AND mask r) \<and>
    (any_port r \<noteq> 0 \<or> port_lo r \<le> port \<and> port \<le> port_hi r)"
  unfolding rule_matches_def linorder_not_less [symmetric] by simp

section \<open>Properties\<close>


text \<open>C11: In every state the firewall can reach from boot the table has 32 entries, the policies
  and every decision are allow or drop, and each rule in use names an action, a direction and a
  protocol of the header, an ordered port range, and a network: it matches an IPv4 address exactly
  when the first n bits of the address and of the rule's address agree, for one n up to 32.\<close>

theorem firewall_reachable_typed:
  assumes "fw_step\<^sup>*\<^sup>* fw_boot F"
  shows "length (rules F) = FW_MAX_RULES \<and> policy_in F \<in> {FW_ALLOW, FW_DROP} \<and>
    policy_out F \<in> {FW_ALLOW, FW_DROP} \<and>
    (\<forall>d pr a port v6. fst (fw_decide_af d pr a port v6 F) \<in> {FW_ALLOW, FW_DROP}) \<and>
    (\<forall>r \<in> set (rules F). in_use r \<noteq> 0 \<longrightarrow>
       uint (action r) \<in> {FW_ALLOW, FW_DROP} \<and> uint (dir r) \<in> {FW_IN, FW_OUT, FW_ANYDIR} \<and>
       uint (proto r) \<in> {FW_ANYPROTO, FW_ICMP, FW_TCP, FW_UDP} \<and> port_lo r \<le> port_hi r \<and>
       (\<exists>n \<le> 32. \<forall>d pr a port. rule_matches r d pr a port False \<longleftrightarrow>
          (uint (dir r) = FW_ANYDIR \<or> uint (dir r) = d) \<and>
          (uint (proto r) = FW_ANYPROTO \<or> uint (proto r) = pr) \<and>
          drop_bit (32 - n) (bswap32 a) = drop_bit (32 - n) (bswap32 (ip r)) \<and>
          (any_port r \<noteq> 0 \<or> port_lo r \<le> port \<and> port \<le> port_hi r)))"
proof -
  have wf: "fw_wf F" using fw_system.inv_reachable [OF refl assms] .
  have "fst (fw_decide_af d pr a port v6 F) \<in> {FW_ALLOW, FW_DROP}" for d pr a port v6
    using fw_decide_wf [OF wf] by (metis prod.collapse)
  moreover have "uint (action r) \<in> {FW_ALLOW, FW_DROP} \<and> uint (dir r) \<in> {FW_IN, FW_OUT, FW_ANYDIR} \<and>
       uint (proto r) \<in> {FW_ANYPROTO, FW_ICMP, FW_TCP, FW_UDP} \<and> port_lo r \<le> port_hi r"
    "\<exists>n \<le> 32. \<forall>d pr a port. rule_matches r d pr a port False \<longleftrightarrow>
          (uint (dir r) = FW_ANYDIR \<or> uint (dir r) = d) \<and>
          (uint (proto r) = FW_ANYPROTO \<or> uint (proto r) = pr) \<and>
          drop_bit (32 - n) (bswap32 a) = drop_bit (32 - n) (bswap32 (ip r)) \<and>
          (any_port r \<noteq> 0 \<or> port_lo r \<le> port \<and> port \<le> port_hi r)"
    if r: "r \<in> set (rules F)" "in_use r \<noteq> 0" for r
  proof -
    have rw: "rule_wf r" using wf r by (simp add: fw_wf_def)
    then show "uint (action r) \<in> {FW_ALLOW, FW_DROP} \<and> uint (dir r) \<in> {FW_IN, FW_OUT, FW_ANYDIR} \<and>
       uint (proto r) \<in> {FW_ANYPROTO, FW_ICMP, FW_TCP, FW_UDP} \<and> port_lo r \<le> port_hi r"
      by (auto simp: rule_wf_def)
    obtain n where n: "n \<le> 32" "mask r = mask_of n" using rw by (auto simp: rule_wf_def)
    have "mask r \<noteq> 0 \<and> a AND mask r \<noteq> ip r AND mask r \<longleftrightarrow>
        drop_bit (32 - unat n) (bswap32 a) \<noteq> drop_bit (32 - unat n) (bswap32 (ip r))" for a
      using mask_of_prefix [OF n(1), of a "ip r"] unfolding n(2) by auto
    then have "\<forall>d pr a port. rule_matches r d pr a port False \<longleftrightarrow>
          (uint (dir r) = FW_ANYDIR \<or> uint (dir r) = d) \<and>
          (uint (proto r) = FW_ANYPROTO \<or> uint (proto r) = pr) \<and>
          drop_bit (32 - unat n) (bswap32 a) = drop_bit (32 - unat n) (bswap32 (ip r)) \<and>
          (any_port r \<noteq> 0 \<or> port_lo r \<le> port \<and> port \<le> port_hi r)"
      unfolding rule_matches_v4 [OF r(2)] by simp
    moreover have "unat n \<le> 32" using n(1) by (simp add: word_le_nat_alt)
    ultimately show "\<exists>n \<le> 32. \<forall>d pr a port. rule_matches r d pr a port False \<longleftrightarrow>
          (uint (dir r) = FW_ANYDIR \<or> uint (dir r) = d) \<and>
          (uint (proto r) = FW_ANYPROTO \<or> uint (proto r) = pr) \<and>
          drop_bit (32 - n) (bswap32 a) = drop_bit (32 - n) (bswap32 (ip r)) \<and>
          (any_port r \<noteq> 0 \<or> port_lo r \<le> port \<and> port \<le> port_hi r)" by blast
  qed
  ultimately show ?thesis using wf unfolding fw_wf_def by blast
qed

text \<open>C27: An enabled firewall lets the first matching rule of the table decide and counts the hit on
  that rule alone; without a match the policy of the direction decides and nothing changes.\<close>

theorem firewall_first_match:
  assumes "fw_enabled F"
  shows "(\<exists>i < length (rules F). rule_matches (rules F ! i) d pr a port v6 \<and>
      (\<forall>j < i. \<not> rule_matches (rules F ! j) d pr a port v6) \<and>
      fw_decide_af d pr a port v6 F = (uint (action (rules F ! i)),
        F\<lparr>rules := (rules F)[i := (rules F ! i)\<lparr>hits := hits (rules F ! i) + 1\<rparr>]\<rparr>)) \<or>
    (\<forall>r \<in> set (rules F). \<not> rule_matches r d pr a port v6) \<and>
      fw_decide_af d pr a port v6 F = (if d = FW_IN then policy_in F else policy_out F, F)"
proof (cases "decide_scan (rules F) 0 d pr a port v6")
  case None
  then have "fw_decide_af d pr a port v6 F = (if d = FW_IN then policy_in F else policy_out F, F)"
    using assms by (simp add: fw_decide_af_def)
  moreover have "\<forall>r \<in> set (rules F). \<not> rule_matches r d pr a port v6"
    using None by (simp add: decide_scan_None)
  ultimately show ?thesis by blast
next
  case (Some i)
  moreover from this have "i < length (rules F) \<and> rule_matches (rules F ! i) d pr a port v6 \<and>
      (\<forall>j < i. \<not> rule_matches (rules F ! j) d pr a port v6)" by (auto simp: decide_scan_Some)
  ultimately show ?thesis using assms by (auto simp: fw_decide_af_def)
qed

text \<open>C34: The dump of the table into a buffer of cap bytes is the status line followed by one line
  per rule in use, in order, cut to cap - 1 characters and terminated there; the value returned is
  the length of what fits, and no byte from cap on is touched.\<close>

theorem firewall_dump_text:
  fixes F :: fw
  assumes "0 < cap" "cap \<le> length buf"
  defines "T \<equiv> status_text F @ concat (map rule_text (filter (\<lambda>r. in_use r \<noteq> 0) (rules F)))"
  shows "firewall_dump buf cap F =
    Some (take (cap - 1) T @ CHR 0x00 # drop (Suc (min (length T) (cap - 1))) buf, min (length T) (cap - 1))"
proof -
  obtain off where off: "dump_rules cap (rules F) (holds cap buf (status_text F)) (length (status_text F)) =
      Some (holds cap buf T, off)" "min off cap = min (length T) cap"
    using dump_rules_text [OF assms(2,1), of "rules F" "status_text F"] unfolding T_def by blast
  have "(if cap \<noteq> 0 \<and> cap \<le> off then cap - 1 else off) = min (length T) (cap - 1)"
  proof (cases "cap \<le> off")
    case True
    then have "cap \<le> length T" using off(2) by (simp add: min_def split: if_splits)
    then show ?thesis using True assms(1) by simp
  next
    case False
    then have "off = length T" using off(2) by (simp add: min_def split: if_splits)
    then show ?thesis using False by simp
  qed
  then show ?thesis using off(1)
    by (simp add: firewall_dump_def holds_Nil [OF assms(2,1)] render_status holds_def)
qed


theorem firewall_reachable_typed_witness:
  "\<exists>F. fw_step\<^sup>*\<^sup>* fw_boot F \<and> length (rules F) = 32 \<and> fw_enabled F \<and>
    fst (fw_decide_af 1 6 0 80 False F) \<in> {0, 1}"
proof -
  let ?F = "fw_boot\<lparr>fw_enabled := True\<rparr>"
  have "firewall_ctl_line ''enable'' fw_boot = (0, ?F)"
    by (simp add: firewall_ctl_line_def skip_ws_def isblank_def word_is_def at_token_end_def)
  then have r: "fw_step\<^sup>*\<^sup>* fw_boot ?F" by (intro r_into_rtranclp fw_step.ctl)
  note t = firewall_reachable_typed [OF r]
  have "length (rules ?F) = 32" "fst (fw_decide_af 1 6 0 80 False ?F) \<in> {0, 1}" using t by blast+
  moreover have "fw_enabled ?F" by simp
  ultimately show ?thesis using r by blast
qed

theorem firewall_first_match_witness:
  "fw_decide_af 1 6 0 80 False (fw_boot\<lparr>fw_enabled := True, policy_in := 1\<rparr>) =
     (1, fw_boot\<lparr>fw_enabled := True, policy_in := 1\<rparr>)"
proof -
  let ?F = "fw_boot\<lparr>fw_enabled := True, policy_in := 1\<rparr>"
  have z: "rules ?F = replicate 32 zero_rule" "policy_in ?F = 1" by (simp_all add: fw_boot_def)
  have "\<not> rule_matches (rules ?F ! i) 1 6 0 80 False" if "i < length (rules ?F)" for i
    using that unfolding z by (simp add: zero_rule_def rule_matches_def)
  moreover have "fw_enabled ?F" by simp
  ultimately have "fw_decide_af 1 6 0 80 False ?F = (if (1 :: int) = FW_IN then policy_in ?F else policy_out ?F, ?F)"
    using firewall_first_match [of ?F 1 6 0 80 False] by blast
  then show ?thesis unfolding z(2) by simp
qed

theorem firewall_dump_text_witness:
  "firewall_dump (replicate 10 CHR ''x'') 8 fw_boot = Some (''firewal'' @ CHR 0x00 # ''xx'', 7)"
proof -
  have "concat (map rule_text (filter (\<lambda>r. in_use r \<noteq> 0) (rules fw_boot))) = []"
    by (simp add: fw_boot_def zero_rule_def)
  moreover have "status_text fw_boot = ''firewall: disabled  policy in=allow out=allow'' @ [CHR 0x0A]"
    by (simp add: status_text_def fw_boot_def)
  moreover have "drop 8 (replicate 10 CHR ''x'') = ''xx''" by (simp add: numeral_2_eq_2)
  ultimately show ?thesis using firewall_dump_text [of 8 "replicate 10 CHR ''x''" fw_boot] by simp
qed

end
