(* ===== verification/Usermem.thy ===== *)
theory Usermem
  imports Prelude
begin

text \<open>
  The user-memory access layer of proc/syscall.c: the range and page check
  \<open>access_ok\<close> and the fault-safe copies \<open>copy_from_user\<close> and \<open>copy_to_user\<close>.
  An address space is the bytes it holds, the page-table entries and VMA protections
  \<open>access_ok\<close> consults, and the addresses at which the copy itself takes a fault that the
  exception table turns into -EFAULT (a sibling CPU may have changed the mapping since the
  check). The instruction \<open>rep movsb\<close> is a byte loop that stops at the first such address.
\<close>

record umem =
  ubyte :: "u32 \<Rightarrow> u8"
  upte :: "u32 \<Rightarrow> u64"
  uvma :: "u32 \<Rightarrow> int"
  ufault :: "u32 \<Rightarrow> bool"

abbreviation (input) PAGE_SIZE :: nat where "PAGE_SIZE \<equiv> 4096"
abbreviation (input) PAGE_PRESENT :: u64 where "PAGE_PRESENT \<equiv> 0x001"
abbreviation (input) PAGE_USER :: u64 where "PAGE_USER \<equiv> 0x004"
abbreviation (input) PAGE_PROTNONE :: u64 where "PAGE_PROTNONE \<equiv> 0x800"
abbreviation (input) USER_LIMIT :: u32 where "USER_LIMIT \<equiv> 0xC0000000"

definition page_ok :: "umem \<Rightarrow> u32 \<Rightarrow> bool" where
  "page_ok um page =
     (let pte = upte um page in
      if pte AND PAGE_PRESENT = 0 \<or> pte AND PAGE_USER = 0
      then pte AND PAGE_PROTNONE = 0 \<and> 0 < uvma um page
      else True)"

text \<open>
  The page loop of \<open>access_ok\<close>, with fuel; the caller gives it one unit per page of the
  address space, more than any walk below the user limit takes.
\<close>

fun access_walk :: "nat \<Rightarrow> umem \<Rightarrow> u32 \<Rightarrow> u32 \<Rightarrow> bool" where
  "access_walk 0 um page lst = False"
| "access_walk (Suc n) um page lst =
     (page_ok um page \<and> (if page = lst then True else access_walk n um (page + 4096) lst))"

definition access_ok :: "umem \<Rightarrow> u32 \<Rightarrow> u32 \<Rightarrow> bool" where
  "access_ok um addr len =
     (let fin = addr + len in
      if len = 0 then addr \<le> USER_LIMIT
      else if addr \<ge> USER_LIMIT \<or> fin > USER_LIMIT \<or> fin < addr then False
      else access_walk (2 ^ 20) um (addr AND NOT 4095) ((fin - 1) AND NOT 4095))"

fun movsb_from :: "umem \<Rightarrow> u32 \<Rightarrow> nat \<Rightarrow> int \<times> u8 list" where
  "movsb_from um a 0 = (0, [])"
| "movsb_from um a (Suc n) =
     (if ufault um a then (- EFAULT, [])
      else let (r, bs) = movsb_from um (a + 1) n in (r, ubyte um a # bs))"

fun movsb_to :: "umem \<Rightarrow> u32 \<Rightarrow> u8 list \<Rightarrow> int \<times> umem" where
  "movsb_to um a [] = (0, um)"
| "movsb_to um a (b # bs) =
     (if ufault um a then (- EFAULT, um)
      else movsb_to (um\<lparr>ubyte := (ubyte um)(a := b)\<rparr>) (a + 1) bs)"

text \<open>The bytes are what landed in the kernel buffer, also when the copy faulted half way.\<close>

definition copy_from_user :: "umem \<Rightarrow> u32 \<Rightarrow> nat \<Rightarrow> int \<times> u8 list" where
  "copy_from_user um src len =
     (if \<not> access_ok um src (of_nat len) then (- EFAULT, []) else movsb_from um src len)"

definition copy_to_user :: "umem \<Rightarrow> u32 \<Rightarrow> u8 list \<Rightarrow> int \<times> umem" where
  "copy_to_user um dst bs =
     (if \<not> access_ok um dst (of_nat (length bs)) then (- EFAULT, um) else movsb_to um dst bs)"

section \<open>The page walk and the copies\<close>

lemma access_walk_pages:
  assumes "p \<le> l" "l - p < n" "l < 2 ^ 20"
  shows "access_walk n um (of_nat (4096 * p)) (of_nat (4096 * l)) \<longleftrightarrow>
         (\<forall>i\<in>{p..l}. page_ok um (of_nat (4096 * i)))"
  using assms
proof (induction n arbitrary: p)
  case 0
  then show ?case by simp
next
  case (Suc n)
  have inj: "(of_nat (4096 * p) :: u32) = of_nat (4096 * l) \<longleftrightarrow> p = l"
    using Suc.prems by (simp add: word_of_nat_eq_iff take_bit_eq_mod del: of_nat_mult)
  show ?case
  proof (cases "p = l")
    case True
    then show ?thesis by simp
  next
    case False
    have next_page: "(of_nat (4096 * p) :: u32) + 4096 = of_nat (4096 * Suc p)"
      by simp
    have "access_walk n um (of_nat (4096 * Suc p)) (of_nat (4096 * l)) \<longleftrightarrow>
          (\<forall>i\<in>{Suc p..l}. page_ok um (of_nat (4096 * i)))"
      using Suc.prems False by (intro Suc.IH) auto
    moreover have "{p..l} = insert p {Suc p..l}" using Suc.prems False by auto
    ultimately show ?thesis
      using False inj next_page by (simp del: of_nat_mult of_nat_Suc mult_Suc_right)
  qed
qed

lemma movsb_to_frame:
  "movsb_to um a bs = (r, um') \<Longrightarrow> upte um' = upte um \<and> uvma um' = uvma um \<and> ufault um' = ufault um"
  by (induction bs arbitrary: um a) (fastforce split: if_splits)+

lemma movsb_to_other:
  "movsb_to um a bs = (r, um') \<Longrightarrow> (\<And>i. i < length bs \<Longrightarrow> x \<noteq> a + of_nat i) \<Longrightarrow> ubyte um' x = ubyte um x"
proof (induction bs arbitrary: um a)
  case Nil
  then show ?case by simp
next
  case (Cons b bs)
  have x: "x \<noteq> a" using Cons.prems(2) [of 0] by simp
  have rest: "x \<noteq> a + 1 + of_nat i" if "i < length bs" for i
    using Cons.prems(2) [of "Suc i"] that by (simp add: algebra_simps)
  show ?case
  proof (cases "ufault um a")
    case True
    with Cons.prems show ?thesis by simp
  next
    case False
    with Cons.prems have "movsb_to (um\<lparr>ubyte := (ubyte um)(a := b)\<rparr>) (a + 1) bs = (r, um')" by simp
    from Cons.IH [OF this rest] x show ?thesis by simp
  qed
qed

lemma movsb_round_trip:
  "movsb_to um a bs = (0, um') \<Longrightarrow> length bs < 2 ^ 32 \<Longrightarrow> movsb_from um' a (length bs) = (0, bs)"
proof (induction bs arbitrary: um a)
  case Nil
  then show ?case by simp
next
  case (Cons b bs)
  let ?um = "um\<lparr>ubyte := (ubyte um)(a := b)\<rparr>"
  from Cons.prems have nf: "\<not> ufault um a" and m: "movsb_to ?um (a + 1) bs = (0, um')"
    by (auto split: if_splits)
  have "a \<noteq> a + 1 + of_nat i" if "i < length bs" for i
  proof
    assume "a = a + 1 + of_nat i"
    then have "(of_nat (Suc i) :: u32) = 0" by (simp add: algebra_simps)
    then have "2 ^ 32 dvd Suc i" by (simp only: word_of_nat_eq_0_iff) simp
    with that Cons.prems(2) show False using dvd_imp_le [of "2 ^ 32" "Suc i"] by simp
  qed
  from movsb_to_other [OF m this] have "ubyte um' a = b" by simp
  moreover have "ufault um' a = ufault um a" using movsb_to_frame [OF m] by simp
  moreover have "movsb_from um' (a + 1) (length bs) = (0, bs)"
    using Cons.IH [OF m] Cons.prems(2) by simp
  ultimately show ?case using nf by simp
qed

text \<open>The bytes of a user range, and what a successful copy has to do with them.\<close>

definition user_bytes :: "umem \<Rightarrow> u32 \<Rightarrow> nat \<Rightarrow> u8 list" where
  "user_bytes um a n = map (\<lambda>i. ubyte um (a + of_nat i)) [0..<n]"

lemma length_user_bytes [simp]: "length (user_bytes um a n) = n"
  by (simp add: user_bytes_def)

lemma user_bytes_Suc: "user_bytes um a (Suc n) = ubyte um a # user_bytes um (a + 1) n"
  by (auto simp: user_bytes_def upt_conv_Cons map_Suc_upt [symmetric] algebra_simps simp del: upt_Suc)

lemma user_bytes_add:
  "user_bytes um a (m + n) = user_bytes um a m @ user_bytes um (a + of_nat m) n"
  by (induction m arbitrary: a) (simp_all add: user_bytes_Suc algebra_simps, simp add: user_bytes_def)

lemma movsb_from_result:
  "movsb_from um a n = (r, bs) \<Longrightarrow>
   (r = 0 \<and> bs = user_bytes um a n) \<or> (r = - EFAULT \<and> length bs \<le> n)"
proof (induction n arbitrary: a r bs)
  case 0
  then show ?case by (simp add: user_bytes_def)
next
  case (Suc n)
  show ?case
  proof (cases "ufault um a")
    case True
    with Suc.prems show ?thesis by simp
  next
    case False
    with Suc.prems obtain bs' where "movsb_from um (a + 1) n = (r, bs')" "bs = ubyte um a # bs'"
      by (auto split: prod.splits)
    with Suc.IH [of "a + 1" r bs'] show ?thesis by (auto simp: user_bytes_Suc)
  qed
qed

lemma copy_from_user_result:
  "copy_from_user um a n = (r, bs) \<Longrightarrow>
   (r = 0 \<and> bs = user_bytes um a n) \<or> (r = - EFAULT \<and> length bs \<le> n)"
  by (auto simp: copy_from_user_def dest: movsb_from_result split: if_splits)

lemma movsb_to_result: "movsb_to um a bs = (r, um') \<Longrightarrow> r = 0 \<or> r = - EFAULT"
  by (induction bs arbitrary: um a) (auto split: if_splits)

lemma access_ok_cong:
  "upte um' = upte um \<Longrightarrow> uvma um' = uvma um \<Longrightarrow> access_ok um' a n = access_ok um a n"
proof -
  assume e: "upte um' = upte um" "uvma um' = uvma um"
  have "access_walk k um' p l = access_walk k um p l" for k p l
    by (induction k arbitrary: p) (simp_all add: page_ok_def e)
  then show ?thesis by (simp add: access_ok_def)
qed

lemma pages_of_range:
  assumes "0 < (N::nat)"
  shows "(\<forall>j\<in>{A div 4096..(A + N - 1) div 4096}. P j) \<longleftrightarrow> (\<forall>i<N. P ((A + i) div 4096))"
proof
  assume all: "\<forall>j\<in>{A div 4096..(A + N - 1) div 4096}. P j"
  show "\<forall>i<N. P ((A + i) div 4096)"
  proof (intro allI impI)
    fix i assume "i < N"
    then have "A + i \<le> A + N - 1" "A \<le> A + i" by auto
    with all show "P ((A + i) div 4096)" by (meson atLeastAtMost_iff div_le_mono)
  qed
next
  assume all: "\<forall>i<N. P ((A + i) div 4096)"
  show "\<forall>j\<in>{A div 4096..(A + N - 1) div 4096}. P j"
  proof
    fix j assume j: "j \<in> {A div 4096..(A + N - 1) div 4096}"
    show "P j"
    proof (cases "j = A div 4096")
      case True
      with all assms show ?thesis by (metis add_0_right)
    next
      case False
      with j have "A < 4096 * j" "4096 * j \<le> A + N - 1" by auto
      with assms have "4096 * j - A < N" "(A + (4096 * j - A)) div 4096 = j" by auto
      with all show ?thesis by metis
    qed
  qed
qed

lemma user_range_iff:
  assumes "n \<noteq> 0"
  shows "\<not> (a \<ge> USER_LIMIT \<or> a + n > USER_LIMIT \<or> a + n < a) \<longleftrightarrow>
         unat a + unat n \<le> unat USER_LIMIT"
proof -
  have n0: "0 < unat n" using assms by (simp add: unat_gt_0)
  have "unat a < 2 ^ 32" "unat n < 2 ^ 32" using unsigned_less [of a] unsigned_less [of n] by simp_all
  moreover have "unat (a + n) = (unat a + unat n) mod 2 ^ 32" by (simp add: unat_word_ariths)
  ultimately show ?thesis
    using n0 by (cases "unat a + unat n < 2 ^ 32")
      (auto simp: word_le_nat_alt word_less_nat_alt mod_if)
qed

lemma movsb_to_bytes:
  assumes "movsb_to um a bs = (0, um')" "length bs < 2 ^ 32"
  shows "user_bytes um' a (length bs) = bs"
  using movsb_round_trip [OF assms] movsb_from_result [of um' a "length bs" 0 bs] by auto

lemma copy_to_user_cases:
  "copy_to_user um a bs = (r, um') \<Longrightarrow> r = 0 \<or> r = - EFAULT"
  by (auto simp: copy_to_user_def dest: movsb_to_result split: if_splits)

lemma copy_to_user_bytes:
  assumes "copy_to_user um a bs = (0, um')" "length bs < 2 ^ 32"
  shows "user_bytes um' a (length bs) = bs"
  using assms by (auto simp: copy_to_user_def intro: movsb_to_bytes split: if_splits)

lemma copy_to_user_other:
  assumes "copy_to_user um a bs = (r, um')" "\<And>i. i < length bs \<Longrightarrow> x \<noteq> a + of_nat i"
  shows "ubyte um' x = ubyte um x"
  using assms by (auto simp: copy_to_user_def intro: movsb_to_other split: if_splits)

lemma copy_to_user_bytes2:
  assumes c1: "copy_to_user um a xs = (0, um1)" and c2: "copy_to_user um1 (a + of_nat (length xs)) ys = (0, um2)"
    and len: "length xs + length ys < 2 ^ 32"
  shows "user_bytes um2 a (length xs + length ys) = xs @ ys"
proof -
  have sep: "a + of_nat i \<noteq> a + of_nat (length xs) + of_nat j"
    if "i < length xs" "j < length ys" for i j
  proof
    assume "a + of_nat i = a + of_nat (length xs) + of_nat j"
    then have "(of_nat i :: u32) = of_nat (length xs + j)" by (simp add: add.assoc)
    with that len show False by (simp add: word_of_nat_eq_iff take_bit_eq_mod del: of_nat_add)
  qed
  have "user_bytes um2 a (length xs) = user_bytes um1 a (length xs)"
    using copy_to_user_other [OF c2] sep by (simp add: user_bytes_def)
  also have "\<dots> = xs" using copy_to_user_bytes [OF c1] len by simp
  finally show ?thesis using copy_to_user_bytes [OF c2] len by (simp add: user_bytes_add)
qed

lemma access_ok_spec:
  "access_ok um a n =
     (if n = 0 then a \<le> USER_LIMIT
      else unat a + unat n \<le> unat USER_LIMIT \<and>
           (\<forall>i < unat n. page_ok um (of_nat (4096 * ((unat a + i) div 4096)))))"
proof (cases "n \<noteq> 0 \<and> unat a + unat n \<le> unat USER_LIMIT")
  case True
  then have nz: "n \<noteq> 0" and le: "unat a + unat n \<le> unat USER_LIMIT" by auto
  have n0: "0 < unat n" using nz by (simp add: unat_gt_0)
  let ?p = "unat a div 4096" and ?l = "(unat a + unat n - 1) div 4096"
  have s: "unat (a + n) = unat a + unat n" using le by (simp add: unat_word_ariths)
  have "a + n \<noteq> 0" using s n0 by auto
  then have "unat (a + n - 1) = unat (a + n) - 1" by (simp add: unat_minus_one)
  then have fin: "(a + n - 1) AND NOT 4095 = of_nat (4096 * ?l)"
    using page_base_nat [of "a + n - 1"] s by simp
  have "access_ok um a n = access_walk (2 ^ 20) um (of_nat (4096 * ?p)) (of_nat (4096 * ?l))"
    using user_range_iff [OF nz, of a] le nz
    by (simp only: access_ok_def Let_def fin page_base_nat [of a]) simp
  also have "\<dots> = (\<forall>j\<in>{?p..?l}. page_ok um (of_nat (4096 * j)))"
    using le n0 by (intro access_walk_pages) (auto intro: div_le_mono)
  also have "\<dots> = (\<forall>i < unat n. page_ok um (of_nat (4096 * ((unat a + i) div 4096))))"
    by (rule pages_of_range [OF n0])
  finally show ?thesis using True by simp
next
  case False
  then show ?thesis
    using user_range_iff [of n a] by (cases "n = 0") (auto simp: access_ok_def Let_def)
qed

text \<open>C39: \<open>access_ok\<close> accepts a non-empty range exactly when it lies below the user limit
  without wrapping round 32 bits and every page it touches is user-accessible (present and
  user, or covered by an accessible VMA and not PROT_NONE); in particular the page loop
  always terminates with the answer.\<close>

theorem access_ok_iff:
  "access_ok um a n =
     (if n = 0 then a \<le> USER_LIMIT
      else unat a + unat n \<le> unat USER_LIMIT \<and>
           (\<forall>i < unat n. page_ok um (of_nat (4096 * ((unat a + i) div 4096)))))"
  by (rule access_ok_spec)


definition um_all :: umem where
  "um_all = \<lparr>ubyte = (\<lambda>_. 0), upte = (\<lambda>_. 7), uvma = (\<lambda>_. 3), ufault = (\<lambda>_. False)\<rparr>"

lemma access_ok_um_all: "unat a + n \<le> 0xC0000000 \<Longrightarrow> n < 2 ^ 32 \<Longrightarrow> access_ok um_all a (of_nat n)"
  by (auto simp: access_ok_spec page_ok_def um_all_def unat_of_nat word_le_nat_alt)


theorem access_ok_iff_witness:
  "access_ok um_all 0x10000 2 \<and> \<not> access_ok um_all 0xBFFFFFFF 2"
  using access_ok_iff [of um_all "0x10000" 2] access_ok_iff [of um_all "0xBFFFFFFF" 2]
  by (simp add: page_ok_def um_all_def)

end
