(* ===== verification/Pipe.thy ===== *)
theory Pipe
  imports Usermem
begin

text \<open>
  Pipes and FIFOs (proc/pipe.c, proc/pipe.h): the 4096-byte ring, the reader and writer
  counts, the pin that keeps the buffer alive under a sleeping call, and the two transfer
  calls. A call that sleeps or copies outside the pipe's lock is cut at those points; each
  piece is one definition, and \<open>pipe_step\<close> interleaves the pieces of any number of calls.
  Wakeups, the SIGPIPE and the final free are recorded as events.
\<close>

section \<open>State and operations\<close>

definition PIPE_BUF_SIZE :: nat where
  "PIPE_BUF_SIZE = 4096"

record pipe_buf =
  pdata :: "u8 list"
  phead :: nat
  pcount :: nat
  nreaders :: int
  nwriters :: int
  fifo :: bool
  pins :: int

datatype pipe_ev = WakeUp | IoWakePoll | SendSigpipe | KFree

text \<open>\<open>mem\<close>: what kmalloc returned, None or a block with arbitrary bytes in the data array.\<close>

definition pipe_alloc :: "u8 list option \<Rightarrow> pipe_buf option" where
  "pipe_alloc mem =
     (case mem of None \<Rightarrow> None
      | Some junk \<Rightarrow> Some \<lparr>pdata = junk, phead = 0, pcount = 0, nreaders = 1, nwriters = 1,
                          fifo = False, pins = 0\<rparr>)"

definition pipe_try_free :: "pipe_buf \<Rightarrow> pipe_buf \<times> pipe_ev list" where
  "pipe_try_free p =
     (if nreaders p \<le> 0 \<and> nwriters p \<le> 0 then
        (if pins p > 0 then (p, [WakeUp])
         else if fifo p then (p\<lparr>phead := 0, pcount := 0\<rparr>, [WakeUp])
         else (p, [WakeUp, KFree]))
      else (p, []))"

definition pipe_leave :: "pipe_buf \<Rightarrow> pipe_buf \<times> pipe_ev list" where
  "pipe_leave p =
     (let p' = p\<lparr>pins := pins p - 1\<rparr> in
      if pins p' = 0 then pipe_try_free p' else (p', []))"

text \<open>What a transfer finds under the lock: go on, give up with a result, or sleep.\<close>

datatype pipe_wait = Go | Fail int | Sleep

definition pipe_read_wait :: "pipe_buf \<Rightarrow> bool \<Rightarrow> bool \<Rightarrow> pipe_wait" where
  "pipe_read_wait p nonblock sig =
     (if pcount p = 0 then
        (if nwriters p = 0 then Fail 0
         else if nonblock then Fail (- EAGAIN)
         else if sig then Fail (- EINTR)
         else Sleep)
      else Go)"

definition pipe_read_take :: "pipe_buf \<Rightarrow> nat \<Rightarrow> nat" where
  "pipe_read_take p len = (if len > pcount p then pcount p else len)"

text \<open>The two fault-safe copies of a read, from the head read under the lock.\<close>

definition pipe_copy_out :: "umem \<Rightarrow> u32 \<Rightarrow> pipe_buf \<Rightarrow> nat \<Rightarrow> nat \<Rightarrow> int \<times> umem" where
  "pipe_copy_out um buf p h n =
     (let first = min (PIPE_BUF_SIZE - h) n;
          (r1, um1) = copy_to_user um buf (take first (drop h (pdata p)))
      in if r1 < 0 then (r1, um1)
         else if n > first then copy_to_user um1 (buf + of_nat first) (take (n - first) (pdata p))
         else (0, um1))"

definition pipe_read_commit :: "pipe_buf \<Rightarrow> nat \<Rightarrow> pipe_buf" where
  "pipe_read_commit p n =
     p\<lparr>phead := (phead p + n) mod PIPE_BUF_SIZE, pcount := pcount p - n\<rparr>"

text \<open>A read that no other call interrupts; None: it sleeps.\<close>

definition pipe_read ::
  "umem \<Rightarrow> pipe_buf \<Rightarrow> u32 \<Rightarrow> int \<Rightarrow> bool \<Rightarrow> bool \<Rightarrow> (int \<times> umem \<times> pipe_buf \<times> pipe_ev list) option" where
  "pipe_read um p buf len nonblock sig =
     (if len \<le> 0 then Some (0, um, p, [])
      else
        let p1 = p\<lparr>pins := pins p + 1\<rparr> in
        case pipe_read_wait p1 nonblock sig of
          Sleep \<Rightarrow> None
        | Fail e \<Rightarrow> (let (p2, ev) = pipe_leave p1 in Some (e, um, p2, ev))
        | Go \<Rightarrow>
            (let n = pipe_read_take p1 (nat len); (r, um1) = pipe_copy_out um buf p1 (phead p1) n in
             if r < 0 then (let (p2, ev) = pipe_leave p1 in Some (- EFAULT, um1, p2, ev))
             else let (p2, ev) = pipe_leave (pipe_read_commit p1 n)
                  in Some (int n, um1, p2, WakeUp # ev @ [IoWakePoll])))"

definition pipe_write_wait :: "pipe_buf \<Rightarrow> bool \<Rightarrow> bool \<Rightarrow> pipe_wait" where
  "pipe_write_wait p nonblock sig =
     (if pcount p = PIPE_BUF_SIZE then
        (if nreaders p = 0 then Fail (- EPIPE)
         else if nonblock then Fail (- EAGAIN)
         else if sig then Fail (- EINTR)
         else Sleep)
      else Go)"

definition pipe_write_put :: "pipe_buf \<Rightarrow> nat \<Rightarrow> nat" where
  "pipe_write_put p want =
     (let space = PIPE_BUF_SIZE - pcount p in if want > space then space else want)"

definition pipe_tail :: "pipe_buf \<Rightarrow> nat" where
  "pipe_tail p = (phead p + pcount p) mod PIPE_BUF_SIZE"

text \<open>The two copies of a write; on a fault the bytes before it have already landed.\<close>

definition pipe_copy_in :: "umem \<Rightarrow> u32 \<Rightarrow> pipe_buf \<Rightarrow> nat \<Rightarrow> nat \<Rightarrow> int \<times> pipe_buf" where
  "pipe_copy_in um buf p t n =
     (let first = min (PIPE_BUF_SIZE - t) n;
          (r1, bs1) = copy_from_user um buf first;
          p1 = p\<lparr>pdata := blit (pdata p) t bs1\<rparr>
      in if r1 < 0 then (r1, p1)
         else if n > first then
           (let (r2, bs2) = copy_from_user um (buf + of_nat first) (n - first)
            in (r2, p1\<lparr>pdata := blit (pdata p1) 0 bs2\<rparr>))
         else (0, p1))"

definition pipe_write_commit :: "pipe_buf \<Rightarrow> nat \<Rightarrow> pipe_buf" where
  "pipe_write_commit p n = p\<lparr>pcount := pcount p + n\<rparr>"

text \<open>How a write ends early: \<open>n\<close> bytes written before the error \<open>e\<close>.\<close>

definition pipe_write_fail :: "pipe_buf \<Rightarrow> nat \<Rightarrow> int \<Rightarrow> int \<times> pipe_buf \<times> pipe_ev list" where
  "pipe_write_fail p n e =
     (let (p', ev) = pipe_leave p
      in (if n \<noteq> 0 then int n else e, p', ev @ (if e = - EPIPE then [SendSigpipe] else [])))"

text \<open>
  The loop of a write that no other call interrupts. Every pass that does not end the call
  moves at least one byte, so \<open>len\<close> units of fuel are enough (\<open>pipe_write_loop_result\<close> below).
  Outer None: it sleeps.
\<close>

fun pipe_write_loop ::
  "nat \<Rightarrow> umem \<Rightarrow> pipe_buf \<Rightarrow> u32 \<Rightarrow> nat \<Rightarrow> nat \<Rightarrow> bool \<Rightarrow> bool \<Rightarrow> (int \<times> pipe_buf \<times> pipe_ev list) option" where
  "pipe_write_loop 0 um p buf n len nonblock sig = None"
| "pipe_write_loop (Suc fuel) um p buf n len nonblock sig =
     (case pipe_write_wait p nonblock sig of
        Sleep \<Rightarrow> None
      | Fail e \<Rightarrow> Some (pipe_write_fail p n e)
      | Go \<Rightarrow>
          (let put = pipe_write_put p (len - n);
               (r, p1) = pipe_copy_in um (buf + of_nat n) p (pipe_tail p) put
           in if r < 0 then (let (p2, ev) = pipe_leave p1
                             in Some (if n \<noteq> 0 then int n else - EFAULT, p2, ev))
              else
                let n' = n + put; p2 = pipe_write_commit p1 put in
                if n' = len then (let (p3, ev) = pipe_leave p2
                                  in Some (int n', p3, WakeUp # ev @ [IoWakePoll]))
                else map_option (\<lambda>(x, p3, ev). (x, p3, WakeUp # IoWakePoll # ev))
                       (pipe_write_loop fuel um p2 buf n' len nonblock sig)))"

definition pipe_write ::
  "umem \<Rightarrow> pipe_buf \<Rightarrow> u32 \<Rightarrow> int \<Rightarrow> bool \<Rightarrow> bool \<Rightarrow> (int \<times> pipe_buf \<times> pipe_ev list) option" where
  "pipe_write um p buf len nonblock sig =
     (if len \<le> 0 then Some (0, p, [])
      else
        let p1 = p\<lparr>pins := pins p + 1\<rparr> in
        if nreaders p1 = 0 then
          (let (p2, ev) = pipe_leave p1 in Some (- EPIPE, p2, ev @ [SendSigpipe]))
        else pipe_write_loop (nat len) um p1 buf 0 (nat len) nonblock sig)"

definition pipe_add_reader :: "pipe_buf \<Rightarrow> pipe_buf" where
  "pipe_add_reader p = p\<lparr>nreaders := nreaders p + 1\<rparr>"

definition pipe_add_writer :: "pipe_buf \<Rightarrow> pipe_buf" where
  "pipe_add_writer p = p\<lparr>nwriters := nwriters p + 1\<rparr>"

definition pipe_close_read :: "pipe_buf \<Rightarrow> pipe_buf \<times> pipe_ev list" where
  "pipe_close_read p =
     (let (p', ev) = pipe_try_free (p\<lparr>nreaders := nreaders p - 1\<rparr>) in (p', [WakeUp, IoWakePoll] @ ev))"

definition pipe_close_write :: "pipe_buf \<Rightarrow> pipe_buf \<times> pipe_ev list" where
  "pipe_close_write p =
     (let (p', ev) = pipe_try_free (p\<lparr>nwriters := nwriters p - 1\<rparr>) in (p', [WakeUp, IoWakePoll] @ ev))"

definition pipe_fifo_alloc :: "u8 list option \<Rightarrow> pipe_buf option" where
  "pipe_fifo_alloc mem =
     map_option (\<lambda>p. p\<lparr>nreaders := 0, nwriters := 0, fifo := True\<rparr>) (pipe_alloc mem)"

definition pipe_fifo_free :: "pipe_buf \<Rightarrow> pipe_buf \<times> pipe_ev list" where
  "pipe_fifo_free p =
     (if pins p > 0 then (p\<lparr>fifo := False, nreaders := 0, nwriters := 0\<rparr>, [WakeUp])
      else (p, [WakeUp, KFree]))"

section \<open>The ring\<close>

lemma PIPE_BUF_SIZE_pos [simp]: "0 < PIPE_BUF_SIZE"
  by (simp add: PIPE_BUF_SIZE_def)

definition ring_at :: "u8 list \<Rightarrow> nat \<Rightarrow> nat \<Rightarrow> u8 list" where
  "ring_at d h n = map (\<lambda>i. d ! ((h + i) mod PIPE_BUF_SIZE)) [0..<n]"

definition ring_store :: "u8 list \<Rightarrow> nat \<Rightarrow> u8 list \<Rightarrow> u8 list" where
  "ring_store d t bs =
     (let first = min (PIPE_BUF_SIZE - t) (length bs) in blit (blit d t (take first bs)) 0 (drop first bs))"

definition contents :: "pipe_buf \<Rightarrow> u8 list" where
  "contents p = ring_at (pdata p) (phead p) (pcount p)"

definition pipe_ok :: "pipe_buf \<Rightarrow> bool" where
  "pipe_ok p = (length (pdata p) = PIPE_BUF_SIZE \<and> phead p < PIPE_BUF_SIZE \<and> pcount p \<le> PIPE_BUF_SIZE)"

lemma length_ring_at [simp]: "length (ring_at d h n) = n"
  by (simp add: ring_at_def)

lemma length_contents [simp]: "length (contents p) = pcount p"
  by (simp add: contents_def)

lemma nth_ring_at [simp]: "i < n \<Longrightarrow> ring_at d h n ! i = d ! ((h + i) mod PIPE_BUF_SIZE)"
  by (simp add: ring_at_def)

lemma ring_at_runs:
  assumes "length d = PIPE_BUF_SIZE" "h < PIPE_BUF_SIZE" "n \<le> PIPE_BUF_SIZE"
  shows "take (min (PIPE_BUF_SIZE - h) n) (drop h d) @ take (n - min (PIPE_BUF_SIZE - h) n) d = ring_at d h n"
proof (rule nth_equalityI)
  let ?l = "take (min (PIPE_BUF_SIZE - h) n) (drop h d) @ take (n - min (PIPE_BUF_SIZE - h) n) d"
  show len: "length ?l = length (ring_at d h n)" using assms by (auto simp: min_def)
  fix i assume "i < length ?l"
  then have i: "i < n" using len by simp
  show "?l ! i = ring_at d h n ! i"
  proof (cases "i < PIPE_BUF_SIZE - h")
    case True
    with assms i show ?thesis by (simp add: nth_append)
  next
    case False
    with assms i have "(h + i) mod PIPE_BUF_SIZE = i - (PIPE_BUF_SIZE - h)"
      by (simp add: mod_once)
    moreover have "i - (PIPE_BUF_SIZE - h) < n - (PIPE_BUF_SIZE - h)" "PIPE_BUF_SIZE - h \<le> n"
      using False i by auto
    ultimately show ?thesis using False assms i by (simp add: nth_append min_absorb1)
  qed
qed

lemma length_ring_store [simp]:
  "length d = PIPE_BUF_SIZE \<Longrightarrow> t < PIPE_BUF_SIZE \<Longrightarrow> length bs \<le> PIPE_BUF_SIZE \<Longrightarrow>
   length (ring_store d t bs) = PIPE_BUF_SIZE"
  by (simp add: ring_store_def Let_def min_def)

lemma nth_ring_store:
  assumes "length d = PIPE_BUF_SIZE" "t < PIPE_BUF_SIZE" "length bs \<le> PIPE_BUF_SIZE" "k < PIPE_BUF_SIZE"
  shows "ring_store d t bs ! k =
    (if t \<le> k \<and> k < t + length bs then bs ! (k - t)
     else if k + PIPE_BUF_SIZE < t + length bs then bs ! (k + PIPE_BUF_SIZE - t) else d ! k)"
proof (cases "length bs \<le> PIPE_BUF_SIZE - t")
  case True
  with assms show ?thesis by (auto simp: ring_store_def min_def nth_blit)
next
  case False
  let ?f = "PIPE_BUF_SIZE - t"
  have m: "min ?f (length bs) = ?f" using False by simp
  have l1: "length (blit d t (take ?f bs)) = PIPE_BUF_SIZE" using assms False by simp
  have "ring_store d t bs ! k =
      (if k < length bs - ?f then bs ! (?f + k) else if t \<le> k then bs ! (k - t) else d ! k)"
    using assms False by (simp add: ring_store_def Let_def m nth_blit l1)
  moreover have "?f + k = k + PIPE_BUF_SIZE - t" using assms by simp
  ultimately show ?thesis using assms False by auto
qed

lemma ring_store_hit:
  assumes "length d = PIPE_BUF_SIZE" "t < PIPE_BUF_SIZE" "length bs \<le> PIPE_BUF_SIZE" "i < length bs"
  shows "ring_store d t bs ! ((t + i) mod PIPE_BUF_SIZE) = bs ! i"
  using assms by (cases "t + i < PIPE_BUF_SIZE") (auto simp: nth_ring_store mod_once)

lemma ring_store_miss:
  assumes "length d = PIPE_BUF_SIZE" "t < PIPE_BUF_SIZE" "length bs \<le> i" "i < PIPE_BUF_SIZE"
  shows "ring_store d t bs ! ((t + i) mod PIPE_BUF_SIZE) = d ! ((t + i) mod PIPE_BUF_SIZE)"
  using assms by (cases "t + i < PIPE_BUF_SIZE") (auto simp: nth_ring_store mod_once)

section \<open>The queue the ring implements\<close>

lemma pipe_tail_less [simp]: "pipe_tail p < PIPE_BUF_SIZE"
  by (simp add: pipe_tail_def)

lemma pipe_tail_plus: "(phead p + (pcount p + i)) mod PIPE_BUF_SIZE = (pipe_tail p + i) mod PIPE_BUF_SIZE"
  by (simp add: pipe_tail_def add.assoc mod_add_left_eq)

text \<open>A store behind the contents does not touch them; it is read back from the tail.\<close>

lemma contents_ring_store:
  assumes "pipe_ok p" "length bs \<le> PIPE_BUF_SIZE - pcount p"
  shows "contents (p\<lparr>pdata := ring_store (pdata p) (pipe_tail p) bs\<rparr>) = contents p"
proof (rule nth_equalityI, simp)
  fix i assume "i < length (contents (p\<lparr>pdata := ring_store (pdata p) (pipe_tail p) bs\<rparr>))"
  then have i: "i < pcount p" by simp
  let ?k = "PIPE_BUF_SIZE - pcount p + i"
  have c: "pcount p + ?k = PIPE_BUF_SIZE + i" using assms(1) by (simp add: pipe_ok_def)
  have k: "(pipe_tail p + ?k) mod PIPE_BUF_SIZE = (phead p + i) mod PIPE_BUF_SIZE"
    by (simp only: pipe_tail_plus [symmetric] c) (simp add: ac_simps)
  have "ring_store (pdata p) (pipe_tail p) bs ! ((pipe_tail p + ?k) mod PIPE_BUF_SIZE) =
        pdata p ! ((pipe_tail p + ?k) mod PIPE_BUF_SIZE)"
    using assms i by (intro ring_store_miss) (auto simp: pipe_ok_def)
  then show "contents (p\<lparr>pdata := ring_store (pdata p) (pipe_tail p) bs\<rparr>) ! i = contents p ! i"
    using i by (simp add: contents_def k)
qed

lemma ring_at_store:
  assumes "pipe_ok p" "length bs \<le> PIPE_BUF_SIZE"
  shows "ring_at (ring_store (pdata p) (pipe_tail p) bs) (pipe_tail p) (length bs) = bs"
  using assms by (intro nth_equalityI) (auto simp: ring_store_hit pipe_ok_def)

lemma contents_write_commit:
  "contents (pipe_write_commit p n) = contents p @ ring_at (pdata p) (pipe_tail p) n"
proof (rule nth_equalityI)
  fix i assume "i < length (contents (pipe_write_commit p n))"
  then have i: "i < pcount p + n" by (simp add: pipe_write_commit_def)
  have t: "(pipe_tail p + (i - pcount p)) mod PIPE_BUF_SIZE = (phead p + i) mod PIPE_BUF_SIZE"
    if "pcount p \<le> i" using pipe_tail_plus [of p "i - pcount p"] that by simp
  show "contents (pipe_write_commit p n) ! i = (contents p @ ring_at (pdata p) (pipe_tail p) n) ! i"
    using i t by (cases "i < pcount p")
      (simp_all add: contents_def pipe_write_commit_def nth_append del: add_diff_assoc)
qed (simp add: pipe_write_commit_def)

lemma contents_read_commit:
  "n \<le> pcount p \<Longrightarrow> contents (pipe_read_commit p n) = drop n (contents p)"
  by (rule nth_equalityI) (auto simp: contents_def pipe_read_commit_def add.assoc mod_add_left_eq)

lemma ring_at_take: "m \<le> n \<Longrightarrow> take m (ring_at d h n) = ring_at d h m"
  by (rule nth_equalityI) auto

definition pipe_put :: "u8 list \<Rightarrow> pipe_buf \<Rightarrow> pipe_buf" where
  "pipe_put bs p = pipe_write_commit (p\<lparr>pdata := ring_store (pdata p) (pipe_tail p) bs\<rparr>) (length bs)"

lemma pipe_tail_pdata [simp]: "pipe_tail (p\<lparr>pdata := d\<rparr>) = pipe_tail p"
  by (simp add: pipe_tail_def)

lemma contents_pipe_put:
  assumes "pipe_ok p" "pcount p + length bs \<le> PIPE_BUF_SIZE"
  shows "contents (pipe_put bs p) = contents p @ bs"
proof -
  have "length bs \<le> PIPE_BUF_SIZE - pcount p" "length bs \<le> PIPE_BUF_SIZE" using assms by auto
  with assms(1) show ?thesis
    by (simp add: pipe_put_def contents_write_commit contents_ring_store ring_at_store)
qed

lemma pipe_ok_put:
  assumes "pipe_ok p" "pcount p + length bs \<le> PIPE_BUF_SIZE"
  shows "pipe_ok (pipe_put bs p)"
  using assms by (simp add: pipe_ok_def pipe_put_def pipe_write_commit_def)

lemma pipe_ok_read_commit: "pipe_ok p \<Longrightarrow> pipe_ok (pipe_read_commit p n)"
  by (auto simp: pipe_ok_def pipe_read_commit_def)

interpretation pipe_queue: byte_queue contents pipe_put "\<lambda>n p. ring_at (pdata p) (phead p) n"
  "\<lambda>n p. pipe_read_commit p n" pipe_ok PIPE_BUF_SIZE
  by unfold_locales
    (simp_all add: contents_pipe_put pipe_ok_put contents_read_commit pipe_ok_read_commit,
     simp add: contents_def ring_at_take)

section \<open>The copies\<close>

lemma pipe_copy_out_bytes:
  assumes "pipe_copy_out um buf p h n = (0, um')" "pipe_ok p" "h < PIPE_BUF_SIZE" "n \<le> PIPE_BUF_SIZE"
  shows "user_bytes um' buf n = ring_at (pdata p) h n"
proof -
  let ?f = "min (PIPE_BUF_SIZE - h) n"
  let ?xs = "take ?f (drop h (pdata p))" and ?ys = "take (n - ?f) (pdata p)"
  have l: "length (pdata p) = PIPE_BUF_SIZE" using assms(2) by (simp add: pipe_ok_def)
  then have lx: "length ?xs = ?f" and ly: "length ?ys = n - ?f" using assms by auto
  obtain r1 um1 where c1: "copy_to_user um buf ?xs = (r1, um1)" by fastforce
  have r1: "r1 = 0" using assms(1) c1 copy_to_user_cases [OF c1]
    by (auto simp: pipe_copy_out_def Let_def)
  have split: "?xs @ ?ys = ring_at (pdata p) h n" using ring_at_runs [OF l assms(3,4)] .
  have small: "PIPE_BUF_SIZE < 2 ^ 32" by (simp add: PIPE_BUF_SIZE_def)
  show ?thesis
  proof (cases "?f < n")
    case True
    with assms(1) c1 r1 have "copy_to_user um1 (buf + of_nat ?f) ?ys = (0, um')"
      by (simp add: pipe_copy_out_def Let_def split: if_splits)
    then have "user_bytes um' buf (length ?xs + length ?ys) = ?xs @ ?ys"
      using c1 r1 lx ly small assms(4) by (intro copy_to_user_bytes2) simp_all
    moreover have "length ?xs + length ?ys = n" unfolding lx ly using True by simp
    ultimately show ?thesis by (simp only: split)
  next
    case False
    then have f: "?f = n" by simp
    with assms(1) c1 r1 have "um' = um1" by (simp add: pipe_copy_out_def Let_def)
    then show ?thesis
      using copy_to_user_bytes [of um buf ?xs um1] c1 r1 lx f small assms(4) split by simp
  qed
qed

lemma pipe_copy_out_cases:
  assumes "pipe_copy_out um buf p h n = (r, um')"
  shows "r = 0 \<or> r = - EFAULT"
proof -
  let ?f = "min (PIPE_BUF_SIZE - h) n"
  obtain r1 um1 where c1: "copy_to_user um buf (take ?f (drop h (pdata p))) = (r1, um1)" by fastforce
  obtain r2 um2 where c2: "copy_to_user um1 (buf + of_nat ?f) (take (n - ?f) (pdata p)) = (r2, um2)"
    by fastforce
  show ?thesis
    using assms c1 c2 copy_to_user_cases [OF c1] copy_to_user_cases [OF c2]
    by (auto simp: pipe_copy_out_def Let_def split: if_splits)
qed

lemma ring_store_short: "length bs \<le> PIPE_BUF_SIZE - t \<Longrightarrow> ring_store d t bs = blit d t bs"
  by (simp add: ring_store_def)

lemma ring_store_wrap:
  "length bs1 = PIPE_BUF_SIZE - t \<Longrightarrow> ring_store d t (bs1 @ bs2) = blit (blit d t bs1) 0 bs2"
  by (simp add: ring_store_def)

lemma pipe_copy_in_bytes:
  assumes "pipe_copy_in um buf p t n = (r, p')"
  obtains bs where "length bs \<le> n" "p' = p\<lparr>pdata := ring_store (pdata p) t bs\<rparr>"
    "(r = 0 \<and> bs = user_bytes um buf n) \<or> (r = - EFAULT)"
proof -
  let ?f = "min (PIPE_BUF_SIZE - t) n"
  obtain r1 bs1 where c1: "copy_from_user um buf ?f = (r1, bs1)" by fastforce
  note res1 = copy_from_user_result [OF c1]
  show thesis
  proof (cases "r1 < 0")
    case True
    then have "p' = p\<lparr>pdata := blit (pdata p) t bs1\<rparr>" "r = - EFAULT" "length bs1 \<le> ?f"
      using assms c1 res1 by (auto simp: pipe_copy_in_def Let_def)
    then show thesis by (intro that [of bs1]) (simp_all add: ring_store_short)
  next
    case False
    then have b1: "bs1 = user_bytes um buf ?f" "r1 = 0" using res1 by auto
    show thesis
    proof (cases "?f < n")
      case True
      then have f: "?f = PIPE_BUF_SIZE - t" by auto
      obtain r2 bs2 where c2: "copy_from_user um (buf + of_nat ?f) (n - ?f) = (r2, bs2)" by fastforce
      note res2 = copy_from_user_result [OF c2]
      have l2: "length bs2 \<le> n - ?f" using res2 by auto
      have "p' = p\<lparr>pdata := blit (blit (pdata p) t bs1) 0 bs2\<rparr>" "r = r2"
        using assms c1 c2 b1(2) True by (auto simp: pipe_copy_in_def Let_def split: if_splits)
      then have "p' = p\<lparr>pdata := ring_store (pdata p) t (bs1 @ bs2)\<rparr>" "r = r2"
        using b1(1) f by (simp_all add: ring_store_wrap)
      moreover have "bs1 @ bs2 = user_bytes um buf n" if "r2 = 0"
        using res2 that b1(1) user_bytes_add [of um buf ?f "n - ?f"] True by auto
      moreover have "length (bs1 @ bs2) \<le> n" using l2 b1(1) True by simp
      ultimately show thesis using res2 by (intro that [of "bs1 @ bs2"]) auto
    next
      case False
      then have f: "?f = n" by simp
      then have "p' = p\<lparr>pdata := blit (pdata p) t bs1\<rparr>" "r = 0"
        using assms c1 b1(2) by (auto simp: pipe_copy_in_def Let_def)
      moreover have "length bs1 \<le> PIPE_BUF_SIZE - t" using b1(1) f by simp
      ultimately show thesis using b1(1) f by (intro that [of bs1]) (simp_all add: ring_store_short)
    qed
  qed
qed

section \<open>Calls that run alone\<close>

text \<open>What dropping the pin does to a pipe that still has an open end: nothing else.\<close>

lemma pipe_leave_open:
  "nreaders p > 0 \<or> nwriters p > 0 \<Longrightarrow> pipe_leave p = (p\<lparr>pins := pins p - 1\<rparr>, [])"
  by (auto simp: pipe_leave_def pipe_try_free_def Let_def)

lemma contents_pins [simp]: "contents (p\<lparr>pins := k\<rparr>) = contents p"
  by (simp add: contents_def)

lemma pipe_ok_pins [simp]: "pipe_ok (p\<lparr>pins := k\<rparr>) = pipe_ok p"
  by (simp add: pipe_ok_def)

lemma pipe_read_behaviour:
  assumes ok: "pipe_ok p" and op: "nreaders p > 0"
    and call: "pipe_read um p buf len nonblock sig = Some (r, um', p', ev)" and len: "0 < len"
  shows "contents p' = (if 0 < r then drop (nat r) (contents p) else contents p) \<and>
    (0 < r \<longrightarrow> r \<le> len \<and> user_bytes um' buf (nat r) = take (nat r) (contents p)) \<and>
    pins p' = pins p \<and> KFree \<notin> set ev \<and>
    (r \<le> 0 \<longrightarrow> r = - EFAULT \<and> contents p \<noteq> [] \<or> contents p = [] \<and>
       (r = 0 \<and> nwriters p = 0 \<or> r = - EAGAIN \<and> nonblock \<or> r = - EINTR \<and> sig))"
proof (cases "pcount p = 0")
  case True
  then have "contents p = []" by (simp flip: length_0_conv)
  with True call len op show ?thesis
    by (auto simp: pipe_read_def pipe_read_wait_def Let_def pipe_leave_open split: if_splits)
next
  case False
  let ?p = "p\<lparr>pins := pins p + 1\<rparr>" and ?n = "pipe_read_take p (nat len)"
  have n: "0 < ?n" "?n \<le> pcount p" "?n \<le> nat len" "pipe_read_take ?p (nat len) = ?n"
    using False len by (auto simp: pipe_read_take_def)
  obtain q um1 where c: "pipe_copy_out um buf ?p (phead p) ?n = (q, um1)" by fastforce
  have ne: "contents p \<noteq> []" using False by (simp flip: length_0_conv)
  have w: "pipe_read_wait ?p nonblock sig = Go" using False by (simp add: pipe_read_wait_def)
  have lv: "pipe_leave ?p = (p, [])" "pipe_leave (pipe_read_commit ?p ?n) = (pipe_read_commit p ?n, [])"
    using op by (simp_all add: pipe_leave_open pipe_read_commit_def)
  have q: "q = 0 \<or> q = - EFAULT" using pipe_copy_out_cases [OF c] .
  show ?thesis
  proof (cases "q < 0")
    case True
    then have "r = - EFAULT" "p' = p" "ev = []"
      using call len w c lv n by (auto simp: pipe_read_def Let_def)
    then show ?thesis using ne by simp
  next
    case False
    with q have c0: "pipe_copy_out um buf ?p (phead p) ?n = (0, um1)" using c by auto
    have "r = int ?n" "um' = um1" "p' = pipe_read_commit p ?n" "ev = [WakeUp, IoWakePoll]"
      using call len w c0 lv n by (auto simp: pipe_read_def Let_def)
    moreover have "user_bytes um1 buf ?n = ring_at (pdata p) (phead p) ?n"
      using pipe_copy_out_bytes [OF c0] ok n by (simp add: pipe_ok_def)
    ultimately show ?thesis
      using n contents_read_commit [OF n(2)]
      by (auto simp: contents_def ring_at_take pipe_read_commit_def)
  qed
qed

lemma pipe_write_put_bounds:
  assumes "pipe_ok p" "pcount p \<noteq> PIPE_BUF_SIZE" "0 < want"
  shows "0 < pipe_write_put p want" "pipe_write_put p want \<le> want"
    "pcount p + pipe_write_put p want \<le> PIPE_BUF_SIZE"
  using assms by (auto simp: pipe_write_put_def pipe_ok_def Let_def)

text \<open>One copy of a write: a complete one puts the bytes, a faulting one changes no content.\<close>

lemma pipe_copy_in_put:
  assumes "pipe_copy_in um buf p (pipe_tail p) n = (r, p1)" "pipe_ok p" "pcount p + n \<le> PIPE_BUF_SIZE"
  shows "(r = 0 \<and> pipe_write_commit p1 n = pipe_put (user_bytes um buf n) p) \<or>
         (r = - EFAULT \<and> contents p1 = contents p \<and> pipe_ok p1 \<and> (\<exists>d. p1 = p\<lparr>pdata := d\<rparr>))"
proof -
  obtain bs where bs: "length bs \<le> n" "p1 = p\<lparr>pdata := ring_store (pdata p) (pipe_tail p) bs\<rparr>"
    "(r = 0 \<and> bs = user_bytes um buf n) \<or> r = - EFAULT"
    using pipe_copy_in_bytes [OF assms(1)] .
  have "contents p1 = contents p" using bs assms by (simp add: contents_ring_store)
  moreover have "pipe_ok p1" using bs assms by (simp add: pipe_ok_def)
  ultimately show ?thesis using bs by (auto simp: pipe_put_def)
qed

lemma pipe_put_fields [simp]:
  "nreaders (pipe_put bs p) = nreaders p" "nwriters (pipe_put bs p) = nwriters p"
  "pins (pipe_put bs p) = pins p" "fifo (pipe_put bs p) = fifo p"
  "pcount (pipe_put bs p) = pcount p + length bs"
  by (simp_all add: pipe_put_def pipe_write_commit_def)

lemma pipe_write_wait_cases:
  "nreaders p > 0 \<Longrightarrow>
   (pcount p = PIPE_BUF_SIZE \<and> (pipe_write_wait p nb sig = Sleep \<and> \<not> nb \<and> \<not> sig \<or>
      pipe_write_wait p nb sig = Fail (- EAGAIN) \<and> nb \<or> pipe_write_wait p nb sig = Fail (- EINTR) \<and> sig)) \<or>
   (pcount p \<noteq> PIPE_BUF_SIZE \<and> pipe_write_wait p nb sig = Go)"
  by (auto simp: pipe_write_wait_def)

definition pipe_write_result ::
  "umem \<Rightarrow> pipe_buf \<Rightarrow> u32 \<Rightarrow> nat \<Rightarrow> nat \<Rightarrow> bool \<Rightarrow> bool \<Rightarrow> int \<times> pipe_buf \<times> pipe_ev list \<Rightarrow> bool" where
  "pipe_write_result um p buf n len nb sig x =
     (case x of (r, p', ev) \<Rightarrow>
        \<exists>k. n \<le> k \<and> k \<le> len \<and> contents p' = contents p @ user_bytes um (buf + of_nat n) (k - n) \<and>
          pipe_ok p' \<and> pins p' = pins p - 1 \<and> KFree \<notin> set ev \<and>
          (if k = 0 then r = - EFAULT \<or> r = - EAGAIN \<and> nb \<or> r = - EINTR \<and> sig else r = int k))"

lemma pipe_write_loop_result:
  assumes "pipe_ok p" "nreaders p > 0" "n < len" "len - n \<le> fuel"
  shows "case pipe_write_loop fuel um p buf n len nb sig of None \<Rightarrow> \<not> nb \<and> \<not> sig
         | Some x \<Rightarrow> pipe_write_result um p buf n len nb sig x"
  using assms
proof (induction fuel arbitrary: p n)
  case 0
  then show ?case by simp
next
  case (Suc fuel)
  note lv = pipe_leave_open
  show ?case
  proof (cases "pcount p = PIPE_BUF_SIZE")
    case True
    with pipe_write_wait_cases [OF Suc.prems(2), of nb sig] Suc.prems show ?thesis
      by (auto simp: pipe_write_fail_def lv pipe_write_result_def user_bytes_def intro!: exI [of _ n])
  next
    case False
    define put where "put = pipe_write_put p (len - n)"
    have b: "0 < put" "put \<le> len - n" "pcount p + put \<le> PIPE_BUF_SIZE"
      using pipe_write_put_bounds [OF Suc.prems(1) False] Suc.prems(3) by (auto simp: put_def)
    have w: "pipe_write_wait p nb sig = Go" using False by (simp add: pipe_write_wait_def)
    obtain r p1 where c: "pipe_copy_in um (buf + of_nat n) p (pipe_tail p) put = (r, p1)" by fastforce
    let ?bs = "user_bytes um (buf + of_nat n) put"
    have ok2: "pipe_ok (pipe_put ?bs p)" and ct2: "contents (pipe_put ?bs p) = contents p @ ?bs"
      using Suc.prems(1) b by (simp_all add: pipe_ok_put contents_pipe_put)
    from pipe_copy_in_put [OF c Suc.prems(1) b(3)] show ?thesis
    proof (elim disjE conjE exE)
      fix d assume "r = - EFAULT" "contents p1 = contents p" "pipe_ok p1" "p1 = p\<lparr>pdata := d\<rparr>"
      then show ?thesis
        using w c put_def Suc.prems
        by (auto simp: lv pipe_write_result_def user_bytes_def intro!: exI [of _ n])
    next
      assume r: "r = 0" and p2: "pipe_write_commit p1 put = pipe_put ?bs p"
      show ?thesis
      proof (cases "n + put = len")
        case True
        then show ?thesis
          using w c r p2 put_def [symmetric] Suc.prems ok2 ct2 b
          by (auto simp: lv pipe_write_result_def intro!: exI [of _ len])
      next
        case False
        let ?p = "pipe_put ?bs p" and ?n = "n + put"
        have eq: "pipe_write_loop (Suc fuel) um p buf n len nb sig =
            map_option (\<lambda>(x, p3, ev). (x, p3, WakeUp # IoWakePoll # ev))
              (pipe_write_loop fuel um ?p buf ?n len nb sig)"
          using w c r p2 put_def [symmetric] False by simp
        have "case pipe_write_loop fuel um ?p buf ?n len nb sig of None \<Rightarrow> \<not> nb \<and> \<not> sig
              | Some x \<Rightarrow> pipe_write_result um ?p buf ?n len nb sig x"
          using Suc.prems b False ok2 by (intro Suc.IH) simp_all
        moreover have "pipe_write_result um p buf n len nb sig (x, p3, WakeUp # IoWakePoll # ev)"
          if res: "pipe_write_result um ?p buf ?n len nb sig (x, p3, ev)" for x p3 ev
        proof -
          from res obtain k where k: "?n \<le> k" "k \<le> len" "pipe_ok p3" "pins p3 = pins p - 1"
            "contents p3 = contents p @ ?bs @ user_bytes um (buf + of_nat ?n) (k - ?n)"
            "KFree \<notin> set ev" "x = int k"
            using b(1) by (auto simp: pipe_write_result_def ct2 simp del: of_nat_add)
          then have "?bs @ user_bytes um (buf + of_nat ?n) (k - ?n) = user_bytes um (buf + of_nat n) (k - n)"
            using user_bytes_add [of um "buf + of_nat n" put "k - ?n"] by (simp add: add.assoc)
          with k b(1) show ?thesis
            unfolding pipe_write_result_def by (auto intro!: exI [of _ k] simp del: of_nat_add)
        qed
        ultimately show ?thesis unfolding eq by (auto split: option.splits)
      qed
    qed
  qed
qed

text \<open>C36: A read on a pipe with an open read end that returns hands over exactly the oldest bytes:
  when it returns r > 0, the caller's buffer holds the first r bytes of the pipe and the pipe
  keeps the rest; when it returns 0 or an error, the pipe keeps everything, and the result is
  0 (end of file) only when the pipe is empty with no writer, -EAGAIN or -EINTR only when it is
  empty, -EFAULT only when there was data. The pin is dropped and nothing is freed.\<close>

theorem pipe_read_correct:
  assumes "pipe_ok p" "nreaders p > 0"
    "pipe_read um p buf len nonblock sig = Some (r, um', p', ev)" "0 < len"
  shows "contents p' = (if 0 < r then drop (nat r) (contents p) else contents p) \<and>
    (0 < r \<longrightarrow> r \<le> len \<and> user_bytes um' buf (nat r) = take (nat r) (contents p)) \<and>
    pins p' = pins p \<and> KFree \<notin> set ev \<and>
    (r \<le> 0 \<longrightarrow> r = - EFAULT \<and> contents p \<noteq> [] \<or> contents p = [] \<and>
       (r = 0 \<and> nwriters p = 0 \<or> r = - EAGAIN \<and> nonblock \<or> r = - EINTR \<and> sig))"
  using assms by (rule pipe_read_behaviour)

definition pipe_example :: pipe_buf where
  "pipe_example =
     \<lparr>pdata = replicate 4096 8, phead = 4095, pcount = 3, nreaders = 1, nwriters = 1, fifo = False, pins = 0\<rparr>"

lemma pipe_ok_example: "pipe_ok pipe_example" "nreaders pipe_example = 1" "contents pipe_example = [8, 8, 8]"
  unfolding pipe_example_def
  by (simp_all add: pipe_ok_def PIPE_BUF_SIZE_def contents_def ring_at_def upt_rec)

theorem pipe_read_correct_witness:
  "\<exists>r um' p' ev. pipe_read um_all pipe_example 0x10000 1 False False = Some (r, um', p', ev) \<and>
     (0 < r \<longrightarrow> user_bytes um' 0x10000 (nat r) = take (nat r) [8, 8, 8])"
proof -
  have c: "pcount pipe_example = 3" using pipe_ok_example(3) length_contents [of pipe_example] by simp
  have "pipe_read um_all pipe_example 0x10000 1 False False \<noteq> None"
    using c by (simp add: pipe_read_def pipe_read_wait_def Let_def split: prod.split)
  then obtain r um' p' ev where call: "pipe_read um_all pipe_example 0x10000 1 False False = Some (r, um', p', ev)"
    by (cases "pipe_read um_all pipe_example 0x10000 1 False False") auto
  with pipe_read_correct [OF pipe_ok_example(1) _ call] pipe_ok_example show ?thesis by auto
qed

text \<open>C35: A write on a pipe with an open read end either sleeps (only a blocking call with no signal
  pending does) or returns with exactly its first k bytes appended to the pipe, in order; it
  returns k when k > 0, and otherwise -EFAULT, -EAGAIN (non-blocking) or -EINTR (signal). The
  loop ends within len passes, the pin is dropped and nothing is freed.\<close>

theorem pipe_write_correct:
  assumes "pipe_ok p" "nreaders p > 0" "0 < len"
  shows "case pipe_write um p buf len nonblock sig of None \<Rightarrow> \<not> nonblock \<and> \<not> sig
    | Some (r, p', ev) \<Rightarrow>
        \<exists>k. k \<le> nat len \<and> contents p' = contents p @ user_bytes um buf k \<and>
          pipe_ok p' \<and> pins p' = pins p \<and> KFree \<notin> set ev \<and>
          (if k = 0 then r = - EFAULT \<or> r = - EAGAIN \<and> nonblock \<or> r = - EINTR \<and> sig else r = int k)"
proof -
  let ?p = "p\<lparr>pins := pins p + 1\<rparr>"
  have "case pipe_write_loop (nat len) um ?p buf 0 (nat len) nonblock sig of
      None \<Rightarrow> \<not> nonblock \<and> \<not> sig | Some x \<Rightarrow> pipe_write_result um ?p buf 0 (nat len) nonblock sig x"
    using assms by (intro pipe_write_loop_result) simp_all
  then show ?thesis
    using assms by (auto simp: pipe_write_def Let_def pipe_write_result_def split: option.splits split del: if_split)
qed

theorem pipe_write_correct_witness:
  "case pipe_write um_all pipe_example 0x10000 5 True False of None \<Rightarrow> False
    | Some (r, p', ev) \<Rightarrow> \<exists>k \<le> 5. contents p' = [8, 8, 8] @ user_bytes um_all 0x10000 k"
  using pipe_write_correct [where p = pipe_example and len = 5 and um = um_all and buf = "0x10000" and nonblock = True and sig = False] pipe_ok_example
  by (auto split: option.splits)

end
