(* ===== verification/Pipe_Steps.thy ===== *)
theory Pipe_Steps
  imports Pipe
begin

text \<open>
  Any number of pipe calls at once. A call of proc/pipe.c is cut where it leaves the pipe's
  lock: at the sleep and around the user copies, which can fault and sleep. Each piece is
  one rule of \<open>pipe_step\<close>; every copy meets its own, arbitrary user memory. As pipe.h
  states, two readers, or two writers, of one pipe are kept apart across their copies; that
  is the guard of \<open>r_go\<close> and \<open>w_go\<close>. Ghost fields collect the bytes the writers handed over
  and the bytes that landed in the readers' buffers.
\<close>

section \<open>The step relation\<close>

datatype pipe_pc =
    Idle
  | RWait u32 nat bool
  | RSleep u32 nat bool
  | RCopy u32 nat nat
  | RCommit nat "u8 list"
  | WWait u32 nat nat bool
  | WSleep u32 nat nat bool
  | WCopy u32 nat nat bool nat nat
  | WCommit u32 nat nat bool nat "u8 list"

record pipe_sys =
  sp :: pipe_buf
  alive :: bool
  pc :: "nat \<Rightarrow> pipe_pc"
  wrote :: "u8 list"
  got :: "u8 list"

fun wake_pc :: "pipe_pc \<Rightarrow> pipe_pc" where
  "wake_pc (RSleep buf len nb) = RWait buf len nb"
| "wake_pc (WSleep buf n len nb) = WWait buf n len nb"
| "wake_pc c = c"

fun is_rcopy :: "pipe_pc \<Rightarrow> bool" where
  "is_rcopy (RCopy _ _ _) = True"
| "is_rcopy (RCommit _ _) = True"
| "is_rcopy _ = False"

fun is_wcopy :: "pipe_pc \<Rightarrow> bool" where
  "is_wcopy (WCopy _ _ _ _ _ _) = True"
| "is_wcopy (WCommit _ _ _ _ _ _) = True"
| "is_wcopy _ = False"

text \<open>
  The effect of a piece on the system: the pipe, the sleepers its wakeup moves, whether the
  buffer was freed, and, when a FIFO was emptied, the bytes nobody will read.
\<close>

definition set_pipe :: "pipe_buf \<times> pipe_ev list \<Rightarrow> pipe_sys \<Rightarrow> pipe_sys" where
  "set_pipe x s =
     (let (p', ev) = x in
      s\<lparr>sp := p', alive := (alive s \<and> KFree \<notin> set ev),
        pc := (if WakeUp \<in> set ev then (\<lambda>t. wake_pc (pc s t)) else pc s),
        wrote := take (length (wrote s) - (pcount (sp s) - pcount p')) (wrote s)\<rparr>)"

definition leave :: "nat \<Rightarrow> pipe_sys \<Rightarrow> pipe_sys" where
  "leave t s = set_pipe (pipe_leave (sp s)) (s\<lparr>pc := (pc s)(t := Idle)\<rparr>)"

definition wake_all :: "pipe_sys \<Rightarrow> pipe_sys" where
  "wake_all s = s\<lparr>pc := (\<lambda>t. wake_pc (pc s t))\<rparr>"

inductive pipe_step :: "pipe_sys \<Rightarrow> pipe_sys \<Rightarrow> bool" where
  r_enter: "alive s \<Longrightarrow> nreaders (sp s) > 0 \<Longrightarrow> pc s t = Idle \<Longrightarrow> 0 < len \<Longrightarrow>
    pipe_step s (s\<lparr>sp := (sp s)\<lparr>pins := pins (sp s) + 1\<rparr>, pc := (pc s)(t := RWait buf len nb)\<rparr>)"
| r_sleep: "pc s t = RWait buf len nb \<Longrightarrow> pipe_read_wait (sp s) nb sig = Sleep \<Longrightarrow>
    pipe_step s (s\<lparr>pc := (pc s)(t := RSleep buf len nb)\<rparr>)"
| r_wake: "pc s t = RSleep buf len nb \<Longrightarrow> pipe_step s (s\<lparr>pc := (pc s)(t := RWait buf len nb)\<rparr>)"
| r_fail: "pc s t = RWait buf len nb \<Longrightarrow> pipe_read_wait (sp s) nb sig = Fail e \<Longrightarrow> pipe_step s (leave t s)"
| r_go: "pc s t = RWait buf len nb \<Longrightarrow> pipe_read_wait (sp s) nb sig = Go \<Longrightarrow> \<forall>t'. \<not> is_rcopy (pc s t') \<Longrightarrow>
    pipe_step s (s\<lparr>pc := (pc s)(t := RCopy buf (pipe_read_take (sp s) len) (phead (sp s)))\<rparr>)"
| r_fault: "pc s t = RCopy buf n h \<Longrightarrow> pipe_copy_out um buf (sp s) h n = (r, um') \<Longrightarrow> r < 0 \<Longrightarrow>
    pipe_step s (leave t s)"
| r_copied: "pc s t = RCopy buf n h \<Longrightarrow> pipe_copy_out um buf (sp s) h n = (r, um') \<Longrightarrow> \<not> r < 0 \<Longrightarrow>
    pipe_step s (s\<lparr>pc := (pc s)(t := RCommit n (user_bytes um' buf n))\<rparr>)"
| r_commit: "pc s t = RCommit n bs \<Longrightarrow>
    pipe_step s (leave t (wake_all (s\<lparr>sp := pipe_read_commit (sp s) n, got := got s @ bs\<rparr>)))"
| w_enter: "alive s \<Longrightarrow> nwriters (sp s) > 0 \<Longrightarrow> pc s t = Idle \<Longrightarrow> 0 < len \<Longrightarrow> nreaders (sp s) \<noteq> 0 \<Longrightarrow>
    pipe_step s (s\<lparr>sp := (sp s)\<lparr>pins := pins (sp s) + 1\<rparr>, pc := (pc s)(t := WWait buf 0 len nb)\<rparr>)"
| w_epipe: "alive s \<Longrightarrow> nwriters (sp s) > 0 \<Longrightarrow> pc s t = Idle \<Longrightarrow> 0 < len \<Longrightarrow> nreaders (sp s) = 0 \<Longrightarrow>
    pipe_step s (leave t (s\<lparr>sp := (sp s)\<lparr>pins := pins (sp s) + 1\<rparr>, pc := (pc s)(t := WWait buf 0 len nb)\<rparr>))"
| w_sleep: "pc s t = WWait buf n len nb \<Longrightarrow> pipe_write_wait (sp s) nb sig = Sleep \<Longrightarrow>
    pipe_step s (s\<lparr>pc := (pc s)(t := WSleep buf n len nb)\<rparr>)"
| w_wake: "pc s t = WSleep buf n len nb \<Longrightarrow> pipe_step s (s\<lparr>pc := (pc s)(t := WWait buf n len nb)\<rparr>)"
| w_fail: "pc s t = WWait buf n len nb \<Longrightarrow> pipe_write_wait (sp s) nb sig = Fail e \<Longrightarrow> pipe_step s (leave t s)"
| w_go: "pc s t = WWait buf n len nb \<Longrightarrow> pipe_write_wait (sp s) nb sig = Go \<Longrightarrow> \<forall>t'. \<not> is_wcopy (pc s t') \<Longrightarrow>
    pipe_step s (s\<lparr>pc := (pc s)(t := WCopy buf n len nb (pipe_write_put (sp s) (len - n)) (pipe_tail (sp s)))\<rparr>)"
| w_fault: "pc s t = WCopy buf n len nb put tail \<Longrightarrow>
    pipe_copy_in um (buf + of_nat n) (sp s) tail put = (r, p') \<Longrightarrow> r < 0 \<Longrightarrow>
    pipe_step s (leave t (s\<lparr>sp := p'\<rparr>))"
| w_copied: "pc s t = WCopy buf n len nb put tail \<Longrightarrow>
    pipe_copy_in um (buf + of_nat n) (sp s) tail put = (r, p') \<Longrightarrow> \<not> r < 0 \<Longrightarrow>
    pipe_step s (s\<lparr>sp := p', pc := (pc s)(t := WCommit buf n len nb put (user_bytes um (buf + of_nat n) put))\<rparr>)"
| w_commit: "pc s t = WCommit buf n len nb put bs \<Longrightarrow> n + put \<noteq> len \<Longrightarrow>
    pipe_step s (wake_all (s\<lparr>sp := pipe_write_commit (sp s) put, pc := (pc s)(t := WWait buf (n + put) len nb),
      wrote := wrote s @ bs\<rparr>))"
| w_done: "pc s t = WCommit buf n len nb put bs \<Longrightarrow> n + put = len \<Longrightarrow>
    pipe_step s (leave t (wake_all (s\<lparr>sp := pipe_write_commit (sp s) put, wrote := wrote s @ bs\<rparr>)))"
| open_read: "alive s \<Longrightarrow> nreaders (sp s) > 0 \<or> fifo (sp s) \<Longrightarrow> pipe_step s (s\<lparr>sp := pipe_add_reader (sp s)\<rparr>)"
| open_write: "alive s \<Longrightarrow> nwriters (sp s) > 0 \<or> fifo (sp s) \<Longrightarrow> pipe_step s (s\<lparr>sp := pipe_add_writer (sp s)\<rparr>)"
| close_read: "alive s \<Longrightarrow> nreaders (sp s) > 0 \<Longrightarrow> pipe_step s (set_pipe (pipe_close_read (sp s)) s)"
| close_write: "alive s \<Longrightarrow> nwriters (sp s) > 0 \<Longrightarrow> pipe_step s (set_pipe (pipe_close_write (sp s)) s)"
| fifo_free: "alive s \<Longrightarrow> fifo (sp s) \<Longrightarrow> pipe_step s (set_pipe (pipe_fifo_free (sp s)) s)"

definition pipe_init :: "pipe_sys \<Rightarrow> bool" where
  "pipe_init s =
     ((\<exists>junk. length junk = PIPE_BUF_SIZE \<and>
        (pipe_alloc (Some junk) = Some (sp s) \<or> pipe_fifo_alloc (Some junk) = Some (sp s))) \<and>
      alive s \<and> pc s = (\<lambda>_. Idle) \<and> wrote s = [] \<and> got s = [])"

section \<open>The invariant\<close>

definition busy :: "pipe_sys \<Rightarrow> nat set" where
  "busy s = {t. pc s t \<noteq> Idle}"

fun pc_ok :: "pipe_buf \<Rightarrow> pipe_pc \<Rightarrow> bool" where
  "pc_ok p Idle = True"
| "pc_ok p (RWait buf len nb) = (0 < len)"
| "pc_ok p (RSleep buf len nb) = (0 < len \<and> pcount p = 0 \<and> nwriters p \<noteq> 0)"
| "pc_ok p (RCopy buf n h) = (h = phead p \<and> 0 < n \<and> n \<le> pcount p)"
| "pc_ok p (RCommit n bs) = (0 < n \<and> n \<le> pcount p \<and> bs = take n (contents p))"
| "pc_ok p (WWait buf n len nb) = (n < len)"
| "pc_ok p (WSleep buf n len nb) = (n < len \<and> pcount p = PIPE_BUF_SIZE \<and> nreaders p \<noteq> 0)"
| "pc_ok p (WCopy buf n len nb put tail) =
     (0 < put \<and> n + put \<le> len \<and> pcount p + put \<le> PIPE_BUF_SIZE \<and> tail = pipe_tail p)"
| "pc_ok p (WCommit buf n len nb put bs) =
     (0 < put \<and> n + put \<le> len \<and> pcount p + put \<le> PIPE_BUF_SIZE \<and> bs = ring_at (pdata p) (pipe_tail p) put)"

definition threads_ok :: "pipe_buf \<Rightarrow> (nat \<Rightarrow> pipe_pc) \<Rightarrow> bool" where
  "threads_ok p f =
     ((\<forall>t. pc_ok p (f t)) \<and>
      (\<forall>t t'. is_rcopy (f t) \<longrightarrow> is_rcopy (f t') \<longrightarrow> t = t') \<and>
      (\<forall>t t'. is_wcopy (f t) \<longrightarrow> is_wcopy (f t') \<longrightarrow> t = t'))"

definition life_ok :: "pipe_sys \<Rightarrow> bool" where
  "life_ok s =
     (finite (busy s) \<and> pins (sp s) = int (card (busy s)) \<and> (busy s \<noteq> {} \<longrightarrow> alive s) \<and>
      0 \<le> nreaders (sp s) \<and> 0 \<le> nwriters (sp s) \<and>
      (alive s \<and> \<not> fifo (sp s) \<and> busy s = {} \<longrightarrow> nreaders (sp s) > 0 \<or> nwriters (sp s) > 0))"

definition pipe_inv :: "pipe_sys \<Rightarrow> bool" where
  "pipe_inv s =
     (pipe_ok (sp s) \<and> threads_ok (sp s) (pc s) \<and> life_ok s \<and> wrote s = got s @ contents (sp s))"

subsection \<open>Threads\<close>

lemma wake_pc_Idle [simp]: "wake_pc c = Idle \<longleftrightarrow> c = Idle"
  by (cases c) auto

lemma wake_pc_copy [simp]: "is_rcopy (wake_pc c) = is_rcopy c" "is_wcopy (wake_pc c) = is_wcopy c"
  by (cases c; simp)+

lemma pipe_tail_counts [simp]:
  "pipe_tail (p\<lparr>pins := k\<rparr>) = pipe_tail p" "pipe_tail (p\<lparr>nreaders := i\<rparr>) = pipe_tail p"
  "pipe_tail (p\<lparr>nwriters := i\<rparr>) = pipe_tail p" "pipe_tail (p\<lparr>fifo := b\<rparr>) = pipe_tail p"
  by (simp_all add: pipe_tail_def)

lemma contents_counts [simp]:
  "contents (p\<lparr>nreaders := i\<rparr>) = contents p" "contents (p\<lparr>nwriters := i\<rparr>) = contents p"
  "contents (p\<lparr>fifo := b\<rparr>) = contents p"
  by (simp_all add: contents_def)

lemma pipe_ok_counts [simp]:
  "pipe_ok (p\<lparr>nreaders := i\<rparr>) = pipe_ok p" "pipe_ok (p\<lparr>nwriters := i\<rparr>) = pipe_ok p"
  "pipe_ok (p\<lparr>fifo := b\<rparr>) = pipe_ok p"
  by (simp_all add: pipe_ok_def)

lemma pc_ok_pins [simp]: "pc_ok (p\<lparr>pins := k\<rparr>) c = pc_ok p c"
  by (cases c) auto

lemma pc_ok_counts_wake:
  "pc_ok p c \<Longrightarrow> pc_ok (p\<lparr>nreaders := i\<rparr>) (wake_pc c)"
  "pc_ok p c \<Longrightarrow> pc_ok (p\<lparr>nwriters := i\<rparr>) (wake_pc c)"
  "pc_ok p (wake_pc c) \<Longrightarrow> pc_ok (p\<lparr>fifo := b\<rparr>) (wake_pc c)"
  by (cases c; auto)+

lemma pc_ok_wake_idem [simp]: "wake_pc (wake_pc c) = wake_pc c"
  by (cases c) auto

lemma pipe_tail_read_commit:
  assumes "n \<le> pcount p"
  shows "pipe_tail (pipe_read_commit p n) = pipe_tail p"
proof -
  have "((phead p + n) mod PIPE_BUF_SIZE + (pcount p - n)) mod PIPE_BUF_SIZE =
        (phead p + n + (pcount p - n)) mod PIPE_BUF_SIZE" by (rule mod_add_left_eq)
  also have "phead p + n + (pcount p - n) = phead p + pcount p" using assms by simp
  finally show ?thesis by (simp add: pipe_tail_def pipe_read_commit_def del: add_diff_assoc)
qed

lemma pc_ok_read_commit:
  "pc_ok p c \<Longrightarrow> \<not> is_rcopy c \<Longrightarrow> n \<le> pcount p \<Longrightarrow> pc_ok (pipe_read_commit p n) (wake_pc c)"
  by (cases c) (auto simp: pipe_tail_read_commit, auto simp: pipe_read_commit_def)

lemma pc_ok_write_commit:
  "pc_ok p c \<Longrightarrow> \<not> is_wcopy c \<Longrightarrow> pc_ok (pipe_write_commit p n) (wake_pc c)"
  by (cases c) (auto simp: contents_write_commit, auto simp: pipe_write_commit_def)

lemma pc_ok_store:
  "pc_ok p c \<Longrightarrow> \<not> is_wcopy c \<Longrightarrow> contents (p\<lparr>pdata := d\<rparr>) = contents p \<Longrightarrow> pc_ok (p\<lparr>pdata := d\<rparr>) c"
  by (cases c) auto

lemma threads_ok_pins [simp]: "threads_ok (p\<lparr>pins := k\<rparr>) f = threads_ok p f"
  by (simp add: threads_ok_def)

lemma threads_okI:
  assumes "threads_ok p f" "\<And>t'. t' \<noteq> t \<Longrightarrow> pc_ok p (f t') \<Longrightarrow> pc_ok p' (g t')" "pc_ok p' (g t)"
    "\<And>t'. t' \<noteq> t \<Longrightarrow> is_rcopy (g t') = is_rcopy (f t')" "\<And>t'. t' \<noteq> t \<Longrightarrow> is_wcopy (g t') = is_wcopy (f t')"
    "is_rcopy (g t) \<Longrightarrow> is_rcopy (f t) \<or> (\<forall>t'. \<not> is_rcopy (f t'))"
    "is_wcopy (g t) \<Longrightarrow> is_wcopy (f t) \<or> (\<forall>t'. \<not> is_wcopy (f t'))"
  shows "threads_ok p' g"
proof -
  have 1: "\<forall>u. pc_ok p' (g u)" using assms(1-3) by (metis threads_ok_def)
  have 2: "u = u'" if "is_rcopy (g u)" "is_rcopy (g u')" for u u'
    using assms(1,4,6) that by (metis threads_ok_def)
  have 3: "u = u'" if "is_wcopy (g u)" "is_wcopy (g u')" for u u'
    using assms(1,5,7) that by (metis threads_ok_def)
  show ?thesis using 1 2 3 by (auto simp: threads_ok_def)
qed

lemma threads_ok_pc: "threads_ok p f \<Longrightarrow> pc_ok p (f t)"
  by (simp add: threads_ok_def)

lemma threads_ok_other_reader: "threads_ok p f \<Longrightarrow> is_rcopy (f t) \<Longrightarrow> t' \<noteq> t \<Longrightarrow> \<not> is_rcopy (f t')"
  by (auto simp: threads_ok_def)

lemma threads_ok_other_writer: "threads_ok p f \<Longrightarrow> is_wcopy (f t) \<Longrightarrow> t' \<noteq> t \<Longrightarrow> \<not> is_wcopy (f t')"
  by (auto simp: threads_ok_def)

lemma threads_ok_Idle: "threads_ok p f \<Longrightarrow> threads_ok p (f(t := Idle))"
  by (rule threads_okI [where t = t]) auto

lemma threads_ok_wake: "threads_ok p f \<Longrightarrow> (\<And>t. pc_ok p (f t) \<Longrightarrow> pc_ok p' (wake_pc (f t))) \<Longrightarrow>
   threads_ok p' (\<lambda>t. wake_pc (f t))"
  by (auto simp: threads_ok_def)

lemma threads_ok_all_Idle: "threads_ok p (\<lambda>_. Idle)"
  by (simp add: threads_ok_def)

subsection \<open>Lifetime\<close>

lemma busy_upd: "pc s t \<noteq> Idle \<Longrightarrow> c \<noteq> Idle \<Longrightarrow> busy (s\<lparr>pc := (pc s)(t := c)\<rparr>) = busy s"
  by (auto simp: busy_def)

lemma life_ok_cong:
  assumes "life_ok s" "busy s' = busy s" "alive s' = alive s" "pins (sp s') = pins (sp s)"
    "nreaders (sp s') = nreaders (sp s)" "nwriters (sp s') = nwriters (sp s)" "fifo (sp s') = fifo (sp s)"
  shows "life_ok s'"
  using assms by (simp add: life_ok_def)

lemma pipe_inv_life: "pipe_inv s \<Longrightarrow> life_ok s"
  by (simp add: pipe_inv_def)

lemma life_ok_alive: "life_ok s \<Longrightarrow> pc s t \<noteq> Idle \<Longrightarrow> alive s"
  by (auto simp: life_ok_def busy_def)

lemma life_ok_enter:
  assumes "life_ok s" "alive s" "pc s t = Idle" "c \<noteq> Idle"
  shows "life_ok (s\<lparr>sp := (sp s)\<lparr>pins := pins (sp s) + 1\<rparr>, pc := (pc s)(t := c)\<rparr>)"
proof -
  have "busy (s\<lparr>sp := (sp s)\<lparr>pins := pins (sp s) + 1\<rparr>, pc := (pc s)(t := c)\<rparr>) = insert t (busy s)"
    "t \<notin> busy s"
    using assms by (auto simp: busy_def)
  then show ?thesis using assms by (simp add: life_ok_def)
qed

text \<open>The last piece of every call: dropping the pin, and freeing what nobody holds any more.\<close>

lemma leave_inv:
  assumes ok: "pipe_ok (sp s)" and th: "threads_ok (sp s) ((pc s)(t := Idle))" and life: "life_ok s"
    and t: "pc s t \<noteq> Idle" and w: "wrote s = got s @ contents (sp s)"
  shows "pipe_inv (leave t s)"
proof -
  let ?f = "(pc s)(t := Idle)"
  have al: "alive s" using life_ok_alive [OF life t] .
  have bt: "t \<in> busy s" and fin: "finite (busy s)" and pin: "pins (sp s) = int (card (busy s))"
    using t life by (auto simp: busy_def life_ok_def)
  have card: "card (busy s - {t}) = card (busy s) - 1" "0 < card (busy s)"
    using bt fin by (auto simp: card_gt_0_iff)
  have nn: "0 \<le> nreaders (sp s)" "0 \<le> nwriters (sp s)" using life by (auto simp: life_ok_def)
  have b': "{u. ?f u \<noteq> Idle} = busy s - {t}" by (auto simp: busy_def)
  show ?thesis
  proof (cases "pins (sp s) = 1")
    case False
    then have e: "pipe_leave (sp s) = ((sp s)\<lparr>pins := pins (sp s) - 1\<rparr>, [])"
      by (simp add: pipe_leave_def Let_def)
    have "busy s - {t} \<noteq> {}" using False pin card by (metis card.empty of_nat_1 diff_is_0_eq le_antisym Suc_leI One_nat_def)
    then show ?thesis
      using ok th w pin card al nn fin b'
      by (simp add: leave_def set_pipe_def e pipe_inv_def life_ok_def busy_def of_nat_diff)
  next
    case True
    then have emp: "busy s - {t} = {}" using pin card fin by simp
    then have idle: "?f = (\<lambda>_. Idle)" using b' by (intro ext) blast
    have p: "pins ((sp s)\<lparr>pins := pins (sp s) - 1\<rparr>) = 0" using True by simp
    show ?thesis
      using ok w al nn idle p
      by (auto simp: leave_def set_pipe_def pipe_leave_def pipe_try_free_def Let_def pipe_inv_def life_ok_def
          busy_def threads_ok_all_Idle pipe_ok_def contents_def ring_at_def)
  qed
qed

subsection \<open>Every step keeps it\<close>

lemma set_pipe_wake_inv:
  assumes inv: "pipe_inv s"
    and p: "p' = (sp s)\<lparr>nreaders := i, nwriters := j\<rparr>" "0 \<le> i" "0 \<le> j"
    and x: "x = (let (q, ev) = pipe_try_free p' in (q, [WakeUp, IoWakePoll] @ ev))" and al: "alive s"
  shows "pipe_inv (set_pipe x s)"
proof -
  have pin: "pins (sp s) = int (card (busy s))" "finite (busy s)" using inv by (auto simp: pipe_inv_def life_ok_def)
  have th: "threads_ok p' (\<lambda>t. wake_pc (pc s t))"
  proof (rule threads_ok_wake)
    show "threads_ok (sp s) (pc s)" using inv by (simp add: pipe_inv_def)
    show "pc_ok (sp s) (pc s t) \<Longrightarrow> pc_ok p' (wake_pc (pc s t))" for t
      using p by (cases "pc s t") auto
  qed
  have bw: "{t. wake_pc (pc s t) \<noteq> Idle} = busy s" by (simp add: busy_def)
  show ?thesis
  proof (cases "nreaders p' \<le> 0 \<and> nwriters p' \<le> 0 \<and> pins p' \<le> 0")
    case True
    then have "busy s = {}" using pin p by simp
    then have "(\<lambda>t. wake_pc (pc s t)) = (\<lambda>_. Idle)" by (intro ext) (auto simp: busy_def)
    with True inv x p show ?thesis
      by (auto simp: set_pipe_def pipe_try_free_def Let_def pipe_inv_def life_ok_def busy_def threads_ok_all_Idle
          pipe_ok_def contents_def ring_at_def)
  next
    case False
    have y: "\<exists>ev. x = (p', [WakeUp, IoWakePoll] @ ev) \<and> KFree \<notin> set ev"
      using False x by (auto simp: pipe_try_free_def)
    have "pipe_ok p'" "contents p' = contents (sp s)" "pins p' = pins (sp s)" "fifo p' = fifo (sp s)"
      "pcount p' = pcount (sp s)" using inv p by (simp_all add: pipe_inv_def)
    moreover have "nreaders p' > 0 \<or> nwriters p' > 0 \<or> busy s \<noteq> {}"
      using False pin p by auto
    ultimately show ?thesis
      using y th inv p al by (auto simp: set_pipe_def pipe_inv_def life_ok_def busy_def)
  qed
qed

lemma fifo_free_inv:
  assumes inv: "pipe_inv s" and al: "alive s"
  shows "pipe_inv (set_pipe (pipe_fifo_free (sp s)) s)"
proof -
  have pin: "pins (sp s) = int (card (busy s))" "finite (busy s)" using inv by (auto simp: pipe_inv_def life_ok_def)
  let ?p = "(sp s)\<lparr>fifo := False, nreaders := 0, nwriters := 0\<rparr>"
  have th: "threads_ok ?p (\<lambda>t. wake_pc (pc s t))" "threads_ok (sp s) (\<lambda>t. wake_pc (pc s t))"
  proof -
    have t: "threads_ok (sp s) (pc s)" using inv by (simp add: pipe_inv_def)
    then show "threads_ok ?p (\<lambda>t. wake_pc (pc s t))"
      by (rule threads_ok_wake) (case_tac "pc s t"; auto)
    show "threads_ok (sp s) (\<lambda>t. wake_pc (pc s t))"
      by (rule threads_ok_wake [OF t]) (case_tac "pc s t"; auto)
  qed
  show ?thesis
  proof (cases "pins (sp s) > 0")
    case True
    then have "busy s \<noteq> {}" using pin by auto
    with True th inv al show ?thesis
      by (auto simp: set_pipe_def pipe_fifo_free_def pipe_inv_def life_ok_def busy_def)
  next
    case False
    then have "busy s = {}" using pin by auto
    with False th inv show ?thesis
      by (auto simp: set_pipe_def pipe_fifo_free_def pipe_inv_def life_ok_def busy_def)
  qed
qed

lemma open_inv:
  assumes "pipe_inv s" "0 \<le> i" "0 \<le> j" "i \<ge> nreaders (sp s)" "j \<ge> nwriters (sp s)"
  shows "pipe_inv (s\<lparr>sp := (sp s)\<lparr>nreaders := i, nwriters := j\<rparr>\<rparr>)"
proof -
  have nn: "0 \<le> nreaders (sp s)" "0 \<le> nwriters (sp s)" using assms by (auto simp: pipe_inv_def life_ok_def)
  have "pc_ok (sp s) c \<Longrightarrow> pc_ok ((sp s)\<lparr>nreaders := i, nwriters := j\<rparr>) c" for c
    using nn assms(2-) by (cases c) auto
  then have "threads_ok ((sp s)\<lparr>nreaders := i, nwriters := j\<rparr>) (pc s)"
    using assms(1) by (auto simp: threads_ok_def pipe_inv_def)
  moreover have "life_ok (s\<lparr>sp := (sp s)\<lparr>nreaders := i, nwriters := j\<rparr>\<rparr>)"
    using assms by (auto simp: life_ok_def pipe_inv_def busy_def)
  ultimately show ?thesis using assms(1) by (simp add: pipe_inv_def)
qed

lemma local_inv:
  assumes inv: "pipe_inv s" and t: "pc s t \<noteq> Idle" and c: "c \<noteq> Idle" "pc_ok (sp s) c"
    "is_rcopy c \<Longrightarrow> is_rcopy (pc s t) \<or> (\<forall>t'. \<not> is_rcopy (pc s t'))"
    "is_wcopy c \<Longrightarrow> is_wcopy (pc s t) \<or> (\<forall>t'. \<not> is_wcopy (pc s t'))"
  shows "pipe_inv (s\<lparr>pc := (pc s)(t := c)\<rparr>)"
proof -
  have th: "threads_ok (sp s) (pc s)" using inv by (simp add: pipe_inv_def)
  have "threads_ok (sp s) ((pc s)(t := c))"
    using c by (intro threads_okI [OF th, of t]) auto
  moreover have "life_ok (s\<lparr>pc := (pc s)(t := c)\<rparr>)"
    using inv by (intro life_ok_cong [OF pipe_inv_life [OF inv]]) (simp_all add: busy_upd t c pipe_inv_def)
  ultimately show ?thesis using inv by (simp add: pipe_inv_def)
qed

lemma leave_now_inv:
  assumes "pipe_inv s" "pc s t \<noteq> Idle"
  shows "pipe_inv (leave t s)"
  using assms by (intro leave_inv) (auto simp: pipe_inv_def threads_ok_Idle)

lemma enter_inv:
  assumes "pipe_inv s" "alive s" "pc s t = Idle" "c \<noteq> Idle" "pc_ok (sp s) c" "\<not> is_rcopy c" "\<not> is_wcopy c"
  shows "pipe_inv (s\<lparr>sp := (sp s)\<lparr>pins := pins (sp s) + 1\<rparr>, pc := (pc s)(t := c)\<rparr>)"
proof -
  have th: "threads_ok (sp s) (pc s)" using assms(1) by (simp add: pipe_inv_def)
  have "threads_ok (sp s) ((pc s)(t := c))"
    using assms(4-) by (intro threads_okI [OF th, of t]) auto
  moreover note life_ok_enter [of s t c]
  ultimately show ?thesis using assms by (simp add: pipe_inv_def)
qed

lemma busy_wake: "busy (wake_all s) = busy s"
  by (simp add: busy_def wake_all_def)

lemma read_commit_inv:
  assumes inv: "pipe_inv s" and t: "pc s t = RCommit n bs"
  shows "pipe_inv (leave t (wake_all (s\<lparr>sp := pipe_read_commit (sp s) n, got := got s @ bs\<rparr>)))"
proof -
  let ?s = "wake_all (s\<lparr>sp := pipe_read_commit (sp s) n, got := got s @ bs\<rparr>)"
  have th: "threads_ok (sp s) (pc s)" using inv by (simp add: pipe_inv_def)
  have c: "n \<le> pcount (sp s)" "bs = take n (contents (sp s))" using threads_ok_pc [OF th, of t] t by auto
  have ot: "\<not> is_rcopy (pc s t')" if "t' \<noteq> t" for t'
    using threads_ok_other_reader [OF th _ that] t by simp
  have "threads_ok (pipe_read_commit (sp s) n) ((\<lambda>u. wake_pc (pc s u))(t := Idle))"
    using c ot by (intro threads_okI [OF th, of t]) (auto intro: pc_ok_read_commit)
  moreover have "life_ok ?s"
    using inv by (intro life_ok_cong [OF pipe_inv_life [OF inv]])
      (simp_all add: busy_wake pipe_inv_def wake_all_def busy_def pipe_read_commit_def)
  moreover have "wrote ?s = got ?s @ contents (sp ?s)"
    using inv c by (simp add: wake_all_def pipe_inv_def contents_read_commit)
  ultimately show ?thesis
    using inv t by (intro leave_inv) (simp_all add: wake_all_def pipe_inv_def pipe_ok_read_commit)
qed

lemma write_commit_parts:
  assumes inv: "pipe_inv s" and t: "pc s t = WCommit buf n len nb put bs"
  shows "pipe_ok (pipe_write_commit (sp s) put)"
    "wrote s @ bs = got s @ contents (pipe_write_commit (sp s) put)"
    "pc_ok (pipe_write_commit (sp s) put) c \<Longrightarrow> \<not> is_rcopy c \<Longrightarrow> \<not> is_wcopy c \<Longrightarrow>
     threads_ok (pipe_write_commit (sp s) put) ((\<lambda>u. wake_pc (pc s u))(t := c))"
proof -
  have th: "threads_ok (sp s) (pc s)" using inv by (simp add: pipe_inv_def)
  have c: "pcount (sp s) + put \<le> PIPE_BUF_SIZE" "bs = ring_at (pdata (sp s)) (pipe_tail (sp s)) put"
    using threads_ok_pc [OF th, of t] t by auto
  have ot: "\<not> is_wcopy (pc s t')" if "t' \<noteq> t" for t'
    using threads_ok_other_writer [OF th _ that] t by simp
  show "pipe_ok (pipe_write_commit (sp s) put)"
    using inv c by (simp add: pipe_inv_def pipe_ok_def pipe_write_commit_def)
  show "wrote s @ bs = got s @ contents (pipe_write_commit (sp s) put)"
    using inv c by (simp add: pipe_inv_def contents_write_commit)
  show "threads_ok (pipe_write_commit (sp s) put) ((\<lambda>u. wake_pc (pc s u))(t := c))"
    if "pc_ok (pipe_write_commit (sp s) put) c" "\<not> is_rcopy c" "\<not> is_wcopy c"
    using that ot by (intro threads_okI [OF th, of t]) (auto intro: pc_ok_write_commit)
qed

lemma write_done_inv:
  assumes inv: "pipe_inv s" and t: "pc s t = WCommit buf n len nb put bs"
  shows "pipe_inv (leave t (wake_all (s\<lparr>sp := pipe_write_commit (sp s) put, wrote := wrote s @ bs\<rparr>)))"
proof (rule leave_inv)
  let ?s = "wake_all (s\<lparr>sp := pipe_write_commit (sp s) put, wrote := wrote s @ bs\<rparr>)"
  note parts = write_commit_parts [OF inv t]
  show "pipe_ok (sp ?s)" "wrote ?s = got ?s @ contents (sp ?s)" using parts by (simp_all add: wake_all_def)
  show "threads_ok (sp ?s) ((pc ?s)(t := Idle))" using parts(3) [of Idle] by (simp add: wake_all_def)
  show "pc ?s t \<noteq> Idle" using t by (simp add: wake_all_def)
  show "life_ok ?s" using inv by (intro life_ok_cong [OF pipe_inv_life [OF inv]])
      (simp_all add: busy_wake pipe_inv_def wake_all_def busy_def pipe_write_commit_def)
qed

lemma write_more_inv:
  assumes inv: "pipe_inv s" and t: "pc s t = WCommit buf n len nb put bs" and more: "n + put \<noteq> len"
  shows "pipe_inv (wake_all (s\<lparr>sp := pipe_write_commit (sp s) put, pc := (pc s)(t := WWait buf (n + put) len nb),
    wrote := wrote s @ bs\<rparr>))"
proof -
  let ?w = "WWait buf (n + put) len nb"
  let ?s = "wake_all (s\<lparr>sp := pipe_write_commit (sp s) put, pc := (pc s)(t := ?w), wrote := wrote s @ bs\<rparr>)"
  note parts = write_commit_parts [OF inv t]
  have "pc_ok (sp s) (pc s t)" using inv by (simp add: pipe_inv_def threads_ok_def)
  then have "n + put < len" using t more by simp
  moreover have "(\<lambda>u. wake_pc (((pc s)(t := ?w)) u)) = (\<lambda>u. wake_pc (pc s u))(t := ?w)" by auto
  ultimately have "threads_ok (sp ?s) (pc ?s)" using parts(3) [of ?w] by (simp add: wake_all_def)
  moreover have "life_ok ?s" using inv t by (intro life_ok_cong [OF pipe_inv_life [OF inv]])
      (auto simp: pipe_inv_def wake_all_def busy_def pipe_write_commit_def)
  ultimately show ?thesis using parts(1,2) by (simp add: pipe_inv_def wake_all_def)
qed

lemma copy_in_threads:
  assumes inv: "pipe_inv s" and t: "pc s t = WCopy buf n len nb put tail"
    and p': "p' = (sp s)\<lparr>pdata := d\<rparr>" "contents p' = contents (sp s)"
    and c: "pc_ok p' c" "\<not> is_rcopy c"
  shows "threads_ok p' ((pc s)(t := c))"
proof -
  have th: "threads_ok (sp s) (pc s)" using inv by (simp add: pipe_inv_def)
  have "\<not> is_wcopy (pc s t')" if "t' \<noteq> t" for t'
    using threads_ok_other_writer [OF th _ that] t by simp
  then show ?thesis
    using p' c t by (intro threads_okI [OF th, of t]) (auto intro: pc_ok_store)
qed

lemma write_copy_parts:
  assumes inv: "pipe_inv s" and t: "pc s t = WCopy buf n len nb put tail"
    and c: "pipe_copy_in um a (sp s) tail put = (r, p')"
  obtains d where "p' = (sp s)\<lparr>pdata := d\<rparr>" "contents p' = contents (sp s)" "pipe_ok p'"
    "r = 0 \<longrightarrow> ring_at d (pipe_tail (sp s)) put = user_bytes um a put" "r = 0 \<or> r = - EFAULT"
proof -
  have ok: "pipe_ok (sp s)" and th: "threads_ok (sp s) (pc s)" using inv by (auto simp: pipe_inv_def)
  have pc: "pcount (sp s) + put \<le> PIPE_BUF_SIZE" "tail = pipe_tail (sp s)"
    using threads_ok_pc [OF th, of t] t by auto
  obtain bs where bs: "length bs \<le> put" "p' = (sp s)\<lparr>pdata := ring_store (pdata (sp s)) tail bs\<rparr>"
    "(r = 0 \<and> bs = user_bytes um a put) \<or> r = - EFAULT"
    using pipe_copy_in_bytes [OF c] .
  have "contents p' = contents (sp s)" using bs pc ok by (simp add: contents_ring_store)
  moreover have "pipe_ok p'" using bs pc ok by (simp add: pipe_ok_def)
  moreover have "ring_at (ring_store (pdata (sp s)) tail bs) (pipe_tail (sp s)) put = user_bytes um a put"
    if "r = 0" using bs that pc ok ring_at_store [OF ok, of bs] by auto
  ultimately show thesis using bs that by blast
qed

lemma write_fault_inv:
  assumes inv: "pipe_inv s" and t: "pc s t = WCopy buf n len nb put tail"
    and c: "pipe_copy_in um a (sp s) tail put = (r, p')"
  shows "pipe_inv (leave t (s\<lparr>sp := p'\<rparr>))"
proof -
  obtain d where d: "p' = (sp s)\<lparr>pdata := d\<rparr>" "contents p' = contents (sp s)" "pipe_ok p'"
    by (rule write_copy_parts [OF inv t c])
  have "life_ok (s\<lparr>sp := p'\<rparr>)"
    using d by (intro life_ok_cong [OF pipe_inv_life [OF inv]]) (simp_all add: busy_def)
  then show ?thesis
    using d t inv copy_in_threads [OF inv t d(1,2), of Idle]
    by (intro leave_inv) (simp_all add: pipe_inv_def)
qed

lemma write_copied_inv:
  assumes inv: "pipe_inv s" and t: "pc s t = WCopy buf n len nb put tail"
    and c: "pipe_copy_in um a (sp s) tail put = (r, p')" and r: "\<not> r < 0"
  shows "pipe_inv (s\<lparr>sp := p', pc := (pc s)(t := WCommit buf n len nb put (user_bytes um a put))\<rparr>)"
proof -
  obtain d where d: "p' = (sp s)\<lparr>pdata := d\<rparr>" "contents p' = contents (sp s)" "pipe_ok p'"
    "r = 0 \<longrightarrow> ring_at d (pipe_tail (sp s)) put = user_bytes um a put" "r = 0 \<or> r = - EFAULT"
    using write_copy_parts [OF inv t c] .
  have "pc_ok (sp s) (pc s t)" using inv by (simp add: pipe_inv_def threads_ok_def)
  then have "pc_ok p' (WCommit buf n len nb put (user_bytes um a put))" using d r t by auto
  from copy_in_threads [OF inv t d(1,2) this]
  have "threads_ok p' ((pc s)(t := WCommit buf n len nb put (user_bytes um a put)))" by simp
  moreover have "life_ok (s\<lparr>sp := p', pc := (pc s)(t := WCommit buf n len nb put (user_bytes um a put))\<rparr>)"
    using d t by (intro life_ok_cong [OF pipe_inv_life [OF inv]]) (auto simp: busy_def)
  ultimately show ?thesis using inv d by (simp add: pipe_inv_def)
qed

lemma read_copied_inv:
  assumes inv: "pipe_inv s" and t: "pc s t = RCopy buf n h"
    and c: "pipe_copy_out um buf (sp s) h n = (r, um')" and r: "\<not> r < 0"
  shows "pipe_inv (s\<lparr>pc := (pc s)(t := RCommit n (user_bytes um' buf n))\<rparr>)"
proof -
  have ok: "pipe_ok (sp s)" and th: "threads_ok (sp s) (pc s)" using inv by (auto simp: pipe_inv_def)
  have pc: "h = phead (sp s)" "0 < n" "n \<le> pcount (sp s)" using threads_ok_pc [OF th, of t] t by auto
  have "r = 0" using pipe_copy_out_cases [OF c] r by auto
  then have "user_bytes um' buf n = take n (contents (sp s))"
    using pipe_copy_out_bytes [of um buf "sp s" h n um'] c ok pc
    by (simp add: pipe_ok_def contents_def ring_at_take)
  then show ?thesis using inv t pc by (intro local_inv) auto
qed

lemma pipe_step_inv:
  assumes "pipe_step s s'" "pipe_inv s" and nn: "0 \<le> nreaders (sp s)" "0 \<le> nwriters (sp s)"
  shows "pipe_inv s'"
  using assms(1)
proof (cases rule: pipe_step.cases)
  case (r_enter t len buf nb)
  then show ?thesis using assms(2) by (simp add: enter_inv)
next
  case (r_sleep t buf len nb sig)
  moreover have "0 < len" using assms(2) r_sleep threads_ok_pc [of "sp s" "pc s" t] by (simp add: pipe_inv_def)
  ultimately show ?thesis
    using assms(2) by (auto simp: pipe_read_wait_def split: if_splits intro!: local_inv)
next
  case (r_wake t buf len nb)
  moreover have "0 < len" using assms(2) r_wake threads_ok_pc [of "sp s" "pc s" t] by (simp add: pipe_inv_def)
  ultimately show ?thesis using assms(2) by (auto intro!: local_inv)
next
  case (r_fail t buf len nb sig e)
  then show ?thesis using assms(2) by (simp add: leave_now_inv)
next
  case (r_go t buf len nb sig)
  moreover have "0 < len" using assms(2) r_go threads_ok_pc [of "sp s" "pc s" t] by (simp add: pipe_inv_def)
  ultimately show ?thesis
    using assms(2) by (auto simp: pipe_read_wait_def pipe_read_take_def split: if_splits intro!: local_inv)
next
  case (r_fault t buf n h um r um')
  then show ?thesis using assms(2) by (simp add: leave_now_inv)
next
  case (r_copied t buf n h um r um')
  then show ?thesis using assms(2) by (simp add: read_copied_inv)
next
  case (r_commit t n bs)
  then show ?thesis using assms(2) by (simp add: read_commit_inv)
next
  case (w_enter t len buf nb)
  then show ?thesis using assms(2) by (simp add: enter_inv)
next
  case (w_epipe t len buf nb)
  then show ?thesis using assms(2) enter_inv [of s t "WWait buf 0 len nb"] by (simp add: leave_now_inv)
next
  case (w_sleep t buf n len nb sig)
  moreover have "n < len" using assms(2) w_sleep threads_ok_pc [of "sp s" "pc s" t] by (simp add: pipe_inv_def)
  ultimately show ?thesis
    using assms(2) by (auto simp: pipe_write_wait_def split: if_splits intro!: local_inv)
next
  case (w_wake t buf n len nb)
  moreover have "n < len" using assms(2) w_wake threads_ok_pc [of "sp s" "pc s" t] by (simp add: pipe_inv_def)
  ultimately show ?thesis using assms(2) by (auto intro!: local_inv)
next
  case (w_fail t buf n len nb sig e)
  then show ?thesis using assms(2) by (simp add: leave_now_inv)
next
  case (w_go t buf n len nb sig)
  have n: "n < len" using assms(2) w_go threads_ok_pc [of "sp s" "pc s" t] by (simp add: pipe_inv_def)
  have "pcount (sp s) \<noteq> PIPE_BUF_SIZE" using w_go by (auto simp: pipe_write_wait_def split: if_splits)
  then have "0 < pipe_write_put (sp s) (len - n)" "pipe_write_put (sp s) (len - n) \<le> len - n"
    "pcount (sp s) + pipe_write_put (sp s) (len - n) \<le> PIPE_BUF_SIZE"
    using assms(2) n pipe_write_put_bounds [of "sp s" "len - n"] by (simp_all add: pipe_inv_def)
  then show ?thesis using assms(2) w_go n by (auto intro!: local_inv)
next
  case (w_fault t buf n len nb put tail um r p')
  then show ?thesis using assms(2) by (simp add: write_fault_inv)
next
  case (w_copied t buf n len nb put tail um r p')
  then show ?thesis using assms(2) by (simp add: write_copied_inv)
next
  case (w_commit t buf n len nb put bs)
  then show ?thesis using assms(2) by (simp add: write_more_inv)
next
  case (w_done t buf n len nb put bs)
  then show ?thesis using assms(2) by (simp add: write_done_inv)
next
  case open_read
  then show ?thesis
    using nn open_inv [OF assms(2), of "nreaders (sp s) + 1" "nwriters (sp s)"]
    by (simp add: pipe_add_reader_def)
next
  case open_write
  then show ?thesis
    using nn open_inv [OF assms(2), of "nreaders (sp s)" "nwriters (sp s) + 1"]
    by (simp add: pipe_add_writer_def)
next
  case close_read
  then show ?thesis
    using nn by (auto simp: pipe_close_read_def
        intro!: set_pipe_wake_inv [OF assms(2), where i = "nreaders (sp s) - 1" and j = "nwriters (sp s)"])
next
  case close_write
  then show ?thesis
    using nn by (auto simp: pipe_close_write_def
        intro!: set_pipe_wake_inv [OF assms(2), where i = "nreaders (sp s)" and j = "nwriters (sp s) - 1"])
next
  case fifo_free
  then show ?thesis using assms(2) by (simp add: fifo_free_inv)
qed

interpretation pipe_system: transition_invariant pipe_init pipe_step pipe_inv
proof
  fix s assume "pipe_init s"
  then show "pipe_inv s"
    by (auto simp: pipe_init_def pipe_alloc_def pipe_fifo_alloc_def pipe_inv_def pipe_ok_def threads_ok_all_Idle
        life_ok_def busy_def contents_def ring_at_def dest!: sym [of _ "sp s"])
next
  fix s s' assume "pipe_inv s" "pipe_step s s'"
  then show "pipe_inv s'" using pipe_step_inv by (auto simp: pipe_inv_def life_ok_def)
qed

section \<open>Properties of every interleaving\<close>



text \<open>C33: No wakeup is lost: a reader is only ever asleep while the ring is empty and a writer
  exists, and a writer is only ever asleep while the ring is full and a reader exists.\<close>

theorem pipe_no_lost_wakeup:
  assumes "pipe_init s0" "pipe_step\<^sup>*\<^sup>* s0 s"
  shows "(pc s t = RSleep buf len nb \<longrightarrow> contents (sp s) = [] \<and> nwriters (sp s) > 0) \<and>
    (pc s t = WSleep buf n len nb \<longrightarrow> length (contents (sp s)) = PIPE_BUF_SIZE \<and> nreaders (sp s) > 0)"
proof -
  have inv: "pipe_inv s" using pipe_system.inv_reachable [OF assms] .
  then have "pc_ok (sp s) (pc s t)" "0 \<le> nreaders (sp s)" "0 \<le> nwriters (sp s)"
    by (auto simp: pipe_inv_def threads_ok_def life_ok_def)
  then show ?thesis by (auto simp flip: length_0_conv)
qed

definition pipe_sys_example :: pipe_sys where
  "pipe_sys_example =
     \<lparr>sp = \<lparr>pdata = replicate 4096 0, phead = 0, pcount = 0, nreaders = 1, nwriters = 1, fifo = False, pins = 0\<rparr>,
      alive = True, pc = (\<lambda>_. Idle), wrote = [], got = []\<rparr>"

definition pipe_sys_reading :: pipe_sys where
  "pipe_sys_reading =
     pipe_sys_example\<lparr>sp := (sp pipe_sys_example)\<lparr>pins := 1\<rparr>, pc := (\<lambda>_. Idle)(7 := RSleep 0x10000 5 False)\<rparr>"

lemma pipe_init_example: "pipe_init pipe_sys_example"
  by (auto simp: pipe_init_def pipe_sys_example_def pipe_alloc_def PIPE_BUF_SIZE_def
      intro!: exI [of _ "replicate 4096 0"])

lemma pipe_steps_example: "pipe_step\<^sup>*\<^sup>* pipe_sys_example pipe_sys_reading"
proof -
  let ?m = "pipe_sys_example\<lparr>sp := (sp pipe_sys_example)\<lparr>pins := 1\<rparr>, pc := (\<lambda>_. Idle)(7 := RWait 0x10000 5 False)\<rparr>"
  have "pipe_step pipe_sys_example ?m"
    using r_enter [of pipe_sys_example 7 5 "0x10000" False] by (simp add: pipe_sys_example_def)
  moreover have "pipe_step ?m pipe_sys_reading"
    using r_sleep [of ?m 7 "0x10000" 5 False False]
    by (simp add: pipe_sys_example_def pipe_sys_reading_def pipe_read_wait_def)
  ultimately show ?thesis by auto
qed



theorem pipe_no_lost_wakeup_witness:
  "pc pipe_sys_reading 7 = RSleep 0x10000 5 False \<and> contents (sp pipe_sys_reading) = [] \<and>
   nwriters (sp pipe_sys_reading) > 0"
  using pipe_no_lost_wakeup [OF pipe_init_example pipe_steps_example, of 7 "0x10000" 5 False]
  by (simp add: pipe_sys_reading_def)

end
