(* ===== verification/Seccomp_BPF.thy ===== *)
theory Seccomp_BPF
  imports Prelude
begin

text \<open>
  The classic BPF machine of proc/seccomp.c: the instruction filter \<open>insn_allowed\<close>, the
  validator \<open>seccomp_validate\<close> with its data-flow pass over the scratch cells, and the
  interpreter \<open>seccomp_run\<close>. In the interpreter every access the C code would make outside
  an array, a division by zero and a shift by 32 or more are explicit faults, and the loop
  has fuel; validated programs neither fault nor run out of it.
\<close>

section \<open>Instructions\<close>

record sock_filter =
  sf_code :: u16
  sf_jt :: u8
  sf_jf :: u8
  sf_k :: u32

text \<open>The opcodes of the two switches, as the source composes them from class, size, mode and operation.\<close>

abbreviation (input) LD_W_ABS :: u16 where "LD_W_ABS \<equiv> 0x20"
abbreviation (input) LD_W_LEN :: u16 where "LD_W_LEN \<equiv> 0x80"
abbreviation (input) LDX_W_LEN :: u16 where "LDX_W_LEN \<equiv> 0x81"
abbreviation (input) RET_K :: u16 where "RET_K \<equiv> 0x06"
abbreviation (input) RET_A :: u16 where "RET_A \<equiv> 0x16"
abbreviation (input) ALU_NEG :: u16 where "ALU_NEG \<equiv> 0x84"
abbreviation (input) LD_IMM :: u16 where "LD_IMM \<equiv> 0x00"
abbreviation (input) LDX_IMM :: u16 where "LDX_IMM \<equiv> 0x01"
abbreviation (input) MISC_TAX :: u16 where "MISC_TAX \<equiv> 0x07"
abbreviation (input) MISC_TXA :: u16 where "MISC_TXA \<equiv> 0x87"
abbreviation (input) JMP_JA :: u16 where "JMP_JA \<equiv> 0x05"
abbreviation (input) LD_MEM :: u16 where "LD_MEM \<equiv> 0x60"
abbreviation (input) LDX_MEM :: u16 where "LDX_MEM \<equiv> 0x61"
abbreviation (input) BPF_ST :: u16 where "BPF_ST \<equiv> 0x02"
abbreviation (input) BPF_STX :: u16 where "BPF_STX \<equiv> 0x03"
abbreviation (input) ADD_K :: u16 where "ADD_K \<equiv> 0x04"
abbreviation (input) ADD_X :: u16 where "ADD_X \<equiv> 0x0c"
abbreviation (input) SUB_K :: u16 where "SUB_K \<equiv> 0x14"
abbreviation (input) SUB_X :: u16 where "SUB_X \<equiv> 0x1c"
abbreviation (input) MUL_K :: u16 where "MUL_K \<equiv> 0x24"
abbreviation (input) MUL_X :: u16 where "MUL_X \<equiv> 0x2c"
abbreviation (input) DIV_K :: u16 where "DIV_K \<equiv> 0x34"
abbreviation (input) DIV_X :: u16 where "DIV_X \<equiv> 0x3c"
abbreviation (input) OR_K :: u16 where "OR_K \<equiv> 0x44"
abbreviation (input) OR_X :: u16 where "OR_X \<equiv> 0x4c"
abbreviation (input) AND_K :: u16 where "AND_K \<equiv> 0x54"
abbreviation (input) AND_X :: u16 where "AND_X \<equiv> 0x5c"
abbreviation (input) LSH_K :: u16 where "LSH_K \<equiv> 0x64"
abbreviation (input) LSH_X :: u16 where "LSH_X \<equiv> 0x6c"
abbreviation (input) RSH_K :: u16 where "RSH_K \<equiv> 0x74"
abbreviation (input) RSH_X :: u16 where "RSH_X \<equiv> 0x7c"
abbreviation (input) XOR_K :: u16 where "XOR_K \<equiv> 0xa4"
abbreviation (input) XOR_X :: u16 where "XOR_X \<equiv> 0xac"
abbreviation (input) JEQ_K :: u16 where "JEQ_K \<equiv> 0x15"
abbreviation (input) JEQ_X :: u16 where "JEQ_X \<equiv> 0x1d"
abbreviation (input) JGT_K :: u16 where "JGT_K \<equiv> 0x25"
abbreviation (input) JGT_X :: u16 where "JGT_X \<equiv> 0x2d"
abbreviation (input) JGE_K :: u16 where "JGE_K \<equiv> 0x35"
abbreviation (input) JGE_X :: u16 where "JGE_X \<equiv> 0x3d"
abbreviation (input) JSET_K :: u16 where "JSET_K \<equiv> 0x45"
abbreviation (input) JSET_X :: u16 where "JSET_X \<equiv> 0x4d"

abbreviation (input) BPF_MEMWORDS :: nat where "BPF_MEMWORDS \<equiv> 16"
abbreviation (input) SECCOMP_DATA_SIZE :: u32 where "SECCOMP_DATA_SIZE \<equiv> 64"
abbreviation (input) SECCOMP_MAX_INSNS :: nat where "SECCOMP_MAX_INSNS \<equiv> 4096"

definition BPF_CLASS :: "u16 \<Rightarrow> u16" where
  "BPF_CLASS c = c AND 0x07"

section \<open>Validation\<close>

definition insn_allowed :: "sock_filter \<Rightarrow> bool" where
  "insn_allowed f =
     (let c = sf_code f in
      if c = LD_W_ABS then sf_k f < SECCOMP_DATA_SIZE \<and> sf_k f AND 3 = 0
      else if c \<in> {LD_W_LEN, LDX_W_LEN, RET_K, RET_A, ALU_NEG, LD_IMM, LDX_IMM, MISC_TAX, MISC_TXA, JMP_JA} then True
      else if c \<in> {LD_MEM, LDX_MEM, BPF_ST, BPF_STX} then sf_k f < 16
      else if c = DIV_K then sf_k f \<noteq> 0
      else if c \<in> {LSH_K, RSH_K} then sf_k f < 32
      else c \<in> {ADD_K, ADD_X, SUB_K, SUB_X, MUL_K, MUL_X, DIV_X, AND_K, AND_X, OR_K, OR_X, XOR_K, XOR_X,
                LSH_X, RSH_X, JEQ_K, JEQ_X, JGT_K, JGT_X, JGE_K, JGE_X, JSET_K, JSET_X})"

definition is_cond_jump :: "u16 \<Rightarrow> bool" where
  "is_cond_jump c = (BPF_CLASS c = 0x05 \<and> c AND 0xf0 \<noteq> 0)"

text \<open>The first loop; what is left of the list is what the source computes as \<open>left\<close>.\<close>

fun validate_insns :: "sock_filter list \<Rightarrow> bool" where
  "validate_insns [] = True"
| "validate_insns (f # rest) =
     (insn_allowed f \<and>
      (if sf_code f = JMP_JA then unat (sf_k f) < length rest
       else if is_cond_jump (sf_code f) then unat (sf_jt f) < length rest \<and> unat (sf_jf f) < length rest
       else True) \<and>
      validate_insns rest)"

definition cell_bit :: "sock_filter \<Rightarrow> u16" where
  "cell_bit f = push_bit (unat (sf_k f)) 1"

text \<open>
  The data-flow pass: \<open>known\<close> is the array of the cells written on every path into an
  instruction; None is the exit with -EINVAL.
\<close>

fun known_pass :: "sock_filter list \<Rightarrow> nat \<Rightarrow> u16 list \<Rightarrow> u16 list option" where
  "known_pass [] pc known = Some known"
| "known_pass (f # rest) pc known =
     (let have = (if sf_code f = BPF_ST \<or> sf_code f = BPF_STX then known ! pc OR cell_bit f else known ! pc) in
      if (sf_code f = LD_MEM \<or> sf_code f = LDX_MEM) \<and> have AND cell_bit f = 0 then None
      else if BPF_CLASS (sf_code f) = 0x06 then known_pass rest (pc + 1) known
      else if sf_code f = JMP_JA then
        (let i = pc + 1 + unat (sf_k f) in known_pass rest (pc + 1) (known[i := known ! i AND have]))
      else if is_cond_jump (sf_code f) then
        (let i = pc + 1 + unat (sf_jt f); known1 = known[i := known ! i AND have]; j = pc + 1 + unat (sf_jf f)
         in known_pass rest (pc + 1) (known1[j := known1 ! j AND have]))
      else known_pass rest (pc + 1) (known[pc + 1 := known ! (pc + 1) AND have]))"

text \<open>\<open>mem\<close>: whether kmalloc found room for the array.\<close>

definition seccomp_validate :: "sock_filter list \<Rightarrow> bool \<Rightarrow> int" where
  "seccomp_validate prog mem =
     (let len = length prog in
      if len = 0 \<or> len > SECCOMP_MAX_INSNS then - EINVAL
      else if \<not> validate_insns prog then - EINVAL
      else if BPF_CLASS (sf_code (prog ! (len - 1))) \<noteq> 0x06 then - EINVAL
      else if \<not> mem then - ENOMEM
      else case known_pass prog 0 ((replicate len 0xffff)[0 := 0]) of None \<Rightarrow> - EINVAL | Some _ \<Rightarrow> 0)"

section \<open>Evaluation\<close>

text \<open>One instruction: go on past \<open>skip\<close> further ones, return, or fault.\<close>

datatype bpf_out = Next u32 u32 "u32 list" nat | Ret u32 | Fault

definition load_data :: "u32 list \<Rightarrow> u32 \<Rightarrow> u32 option" where
  "load_data d i = (if unat i < length d then Some (d ! unat i) else None)"

definition bpf_jump :: "sock_filter \<Rightarrow> bool \<Rightarrow> nat" where
  "bpf_jump f b = (if b then unat (sf_jt f) else unat (sf_jf f))"

definition bpf_step :: "sock_filter \<Rightarrow> u32 list \<Rightarrow> u32 \<Rightarrow> u32 \<Rightarrow> u32 list \<Rightarrow> bpf_out" where
  "bpf_step f data A X M =
     (let c = sf_code f; kk = sf_k f in
      if c = LD_W_ABS then (case load_data data (drop_bit 2 kk) of None \<Rightarrow> Fault | Some v \<Rightarrow> Next v X M 0)
      else if c = LD_W_LEN then Next SECCOMP_DATA_SIZE X M 0
      else if c = LDX_W_LEN then Next A SECCOMP_DATA_SIZE M 0
      else if c = LD_IMM then Next kk X M 0
      else if c = LDX_IMM then Next A kk M 0
      else if c = LD_MEM then (case load_data M kk of None \<Rightarrow> Fault | Some v \<Rightarrow> Next v X M 0)
      else if c = LDX_MEM then (case load_data M kk of None \<Rightarrow> Fault | Some v \<Rightarrow> Next A v M 0)
      else if c = BPF_ST then (if unat kk < length M then Next A X (M[unat kk := A]) 0 else Fault)
      else if c = BPF_STX then (if unat kk < length M then Next A X (M[unat kk := X]) 0 else Fault)
      else if c = MISC_TAX then Next A A M 0
      else if c = MISC_TXA then Next X X M 0
      else if c = ADD_K then Next (A + kk) X M 0
      else if c = ADD_X then Next (A + X) X M 0
      else if c = SUB_K then Next (A - kk) X M 0
      else if c = SUB_X then Next (A - X) X M 0
      else if c = MUL_K then Next (A * kk) X M 0
      else if c = MUL_X then Next (A * X) X M 0
      else if c = DIV_K then (if kk = 0 then Fault else Next (A div kk) X M 0)
      else if c = DIV_X then (if X = 0 then Ret 0 else Next (A div X) X M 0)
      else if c = AND_K then Next (A AND kk) X M 0
      else if c = AND_X then Next (A AND X) X M 0
      else if c = OR_K then Next (A OR kk) X M 0
      else if c = OR_X then Next (A OR X) X M 0
      else if c = XOR_K then Next (A XOR kk) X M 0
      else if c = XOR_X then Next (A XOR X) X M 0
      else if c = LSH_K then (if kk < 32 then Next (push_bit (unat kk) A) X M 0 else Fault)
      else if c = LSH_X then Next (push_bit (unat (X AND 31)) A) X M 0
      else if c = RSH_K then (if kk < 32 then Next (drop_bit (unat kk) A) X M 0 else Fault)
      else if c = RSH_X then Next (drop_bit (unat (X AND 31)) A) X M 0
      else if c = ALU_NEG then Next (- A) X M 0
      else if c = JMP_JA then Next A X M (unat kk)
      else if c = JEQ_K then Next A X M (bpf_jump f (A = kk))
      else if c = JEQ_X then Next A X M (bpf_jump f (A = X))
      else if c = JGT_K then Next A X M (bpf_jump f (A > kk))
      else if c = JGT_X then Next A X M (bpf_jump f (A > X))
      else if c = JGE_K then Next A X M (bpf_jump f (A \<ge> kk))
      else if c = JGE_X then Next A X M (bpf_jump f (A \<ge> X))
      else if c = JSET_K then Next A X M (bpf_jump f (A AND kk \<noteq> 0))
      else if c = JSET_X then Next A X M (bpf_jump f (A AND X \<noteq> 0))
      else if c = RET_K then Ret kk
      else if c = RET_A then Ret A
      else Ret 0)"

text \<open>The loop, from any machine state; None: a fault, or out of fuel. The 32-bit pc wraps.\<close>

fun seccomp_loop :: "nat \<Rightarrow> sock_filter list \<Rightarrow> u32 list \<Rightarrow> u32 \<Rightarrow> u32 \<Rightarrow> u32 list \<Rightarrow> nat \<Rightarrow> u32 option" where
  "seccomp_loop fuel prog data A X M pc =
     (if pc < length prog then
        (case fuel of 0 \<Rightarrow> None
         | Suc n \<Rightarrow>
             (case bpf_step (prog ! pc) data A X M of
                Ret r \<Rightarrow> Some r
              | Fault \<Rightarrow> None
              | Next A' X' M' skip \<Rightarrow> seccomp_loop n prog data A' X' M' ((pc + 1 + skip) mod 2 ^ 32)))
      else Some 0)"

definition seccomp_run :: "sock_filter list \<Rightarrow> u32 list \<Rightarrow> u32 option" where
  "seccomp_run prog data = seccomp_loop (length prog) prog data 0 0 (replicate BPF_MEMWORDS 0) 0"

declare seccomp_loop.simps [simp del]

section \<open>What the validator establishes\<close>

text \<open>The distances an instruction can move the program counter by, beyond the next instruction.\<close>

definition skips :: "sock_filter \<Rightarrow> nat set" where
  "skips f = (if sf_code f = JMP_JA then {unat (sf_k f)}
              else if is_cond_jump (sf_code f) then {unat (sf_jt f), unat (sf_jf f)} else {0})"

definition cells_after :: "sock_filter \<Rightarrow> u16 \<Rightarrow> u16" where
  "cells_after f w = (if sf_code f = BPF_ST \<or> sf_code f = BPF_STX then w OR cell_bit f else w)"

definition reads_cell :: "sock_filter \<Rightarrow> bool" where
  "reads_cell f = (sf_code f = LD_MEM \<or> sf_code f = LDX_MEM)"

definition cells_agree :: "u16 \<Rightarrow> u32 list \<Rightarrow> u32 list \<Rightarrow> bool" where
  "cells_agree w M M' = (length M = 16 \<and> length M' = 16 \<and> (\<forall>c<16. bit w c \<longrightarrow> M ! c = M' ! c))"

lemma bit_cell_bit: "bit (cell_bit f) c \<longleftrightarrow> c = unat (sf_k f) \<and> c < 16"
  by (auto simp: cell_bit_def bit_simps)

lemma cell_bit_and: "w AND cell_bit f = 0 \<longleftrightarrow> \<not> (unat (sf_k f) < 16 \<and> bit w (unat (sf_k f)))"
  by (subst bit_eq_iff) (auto simp: bit_and_iff bit_cell_bit)

text \<open>
  Two runs of one instruction from scratch memories that agree on the cells known to be
  written: same outcome, and agreement on the cells known afterwards. No fault.
\<close>

fun out_agree :: "sock_filter \<Rightarrow> u16 \<Rightarrow> bpf_out \<Rightarrow> bpf_out \<Rightarrow> bool" where
  "out_agree f w (Ret r) (Ret r') = (r = r')"
| "out_agree f w (Next A X M n) (Next A' X' M' n') =
     (A = A' \<and> X = X' \<and> n = n' \<and> n \<in> skips f \<and> BPF_CLASS (sf_code f) \<noteq> 0x06 \<and> cells_agree (cells_after f w) M M')"
| "out_agree f w _ _ = False"

lemma cells_agree_update:
  assumes "cells_agree w M M'" "unat (sf_k f) < 16"
  shows "cells_agree (w OR cell_bit f) (M[unat (sf_k f) := v]) (M'[unat (sf_k f) := v])"
  using assms by (auto simp: cells_agree_def bit_or_iff bit_cell_bit nth_list_update)

lemma load_data_agree:
  assumes "cells_agree w M M'" "bit w (unat i)" "unat i < 16"
  shows "load_data M i = Some (M ! unat i)" "load_data M' i = Some (M ! unat i)"
  using assms by (auto simp: cells_agree_def load_data_def)

lemma insn_allowed_codes:
  assumes "insn_allowed f"
  shows "sf_code f \<in> {LD_W_ABS, LD_W_LEN, LDX_W_LEN, RET_K, RET_A, ALU_NEG, LD_IMM, LDX_IMM, MISC_TAX, MISC_TXA, JMP_JA,
    LD_MEM, LDX_MEM, BPF_ST, BPF_STX, DIV_K, LSH_K, RSH_K, ADD_K, ADD_X, SUB_K, SUB_X, MUL_K, MUL_X, DIV_X,
    AND_K, AND_X, OR_K, OR_X, XOR_K, XOR_X, LSH_X, RSH_X, JEQ_K, JEQ_X, JGT_K, JGT_X, JGE_K, JGE_X, JSET_K, JSET_X}"
  using assms unfolding insn_allowed_def Let_def by (simp split: if_splits) (elim disjE; simp)+

lemma bpf_step_agree:
  assumes ok: "insn_allowed f" and d: "length data = 16" and m: "cells_agree w M M'"
    and r: "reads_cell f \<Longrightarrow> bit w (unat (sf_k f))"
  shows "out_agree f w (bpf_step f data A X M) (bpf_step f data A X M')"
proof -
  have lens: "length M = 16" "length M' = 16" using m by (auto simp: cells_agree_def)
  have k16: "unat (sf_k f) < 16" if "sf_code f \<in> {LD_MEM, LDX_MEM, BPF_ST, BPF_STX}"
    using ok that by (auto simp: insn_allowed_def word_less_nat_alt)
  have k4: "load_data data (drop_bit 2 (sf_k f)) \<noteq> None" if "sf_code f = LD_W_ABS"
  proof -
    have "sf_k f < 64" using ok that by (simp add: insn_allowed_def)
    then have "unat (drop_bit 2 (sf_k f)) < 16"
      by (subst unat_drop_bit_eq) (simp add: drop_bit_eq_div word_less_nat_alt)
    then show ?thesis using d by (simp add: load_data_def)
  qed
  from insn_allowed_codes [OF ok] show ?thesis
    using m lens k16 k4 r ok load_data_agree [OF m, of "sf_k f"] cells_agree_update [OF m, of f]
    by (simp only: insert_iff empty_iff simp_thms, elim disjE)
      (auto simp: bpf_step_def skips_def cells_after_def is_cond_jump_def BPF_CLASS_def bpf_jump_def
        reads_cell_def insn_allowed_def)
qed

text \<open>What the data-flow pass proves of an instruction, for the array it ends with.\<close>

definition flow_ok :: "u16 list \<Rightarrow> nat \<Rightarrow> sock_filter \<Rightarrow> bool" where
  "flow_ok K pc f =
     ((reads_cell f \<longrightarrow> unat (sf_k f) < 16 \<and> bit (K ! pc) (unat (sf_k f))) \<and>
      (BPF_CLASS (sf_code f) \<noteq> 0x06 \<longrightarrow>
        (\<forall>n\<in>skips f. \<forall>c. bit (K ! (pc + 1 + n)) c \<longrightarrow> bit (cells_after f (K ! pc)) c)))"

definition bits_le :: "u16 list \<Rightarrow> u16 list \<Rightarrow> bool" where
  "bits_le K L = (length K = length L \<and> (\<forall>i<length L. \<forall>c. bit (K ! i) c \<longrightarrow> bit (L ! i) c))"

lemma bit_update: "bit (L[i := L ! i AND w] ! j) c \<Longrightarrow> bit (L ! j) c" for L :: "u16 list"
  by (cases "i = j"; cases "i < length L") (simp_all add: bit_and_iff list_update_beyond)

lemma bits_le_update: "bits_le K (L[i := L ! i AND w]) \<Longrightarrow> bits_le K L"
  by (auto simp: bits_le_def dest: bit_update)

lemma bits_le_at: "bits_le K (L[i := L ! i AND w]) \<Longrightarrow> i < length L \<Longrightarrow> bit (K ! i) c \<Longrightarrow> bit w c"
  by (auto simp: bits_le_def nth_list_update bit_and_iff split: if_splits)

lemma known_pass_sound:
  assumes "known_pass fs pc known = Some K" "validate_insns fs" "length known = pc + length fs"
    "fs \<noteq> [] \<longrightarrow> BPF_CLASS (sf_code (last fs)) = 0x06"
  shows "bits_le K known \<and> (\<forall>i. i \<le> pc \<longrightarrow> K ! i = known ! i) \<and>
    (\<forall>j<length fs. flow_ok K (pc + j) (fs ! j))"
  using assms
proof (induction fs arbitrary: pc known)
  case Nil
  then show ?case by (simp add: bits_le_def)
next
  case (Cons f fs)
  let ?have = "cells_after f (known ! pc)"
  have hav: "(if sf_code f = BPF_ST \<or> sf_code f = BPF_STX then known ! pc OR cell_bit f else known ! pc) = ?have"
    by (simp add: cells_after_def)
  have read: "unat (sf_k f) < 16 \<and> bit (known ! pc) (unat (sf_k f))" if "reads_cell f"
    using Cons.prems(1) that by (auto simp: Let_def cell_bit_and reads_cell_def split: if_splits)
  have go: "\<exists>known'. known_pass fs (pc + 1) known' = Some K \<and> length known' = length known \<and>
      (\<forall>i\<le>pc. known' ! i = known ! i) \<and> (bits_le K known' \<longrightarrow> bits_le K known) \<and>
      (BPF_CLASS (sf_code f) \<noteq> 0x06 \<longrightarrow> bits_le K known' \<longrightarrow>
        (\<forall>n\<in>skips f. \<forall>c. bit (K ! (pc + 1 + n)) c \<longrightarrow> bit ?have c))"
  proof (cases "BPF_CLASS (sf_code f) = 0x06")
    case True
    with Cons.prems(1) show ?thesis by (auto simp: Let_def split: if_splits)
  next
    case False
    with Cons.prems(4) have ne: "fs \<noteq> []" by auto
    show ?thesis
    proof (cases "sf_code f = JMP_JA")
      case True
      let ?i = "pc + 1 + unat (sf_k f)"
      have "known_pass fs (pc + 1) (known[?i := known ! ?i AND ?have]) = Some K" "?i < length known"
        using Cons.prems True by (auto simp: Let_def cells_after_def BPF_CLASS_def)
      then show ?thesis
        using True
        by (intro exI [of _ "known[?i := known ! ?i AND ?have]"])
          (auto simp: skips_def intro: bits_le_update bits_le_at)
    next
      case nja: False
      show ?thesis
      proof (cases "is_cond_jump (sf_code f)")
        case True
        let ?i = "pc + 1 + unat (sf_jt f)" and ?j = "pc + 1 + unat (sf_jf f)"
        let ?k1 = "known[?i := known ! ?i AND ?have]"
        let ?k2 = "?k1[?j := ?k1 ! ?j AND ?have]"
        have nst: "sf_code f \<noteq> BPF_ST" "sf_code f \<noteq> BPF_STX" "sf_code f \<noteq> LD_MEM" "sf_code f \<noteq> LDX_MEM"
          using True by (auto simp: is_cond_jump_def BPF_CLASS_def)
        have "known_pass fs (pc + 1) ?k2 = Some K" and b: "?i < length known" "?j < length known"
          using Cons.prems True False nja nst by (auto simp: Let_def cells_after_def)
        moreover have "bits_le K ?k2 \<longrightarrow> bits_le K ?k1" "bits_le K ?k1 \<longrightarrow> bits_le K known"
          using bits_le_update by blast+
        moreover have "bits_le K ?k2 \<longrightarrow> bit (K ! ?i) c \<longrightarrow> bit ?have c" for c
          using b(1) bits_le_update bits_le_at by blast
        moreover have "bits_le K ?k2 \<longrightarrow> bit (K ! ?j) c \<longrightarrow> bit ?have c" for c
          using b(2) bits_le_at [of K ?k1 ?j ?have c] by simp
        ultimately show ?thesis
          using True nja by (intro exI [of _ ?k2]) (auto simp: skips_def)
      next
        case ncj: False
        have "known_pass fs (pc + 1) (known[pc + 1 := known ! (pc + 1) AND ?have]) = Some K"
          using Cons.prems(1) False nja ncj by (auto simp: Let_def cells_after_def split: if_splits)
        moreover have "pc + 1 < length known" using Cons.prems(3) ne by (cases fs) auto
        ultimately show ?thesis
          using nja ncj
          by (intro exI [of _ "known[pc + 1 := known ! (pc + 1) AND ?have]"])
            (auto simp: skips_def intro: bits_le_update bits_le_at)
      qed
    qed
  qed
  then obtain known' where k': "known_pass fs (pc + 1) known' = Some K" "length known' = length known"
    "\<forall>i\<le>pc. known' ! i = known ! i" "bits_le K known' \<longrightarrow> bits_le K known"
    "BPF_CLASS (sf_code f) \<noteq> 0x06 \<longrightarrow> bits_le K known' \<longrightarrow>
      (\<forall>n\<in>skips f. \<forall>c. bit (K ! (pc + 1 + n)) c \<longrightarrow> bit ?have c)" by blast
  have IH: "bits_le K known' \<and> (\<forall>i. i \<le> pc + 1 \<longrightarrow> K ! i = known' ! i) \<and>
      (\<forall>j<length fs. flow_ok K (pc + 1 + j) (fs ! j))"
    using Cons.prems k' by (intro Cons.IH) auto
  then have Kpc: "K ! pc = known ! pc" using k'(3) by simp
  have "flow_ok K pc f" using IH k'(5) read by (auto simp: flow_ok_def Kpc)
  then have "flow_ok K (pc + j) ((f # fs) ! j)" if "j < length (f # fs)" for j
    using IH that by (cases j) auto
  then show ?case using IH k'(3,4) by auto
qed

lemma validate_insns_nth:
  "validate_insns fs \<Longrightarrow> j < length fs \<Longrightarrow>
   insn_allowed (fs ! j) \<and>
   (\<forall>n\<in>skips (fs ! j). sf_code (fs ! j) = JMP_JA \<or> is_cond_jump (sf_code (fs ! j)) \<longrightarrow> j + 1 + n < length fs)"
proof (induction fs arbitrary: j)
  case Nil
  then show ?case by simp
next
  case (Cons f fs)
  then show ?case by (cases j) (auto simp: skips_def split: if_splits)
qed

definition program_ok :: "sock_filter list \<Rightarrow> u16 list \<Rightarrow> bool" where
  "program_ok prog K =
     (prog \<noteq> [] \<and> length prog \<le> SECCOMP_MAX_INSNS \<and> K ! 0 = 0 \<and>
      (\<forall>pc<length prog. insn_allowed (prog ! pc) \<and> flow_ok K pc (prog ! pc) \<and>
        (BPF_CLASS (sf_code (prog ! pc)) \<noteq> 0x06 \<longrightarrow> (\<forall>n\<in>skips (prog ! pc). pc + 1 + n < length prog))))"

lemma seccomp_validate_ok:
  assumes "seccomp_validate prog mem = 0"
  obtains K where "program_ok prog K"
proof -
  let ?n = "length prog"
  let ?known = "(replicate ?n 0xffff)[0 := 0 :: u16]"
  have ne: "prog \<noteq> []" "?n \<le> SECCOMP_MAX_INSNS" and v: "validate_insns prog"
    and lst: "BPF_CLASS (sf_code (prog ! (?n - 1))) = 0x06"
    using assms by (auto simp: seccomp_validate_def Let_def split: if_splits)
  obtain K where K: "known_pass prog 0 ?known = Some K"
    using assms ne v lst by (auto simp: seccomp_validate_def Let_def split: if_splits option.splits)
  have sound: "(\<forall>i. i \<le> 0 \<longrightarrow> K ! i = ?known ! i) \<and> (\<forall>j<?n. flow_ok K (0 + j) (prog ! j))"
    using known_pass_sound [OF K v] ne lst by (simp add: last_conv_nth)
  have fwd: "pc + 1 + n < ?n"
    if pc: "pc < ?n" "BPF_CLASS (sf_code (prog ! pc)) \<noteq> 0x06" "n \<in> skips (prog ! pc)" for pc n
  proof (cases "sf_code (prog ! pc) = JMP_JA \<or> is_cond_jump (sf_code (prog ! pc))")
    case True
    with validate_insns_nth [OF v pc(1)] pc(3) show ?thesis by blast
  next
    case False
    with pc(3) have "n = 0" by (auto simp: skips_def)
    moreover have "pc \<noteq> ?n - 1" using pc(2) lst by auto
    ultimately show ?thesis using pc(1) by simp
  qed
  have "K ! 0 = 0" using sound ne by simp
  then have "program_ok prog K"
    using ne sound fwd validate_insns_nth [OF v] by (auto simp: program_ok_def)
  then show thesis by (rule that)
qed

lemma cells_agree_mono:
  "cells_agree w M M' \<Longrightarrow> (\<And>c. bit w' c \<Longrightarrow> bit w c) \<Longrightarrow> cells_agree w' M M'"
  by (auto simp: cells_agree_def)

lemma seccomp_loop_agree:
  assumes ok: "program_ok prog K" and d: "length data = 16"
    and "pc < length prog" "length prog - pc \<le> fuel" "cells_agree (K ! pc) M M'"
  shows "\<exists>r. seccomp_loop fuel prog data A X M pc = Some r \<and> seccomp_loop fuel prog data A X M' pc = Some r"
  using assms(3-)
proof (induction fuel arbitrary: A X M M' pc)
  case 0
  then show ?case by simp
next
  case (Suc fuel)
  let ?f = "prog ! pc"
  have f: "insn_allowed ?f" "flow_ok K pc ?f"
    and fwd: "BPF_CLASS (sf_code ?f) \<noteq> 0x06 \<longrightarrow> (\<forall>n\<in>skips ?f. pc + 1 + n < length prog)"
    and len: "length prog \<le> 4096"
    using ok Suc.prems(1) by (auto simp: program_ok_def)
  have ag: "out_agree ?f (K ! pc) (bpf_step ?f data A X M) (bpf_step ?f data A X M')"
    using f by (intro bpf_step_agree [OF f(1) d Suc.prems(3)]) (simp add: flow_ok_def)
  show ?case
  proof (cases "bpf_step ?f data A X M")
    case (Ret r)
    with ag have "bpf_step ?f data A X M' = Ret r" by (cases "bpf_step ?f data A X M'") auto
    with Ret Suc.prems(1) show ?thesis by (simp add: seccomp_loop.simps [of "Suc fuel"])
  next
    case Fault
    with ag show ?thesis by simp
  next
    case (Next A1 X1 M1 n)
    with ag obtain M1' where nx: "bpf_step ?f data A X M' = Next A1 X1 M1' n"
      and n: "n \<in> skips ?f" "BPF_CLASS (sf_code ?f) \<noteq> 0x06" and c: "cells_agree (cells_after ?f (K ! pc)) M1 M1'"
      by (cases "bpf_step ?f data A X M'") auto
    have lt: "pc + 1 + n < length prog" using fwd n by blast
    then have m: "(pc + 1 + n) mod 2 ^ 32 = pc + 1 + n" using len by simp
    have "cells_agree (K ! (pc + 1 + n)) M1 M1'"
      using f(2) n by (intro cells_agree_mono [OF c]) (auto simp: flow_ok_def)
    moreover have "length prog - (pc + 1 + n) \<le> fuel" using Suc.prems(2) by simp
    ultimately obtain r where
      "seccomp_loop fuel prog data A1 X1 M1 (pc + 1 + n) = Some r"
      "seccomp_loop fuel prog data A1 X1 M1' (pc + 1 + n) = Some r"
      using Suc.IH [OF lt] by blast
    then show ?thesis
      using Next nx Suc.prems(1) m by (simp add: seccomp_loop.simps [of "Suc fuel"])
  qed
qed

lemma seccomp_run_total:
  assumes "seccomp_validate prog mem = 0" "length data = 16"
  obtains r where "seccomp_run prog data = Some r"
    "\<And>M. length M = 16 \<Longrightarrow> seccomp_loop (length prog) prog data 0 0 M 0 = Some r"
proof -
  obtain K where K: "program_ok prog K" using seccomp_validate_ok [OF assms(1)] .
  let ?Z = "replicate BPF_MEMWORDS (0 :: u32)"
  have "\<exists>r. seccomp_loop (length prog) prog data 0 0 ?Z 0 = Some r \<and>
        seccomp_loop (length prog) prog data 0 0 M 0 = Some r" if "length M = 16" for M
    using K that by (intro seccomp_loop_agree [OF K assms(2)]) (auto simp: program_ok_def cells_agree_def)
  then have "\<exists>r. seccomp_run prog data = Some r \<and>
      (\<forall>M. length M = 16 \<longrightarrow> seccomp_loop (length prog) prog data 0 0 M 0 = Some r)"
    unfolding seccomp_run_def by (metis length_replicate option.inject)
  then show thesis using that by blast
qed

text \<open>C1: A program the validator accepts is safe to run on any system call: within as many steps
  as it has instructions the interpreter returns, without reading outside the seccomp data or
  the scratch memory, dividing by zero or shifting by 32 or more; and its verdict does not
  depend on what the scratch memory held before (every cell is written before it is read on
  every path).\<close>

theorem validated_program_runs:
  assumes "seccomp_validate prog mem = 0" "length data = 16"
  shows "\<exists>r. seccomp_run prog data = Some r \<and>
    (\<forall>M. length M = 16 \<longrightarrow> seccomp_loop (length prog) prog data 0 0 M 0 = Some r)"
  using seccomp_run_total [OF assms] by metis

definition bpf_example :: "sock_filter list" where
  "bpf_example =
     [\<lparr>sf_code = LD_W_ABS, sf_jt = 0, sf_jf = 0, sf_k = 0\<rparr>,
      \<lparr>sf_code = BPF_ST, sf_jt = 0, sf_jf = 0, sf_k = 3\<rparr>,
      \<lparr>sf_code = LDX_MEM, sf_jt = 0, sf_jf = 0, sf_k = 3\<rparr>,
      \<lparr>sf_code = JEQ_K, sf_jt = 0, sf_jf = 1, sf_k = 4\<rparr>,
      \<lparr>sf_code = RET_K, sf_jt = 0, sf_jf = 0, sf_k = 0x7fff0000\<rparr>,
      \<lparr>sf_code = RET_K, sf_jt = 0, sf_jf = 0, sf_k = 0x00050001\<rparr>]"

lemma bpf_example_valid: "seccomp_validate bpf_example True = 0"
  by code_simp

theorem validated_program_runs_witness:
  "seccomp_validate bpf_example True = 0 \<and>
   (\<exists>r. seccomp_run bpf_example (replicate 16 4) = Some r)"
  using validated_program_runs [OF bpf_example_valid, of "replicate 16 4"] bpf_example_valid by auto

end
