(* ===== verification/Seccomp.thy ===== *)
theory Seccomp
  imports Seccomp_BPF Usermem "HOL-Library.Sublist"
begin

text \<open>
  The rest of proc/seccomp.c: filter chains in the kernel heap with their reference counts,
  installing a filter (with TSYNC over the process table), the seccomp and prctl calls, fork
  and exit, and the hook every system call passes. The heap is a map from addresses to
  filters; a walk over a freed or cyclic chain has no result (None), so that the theorems
  also say that no call touches freed memory and every walk ends.
\<close>

section \<open>State\<close>

datatype proc_state =
  PROC_UNUSED | PROC_EMBRYO | PROC_RUNNABLE | PROC_RUNNING | PROC_SLEEPING | PROC_STOPPED | PROC_ZOMBIE

record seccomp_filter =
  refcount :: int
  fprev :: "nat option"
  flog :: bool
  insns :: "sock_filter list"

record sproc =
  sp_pid :: int
  sp_tgid :: int
  sp_state :: proc_state
  sp_euid :: u32
  no_new_privs :: bool
  seccomp_mode :: nat
  seccomp_filter_of :: "nat option"

type_synonym filters = "nat \<Rightarrow> seccomp_filter option"

record sec_sys =
  ptable :: "sproc list"
  filters :: filters

abbreviation (input) SECCOMP_MODE_DISABLED :: nat where "SECCOMP_MODE_DISABLED \<equiv> 0"
abbreviation (input) SECCOMP_MODE_STRICT :: nat where "SECCOMP_MODE_STRICT \<equiv> 1"
abbreviation (input) SECCOMP_MODE_FILTER :: nat where "SECCOMP_MODE_FILTER \<equiv> 2"
abbreviation (input) FLAG_TSYNC :: u32 where "FLAG_TSYNC \<equiv> 1"
abbreviation (input) FLAG_LOG :: u32 where "FLAG_LOG \<equiv> 2"
abbreviation (input) FLAG_SPEC_ALLOW :: u32 where "FLAG_SPEC_ALLOW \<equiv> 4"
abbreviation (input) FLAG_TSYNC_ESRCH :: u32 where "FLAG_TSYNC_ESRCH \<equiv> 16"
abbreviation (input) RET_KILL_PROCESS :: u32 where "RET_KILL_PROCESS \<equiv> 0x80000000"
abbreviation (input) RET_KILL_THREAD :: u32 where "RET_KILL_THREAD \<equiv> 0x00000000"
abbreviation (input) RET_TRAP :: u32 where "RET_TRAP \<equiv> 0x00030000"
abbreviation (input) RET_ERRNO :: u32 where "RET_ERRNO \<equiv> 0x00050000"
abbreviation (input) RET_USER_NOTIF :: u32 where "RET_USER_NOTIF \<equiv> 0x7fc00000"
abbreviation (input) RET_TRACE :: u32 where "RET_TRACE \<equiv> 0x7ff00000"
abbreviation (input) RET_LOG :: u32 where "RET_LOG \<equiv> 0x7ffc0000"
abbreviation (input) RET_ALLOW :: u32 where "RET_ALLOW \<equiv> 0x7fff0000"
abbreviation (input) RET_ACTION_FULL :: u32 where "RET_ACTION_FULL \<equiv> 0xffff0000"
abbreviation (input) RET_DATA :: u32 where "RET_DATA \<equiv> 0x0000ffff"
abbreviation (input) AUDIT_ARCH_I386 :: u32 where "AUDIT_ARCH_I386 \<equiv> 0x40000003"
abbreviation (input) SECCOMP_MAX_PATH_INSNS :: u32 where "SECCOMP_MAX_PATH_INSNS \<equiv> 32768"
abbreviation (input) SIGKILL :: int where "SIGKILL \<equiv> 9"
abbreviation (input) SIGSYS :: int where "SIGSYS \<equiv> 31"
abbreviation (input) MAX_ERRNO :: u32 where "MAX_ERRNO \<equiv> 4095"

section \<open>Chains\<close>

text \<open>The addresses a loop over \<open>prev\<close> visits.\<close>

partial_function (option) filter_chain :: "filters \<Rightarrow> nat option \<Rightarrow> nat list option" where
  "filter_chain fs h =
     (case h of None \<Rightarrow> Some []
      | Some a \<Rightarrow> (case fs a of None \<Rightarrow> None
                   | Some x \<Rightarrow> Option.bind (filter_chain fs (fprev x)) (\<lambda>c. Some (a # c))))"

definition ref_get :: "filters \<Rightarrow> nat \<Rightarrow> filters option" where
  "ref_get fs a = (case fs a of None \<Rightarrow> None | Some x \<Rightarrow> Some (fs(a \<mapsto> x\<lparr>refcount := refcount x + 1\<rparr>)))"

partial_function (option) filter_put :: "filters \<Rightarrow> nat option \<Rightarrow> filters option" where
  "filter_put fs h =
     (case h of None \<Rightarrow> Some fs
      | Some a \<Rightarrow>
          (case fs a of None \<Rightarrow> None
           | Some x \<Rightarrow>
               (let n = refcount x - 1 in
                if n \<le> 0 then filter_put (fs(a := None)) (fprev x)
                else Some (fs(a \<mapsto> x\<lparr>refcount := n\<rparr>)))))"

definition seccomp_filter_count :: "sec_sys \<Rightarrow> nat \<Rightarrow> nat option" where
  "seccomp_filter_count s i = map_option length (filter_chain (filters s) (seccomp_filter_of (ptable s ! i)))"

definition seccomp_fork :: "sec_sys \<Rightarrow> nat \<Rightarrow> nat \<Rightarrow> sec_sys option" where
  "seccomp_fork s child parent =
     (let p = ptable s ! parent;
          c = (ptable s ! child)\<lparr>no_new_privs := no_new_privs p, seccomp_mode := seccomp_mode p,
                                 seccomp_filter_of := seccomp_filter_of p\<rparr>;
          s' = s\<lparr>ptable := (ptable s)[child := c]\<rparr>
      in case seccomp_filter_of c of None \<Rightarrow> Some s'
         | Some a \<Rightarrow> map_option (\<lambda>fs. s'\<lparr>filters := fs\<rparr>) (ref_get (filters s) a))"

definition seccomp_release :: "sec_sys \<Rightarrow> nat \<Rightarrow> sec_sys option" where
  "seccomp_release s i =
     (let f = seccomp_filter_of (ptable s ! i);
          s' = s\<lparr>ptable := (ptable s)[i := (ptable s ! i)\<lparr>seccomp_filter_of := None\<rparr>]\<rparr>
      in map_option (\<lambda>fs. s'\<lparr>filters := fs\<rparr>) (filter_put (filters s) f))"

partial_function (option) ancestor_walk :: "filters \<Rightarrow> nat \<Rightarrow> nat option \<Rightarrow> bool option" where
  "ancestor_walk fs anc h =
     (case h of None \<Rightarrow> Some False
      | Some a \<Rightarrow> if a = anc then Some True
                  else (case fs a of None \<Rightarrow> None | Some x \<Rightarrow> ancestor_walk fs anc (fprev x)))"

definition is_ancestor :: "filters \<Rightarrow> nat option \<Rightarrow> nat option \<Rightarrow> bool option" where
  "is_ancestor fs anc h = (case anc of None \<Rightarrow> Some True | Some a \<Rightarrow> ancestor_walk fs a h)"

definition live :: "sproc \<Rightarrow> bool" where
  "live q = (\<not> (sp_state q = PROC_UNUSED \<or> sp_state q = PROC_ZOMBIE))"

definition live_threads :: "sproc list \<Rightarrow> sproc \<Rightarrow> nat" where
  "live_threads ps me = length (filter (\<lambda>q. live q \<and> sp_tgid q = sp_tgid me) ps)"

section \<open>Installing\<close>

definition set_mode_strict :: "sec_sys \<Rightarrow> nat \<Rightarrow> int \<times> sec_sys" where
  "set_mode_strict s i =
     (let p = ptable s ! i in
      if seccomp_mode p \<noteq> SECCOMP_MODE_DISABLED \<and> seccomp_mode p \<noteq> SECCOMP_MODE_STRICT then (- EINVAL, s)
      else (0, s\<lparr>ptable := (ptable s)[i := p\<lparr>seccomp_mode := SECCOMP_MODE_STRICT\<rparr>]\<rparr>))"

definition decode_insn :: "u8 list \<Rightarrow> sock_filter" where
  "decode_insn bs = \<lparr>sf_code = le_bytes (take 2 bs), sf_jt = bs ! 2, sf_jf = bs ! 3, sf_k = le_bytes (take 4 (drop 4 bs))\<rparr>"

definition decode_prog :: "nat \<Rightarrow> u8 list \<Rightarrow> sock_filter list" where
  "decode_prog n bs = map (\<lambda>i. decode_insn (take 8 (drop (8 * i) bs))) [0..<n]"

text \<open>Linux charges each filter on the path its length plus 4; 32-bit arithmetic.\<close>

definition path_total :: "filters \<Rightarrow> nat \<Rightarrow> nat list \<Rightarrow> u32" where
  "path_total fs len c =
     foldl (\<lambda>t a. t + (case fs a of None \<Rightarrow> 0 | Some w \<Rightarrow> of_nat (length (insns w)) + 4)) (of_nat len) c"

text \<open>A thread that TSYNC looks at, and the first one that stops it (with the walk of each).\<close>

definition tsync_peer :: "sproc list \<Rightarrow> nat \<Rightarrow> nat \<Rightarrow> bool" where
  "tsync_peer ps p i = (i \<noteq> p \<and> sp_tgid (ps ! i) = sp_tgid (ps ! p) \<and> live (ps ! i))"

fun tsync_check :: "filters \<Rightarrow> sproc list \<Rightarrow> nat \<Rightarrow> nat list \<Rightarrow> nat option option" where
  "tsync_check fs ps p [] = Some None"
| "tsync_check fs ps p (i # is) =
     (if \<not> tsync_peer ps p i then tsync_check fs ps p is
      else if seccomp_mode (ps ! i) = SECCOMP_MODE_DISABLED then tsync_check fs ps p is
      else if seccomp_mode (ps ! i) = SECCOMP_MODE_FILTER then
        (case is_ancestor fs (seccomp_filter_of (ps ! i)) (seccomp_filter_of (ps ! p)) of
           None \<Rightarrow> None
         | Some True \<Rightarrow> tsync_check fs ps p is
         | Some False \<Rightarrow> Some (Some i))
      else Some (Some i))"

fun tsync_move :: "nat \<Rightarrow> nat \<Rightarrow> nat list \<Rightarrow> sec_sys \<Rightarrow> sec_sys option" where
  "tsync_move f p [] s = Some s"
| "tsync_move f p (i # is) s =
     (if \<not> tsync_peer (ptable s) p i then tsync_move f p is s
      else
        (let q = ptable s ! i; old = seccomp_filter_of q;
             q' = q\<lparr>seccomp_filter_of := Some f,
                    no_new_privs := (if no_new_privs (ptable s ! p) then True else no_new_privs q),
                    seccomp_mode := SECCOMP_MODE_FILTER\<rparr>
         in case ref_get (filters s) f of None \<Rightarrow> None
            | Some fs1 \<Rightarrow>
                (case filter_put fs1 old of None \<Rightarrow> None
                 | Some fs2 \<Rightarrow> tsync_move f p is (s\<lparr>ptable := (ptable s)[i := q'], filters := fs2\<rparr>))))"

text \<open>
  \<open>new\<close>: the address kmalloc returned for the filter; \<open>vmem\<close>: whether it found room for the
  validator's array. The early exits free the new filter, which was never stored.
\<close>

definition set_mode_filter ::
  "sec_sys \<Rightarrow> nat \<Rightarrow> umem \<Rightarrow> nat option \<Rightarrow> bool \<Rightarrow> u32 \<Rightarrow> u32 \<Rightarrow> (int \<times> sec_sys) option" where
  "set_mode_filter s i um new vmem flags uprog =
     (let p = ptable s ! i; known = FLAG_TSYNC OR FLAG_LOG OR FLAG_SPEC_ALLOW OR FLAG_TSYNC_ESRCH;
          (r, fprog) = copy_from_user um uprog 8;
          len = unat (le_bytes (take 2 fprog) :: u16); fptr = (le_bytes (take 4 (drop 4 fprog)) :: u32);
          (r2, bytes) = copy_from_user um fptr (len * 8); prog = decode_prog len bytes
      in
      if flags AND NOT known \<noteq> 0 then Some (- EINVAL, s)
      else if uprog = 0 \<or> r < 0 then Some (- EFAULT, s)
      else if len = 0 \<or> len > SECCOMP_MAX_INSNS then Some (- EINVAL, s)
      else if \<not> no_new_privs p \<and> sp_euid p \<noteq> 0 then Some (- EACCES, s)
      else case new of None \<Rightarrow> Some (- ENOMEM, s)
      | Some a \<Rightarrow>
        if r2 < 0 then Some (- EFAULT, s)
        else if seccomp_validate prog vmem < 0 then Some (seccomp_validate prog vmem, s)
        else if seccomp_mode p \<noteq> SECCOMP_MODE_DISABLED \<and> seccomp_mode p \<noteq> SECCOMP_MODE_FILTER then Some (- EINVAL, s)
        else case filter_chain (filters s) (seccomp_filter_of p) of None \<Rightarrow> None
        | Some c \<Rightarrow>
          if path_total (filters s) len c > SECCOMP_MAX_PATH_INSNS then Some (- ENOMEM, s)
          else case (if flags AND FLAG_TSYNC \<noteq> 0
                     then tsync_check (filters s) (ptable s) i [0..<length (ptable s)] else Some None) of
            None \<Rightarrow> None
          | Some (Some j) \<Rightarrow> Some (if flags AND FLAG_TSYNC_ESRCH \<noteq> 0 then - ESRCH else sp_pid (ptable s ! j), s)
          | Some None \<Rightarrow>
            (let f = \<lparr>refcount = 1, fprev = seccomp_filter_of p, flog = (flags AND FLAG_LOG \<noteq> 0), insns = prog\<rparr>;
                 p' = p\<lparr>seccomp_filter_of := Some a, seccomp_mode := SECCOMP_MODE_FILTER\<rparr>;
                 s1 = s\<lparr>ptable := (ptable s)[i := p'], filters := (filters s)(a \<mapsto> f)\<rparr>
             in if flags AND FLAG_TSYNC \<noteq> 0
                then map_option (\<lambda>s2. (0, s2)) (tsync_move a i [0..<length (ptable s)] s1)
                else Some (0, s1)))"

definition sys_seccomp ::
  "sec_sys \<Rightarrow> nat \<Rightarrow> umem \<Rightarrow> nat option \<Rightarrow> bool \<Rightarrow> u32 \<Rightarrow> u32 \<Rightarrow> u32 \<Rightarrow> (int \<times> sec_sys) option" where
  "sys_seccomp s i um new vmem op flags uargs =
     (if op = 0 then (if flags \<noteq> 0 \<or> uargs \<noteq> 0 then Some (- EINVAL, s) else Some (set_mode_strict s i))
      else if op = 1 then set_mode_filter s i um new vmem flags uargs
      else if op = 2 then
        (let (r, bs) = copy_from_user um uargs 4; action = (le_bytes bs :: u32) in
         if flags \<noteq> 0 then Some (- EINVAL, s)
         else if uargs = 0 \<or> r < 0 then Some (- EFAULT, s)
         else if action \<in> {RET_KILL_PROCESS, RET_KILL_THREAD, RET_TRAP, RET_ERRNO, RET_TRACE, RET_LOG, RET_ALLOW}
         then Some (0, s) else Some (- EOPNOTSUPP, s))
      else Some (- EINVAL, s))"

definition seccomp_prctl_set ::
  "sec_sys \<Rightarrow> nat \<Rightarrow> umem \<Rightarrow> nat option \<Rightarrow> bool \<Rightarrow> u32 \<Rightarrow> u32 \<Rightarrow> (int \<times> sec_sys) option" where
  "seccomp_prctl_set s i um new vmem mode uprog =
     (if mode = 1 then Some (set_mode_strict s i)
      else if mode = 2 then set_mode_filter s i um new vmem 0 uprog
      else Some (- EINVAL, s))"

definition prctl_set_no_new_privs :: "sec_sys \<Rightarrow> nat \<Rightarrow> u32 \<Rightarrow> u32 \<Rightarrow> u32 \<Rightarrow> u32 \<Rightarrow> int \<times> sec_sys" where
  "prctl_set_no_new_privs s i a2 a3 a4 a5 =
     (if a2 \<noteq> 1 \<or> a3 \<noteq> 0 \<or> a4 \<noteq> 0 \<or> a5 \<noteq> 0 then (- EINVAL, s)
      else (0, s\<lparr>ptable := (ptable s)[i := (ptable s ! i)\<lparr>no_new_privs := True\<rparr>]\<rparr>))"

section \<open>The system call hook\<close>

definition action_rank :: "u32 \<Rightarrow> int" where
  "action_rank ret = sint (ret AND RET_ACTION_FULL)"

text \<open>What reaches the log: a LOG action only while the budget lasts.\<close>

definition seccomp_log :: "int \<Rightarrow> u32 \<Rightarrow> u32 \<Rightarrow> u32 \<Rightarrow> int \<times> (u32 \<times> u32 \<times> u32) list" where
  "seccomp_log budget nr action eip =
     (if action = RET_LOG \<and> budget \<le> 0 then (budget, [])
      else (if action = RET_LOG then budget - 1 else budget, [(nr, action, eip)]))"

datatype verdict = Proceed | SkipErrno u32 | SkipTrap u32 u32 u32 | ExitThread int | ExitGroup int

definition kill_thread :: "sproc list \<Rightarrow> sproc \<Rightarrow> int \<Rightarrow> verdict" where
  "kill_thread ps me sig = (if live_threads ps me \<le> 1 then ExitGroup sig else ExitThread sig)"

record regs =
  r_eip :: u32
  r_ebx :: u32
  r_ecx :: u32
  r_edx :: u32
  r_esi :: u32
  r_edi :: u32
  r_ebp :: u32

definition seccomp_data :: "regs \<Rightarrow> u32 \<Rightarrow> u32 list" where
  "seccomp_data r nr =
     [nr, AUDIT_ARCH_I386, r_eip r, 0] @
     concat (map (\<lambda>a. [a, 0]) [r_ebx r, r_ecx r, r_edx r, r_esi r, r_edi r, r_ebp r])"

fun run_chain :: "filters \<Rightarrow> u32 list \<Rightarrow> nat list \<Rightarrow> u32 \<times> nat option \<Rightarrow> (u32 \<times> nat option) option" where
  "run_chain fs data [] acc = Some acc"
| "run_chain fs data (a # c) acc =
     (case fs a of None \<Rightarrow> None
      | Some f \<Rightarrow>
          (case seccomp_run (insns f) data of None \<Rightarrow> None
           | Some r \<Rightarrow> run_chain fs data c (if action_rank r < action_rank (fst acc) then (r, Some a) else acc)))"

definition seccomp_syscall_enter ::
  "sec_sys \<Rightarrow> nat \<Rightarrow> int \<Rightarrow> regs \<Rightarrow> u32 \<Rightarrow> (verdict \<times> int \<times> (u32 \<times> u32 \<times> u32) list) option" where
  "seccomp_syscall_enter s i budget r nr =
     (let p = ptable s ! i; log = (\<lambda>a. seccomp_log budget nr a (r_eip r)) in
      if seccomp_mode p = SECCOMP_MODE_STRICT then
        (if nr = 3 \<or> nr = 4 \<or> nr = 1 \<or> nr = 119 then Some (Proceed, budget, [])
         else Some (kill_thread (ptable s) p SIGKILL, log RET_KILL_THREAD))
      else
        case filter_chain (filters s) (seccomp_filter_of p) of None \<Rightarrow> None
        | Some c \<Rightarrow>
          (case run_chain (filters s) (seccomp_data r nr) c (RET_ALLOW, None) of None \<Rightarrow> None
           | Some (ret, match) \<Rightarrow>
             (let action = ret AND RET_ACTION_FULL; rdata = ret AND RET_DATA;
                  mlog = (\<lambda>_::unit. if (case match of None \<Rightarrow> False
                                         | Some a \<Rightarrow> (case filters s a of None \<Rightarrow> False | Some f \<Rightarrow> flog f))
                                    then log action else (budget, []))
              in Some
                (if action = RET_ALLOW then (Proceed, budget, [])
                 else if action = RET_LOG then (Proceed, log action)
                 else if action = RET_ERRNO then
                   (SkipErrno (- (if rdata > MAX_ERRNO then MAX_ERRNO else rdata)), mlog ())
                 else if action = RET_TRAP then (SkipTrap nr (r_eip r) rdata, mlog ())
                 else if action = RET_TRACE \<or> action = RET_USER_NOTIF then (SkipErrno (- 38), budget, [])
                 else if action = RET_KILL_THREAD then (kill_thread (ptable s) p SIGSYS, log action)
                 else (ExitGroup SIGSYS, log RET_KILL_PROCESS)))))"

section \<open>Chains and references\<close>

fun is_chain :: "filters \<Rightarrow> nat option \<Rightarrow> nat list \<Rightarrow> bool" where
  "is_chain fs None c = (c = [])"
| "is_chain fs (Some a) [] = False"
| "is_chain fs (Some a) (b # c) = (a = b \<and> (\<exists>x. fs a = Some x \<and> is_chain fs (fprev x) c))"

lemma filter_chain_None [simp]: "filter_chain fs None = Some []"
  by (simp add: filter_chain.simps)

lemma filter_chain_iff: "filter_chain fs h = Some c \<longleftrightarrow> is_chain fs h c"
proof (induction c arbitrary: h)
  case Nil
  then show ?case
    by (cases h) (auto simp: filter_chain.simps [of fs "Some _"] Option.bind_eq_Some_conv split: option.splits)
next
  case (Cons b c)
  show ?case
    by (cases h) (auto simp: filter_chain.simps [of fs "Some _"] Option.bind_eq_Some_conv Cons split: option.splits)
qed

lemma is_chain_unique: "is_chain fs h c \<Longrightarrow> is_chain fs h c' \<Longrightarrow> c = c'"
  by (metis filter_chain_iff option.inject)

lemma is_chain_suffix:
  "is_chain fs h c \<Longrightarrow> a \<in> set c \<Longrightarrow> \<exists>c'. is_chain fs (Some a) c' \<and> suffix c' c"
proof (induction c arbitrary: h)
  case Nil
  then show ?case by simp
next
  case (Cons b c)
  from Cons.prems(1) obtain x where h: "h = Some b" "fs b = Some x" "is_chain fs (fprev x) c" by (cases h) auto
  show ?case
  proof (cases "a = b")
    case True
    then show ?thesis using Cons.prems(1) h(1) by (auto intro!: exI [of _ "b # c"])
  next
    case False
    with Cons.prems(2) Cons.IH [OF h(3)] show ?thesis by (auto intro: suffix_ConsI)
  qed
qed

lemma is_chain_distinct:
  "is_chain fs (Some a) (a # c) \<Longrightarrow> a \<notin> set c"
proof
  assume ch: "is_chain fs (Some a) (a # c)" and "a \<in> set c"
  from ch obtain x where "fs a = Some x" "is_chain fs (fprev x) c" by auto
  from is_chain_suffix [OF this(2) \<open>a \<in> set c\<close>] obtain c' where c': "is_chain fs (Some a) c'" "suffix c' c" by blast
  from is_chain_unique [OF c'(1) ch] c'(2) have "suffix (a # c) c" by simp
  then show False by (auto dest: suffix_length_le)
qed

lemma ancestor_walk_iff:
  "is_chain fs h c \<Longrightarrow> ancestor_walk fs a h = Some (a \<in> set c)"
proof (induction c arbitrary: h)
  case Nil
  then show ?case by (cases h) (simp_all add: ancestor_walk.simps)
next
  case (Cons b c)
  then show ?case by (cases h) (auto simp: ancestor_walk.simps [of fs a "Some _"])
qed

lemma is_chain_cong:
  "(\<And>a. a \<in> set c \<Longrightarrow> map_option fprev (fs' a) = map_option fprev (fs a)) \<Longrightarrow> is_chain fs' h c = is_chain fs h c"
proof (induction c arbitrary: h)
  case Nil
  then show ?case by (cases h) auto
next
  case (Cons b c)
  have "map_option fprev (fs' b) = map_option fprev (fs b)" using Cons.prems by simp
  then show ?case using Cons.IH Cons.prems by (cases h; cases "fs b"; cases "fs' b") auto
qed

text \<open>The references to a filter: the threads that hold it and the filters stacked on it.\<close>

definition holders :: "sproc list \<Rightarrow> nat \<Rightarrow> nat set" where
  "holders ps a = {i. i < length ps \<and> seccomp_filter_of (ps ! i) = Some a}"

definition stacked :: "filters \<Rightarrow> nat \<Rightarrow> nat set" where
  "stacked fs a = {b. \<exists>x. fs b = Some x \<and> fprev x = Some a}"

definition refs :: "filters \<Rightarrow> sproc list \<Rightarrow> nat \<Rightarrow> nat" where
  "refs fs ps a = card (holders ps a) + card (stacked fs a)"

definition ptr_ok :: "filters \<Rightarrow> nat option \<Rightarrow> bool" where
  "ptr_ok fs h = (\<forall>a. h = Some a \<longrightarrow> fs a \<noteq> None)"

text \<open>
  The heap invariant; \<open>e\<close> is a reference a caller holds that is in no table any more
  (between clearing a pointer and putting it).
\<close>

definition filter_ok :: "filters \<Rightarrow> sproc list \<Rightarrow> nat option \<Rightarrow> nat \<Rightarrow> seccomp_filter \<Rightarrow> bool" where
  "filter_ok fs ps e a x =
     (ptr_ok fs (fprev x) \<and> refcount x = int (refs fs ps a) + (if e = Some a then 1 else 0) \<and>
      refcount x > 0 \<and> (\<exists>c. is_chain fs (Some a) c))"

definition heap_ok :: "filters \<Rightarrow> sproc list \<Rightarrow> nat option \<Rightarrow> bool" where
  "heap_ok fs ps e =
     (finite (dom fs) \<and> ptr_ok fs e \<and> (\<forall>i<length ps. ptr_ok fs (seccomp_filter_of (ps ! i))) \<and>
      (\<forall>a x. fs a = Some x \<longrightarrow> filter_ok fs ps e a x))"

lemma heap_okD:
  assumes "heap_ok fs ps e"
  shows "finite (dom fs)" "ptr_ok fs e" "i < length ps \<Longrightarrow> ptr_ok fs (seccomp_filter_of (ps ! i))"
    "fs a = Some x \<Longrightarrow> filter_ok fs ps e a x"
  using assms by (auto simp: heap_ok_def)

lemma finite_holders [simp]: "finite (holders ps a)"
  by (simp add: holders_def)

lemma finite_stacked [simp]: "finite (dom fs) \<Longrightarrow> finite (stacked fs a)"
  by (rule finite_subset [of _ "dom fs"]) (auto simp: stacked_def)

lemma heap_ok_chain: "heap_ok fs ps e \<Longrightarrow> ptr_ok fs h \<Longrightarrow> \<exists>c. is_chain fs h c"
  by (cases h) (auto simp: heap_ok_def ptr_ok_def filter_ok_def)

lemma stacked_refcount:
  assumes "fs a = Some x"
  shows "stacked (fs(a \<mapsto> x\<lparr>refcount := n\<rparr>)) b = stacked fs b"
  using assms by (auto simp: stacked_def)

lemma is_chain_refcount:
  assumes "fs a = Some x"
  shows "is_chain (fs(a \<mapsto> x\<lparr>refcount := n\<rparr>)) h c = is_chain fs h c"
  using assms by (intro is_chain_cong) auto

lemma heap_ok_refcount:
  assumes ok: "heap_ok fs ps e" and a: "fs a = Some x" and n: "n > 0"
    and holds: "\<And>b. int (refs fs ps' b) + (if e' = Some b then 1 else 0) =
      int (refs fs ps b) + (if e = Some b then 1 else 0) + (if b = a then n - refcount x else 0)"
    and ptr: "ptr_ok fs e'" "\<And>i. i < length ps' \<Longrightarrow> ptr_ok fs (seccomp_filter_of (ps' ! i))"
  shows "heap_ok (fs(a \<mapsto> x\<lparr>refcount := n\<rparr>)) ps' e'"
proof -
  let ?fs = "fs(a \<mapsto> x\<lparr>refcount := n\<rparr>)"
  have r: "refs ?fs ps' b = refs fs ps' b" for b by (simp add: refs_def stacked_refcount [of fs a x, OF a])
  have p: "ptr_ok ?fs h = ptr_ok fs h" for h using a by (auto simp: ptr_ok_def)
  have "filter_ok ?fs ps' e' b y" if y: "?fs b = Some y" for b y
  proof (cases "b = a")
    case True
    then have "y = x\<lparr>refcount := n\<rparr>" using y by simp
    then show ?thesis
      using True holds [of a] n heap_okD(4) [OF ok a] a
      by (auto simp: filter_ok_def p r is_chain_refcount [of fs a x, OF a])
  next
    case False
    then have "fs b = Some y" using y by simp
    then show ?thesis
      using heap_okD(4) [OF ok, of b y] False holds [of b] by (auto simp: filter_ok_def p r is_chain_refcount [of fs a x, OF a])
  qed
  then show ?thesis using heap_okD(1) [OF ok] ptr by (simp add: heap_ok_def p)
qed

text \<open>Freeing a filter nobody refers to passes the reference it held on to the next one.\<close>

lemma is_chain_unreferenced:
  assumes "stacked fs a = {}" "h \<noteq> Some a" "is_chain fs h c"
  shows "a \<notin> set c"
  using assms(2,3)
proof (induction c arbitrary: h)
  case Nil
  then show ?case by simp
next
  case (Cons b c)
  from Cons.prems obtain x where x: "h = Some b" "fs b = Some x" "is_chain fs (fprev x) c" by (cases h) auto
  have "fprev x \<noteq> Some a" using assms(1) x(2) by (auto simp: stacked_def)
  with Cons.IH [OF _ x(3)] Cons.prems(1) x(1) show ?case by auto
qed

lemma heap_ok_free:
  assumes ok: "heap_ok fs ps (Some a)" and a: "fs a = Some x" and free: "refcount x - 1 \<le> 0"
  shows "heap_ok (fs(a := None)) ps (fprev x)"
    "\<And>h c. h \<noteq> Some a \<Longrightarrow> is_chain fs h c \<Longrightarrow> is_chain (fs(a := None)) h c"
    "holders ps a = {}"
proof -
  let ?fs = "fs(a := None)"
  have fin: "finite (dom fs)" using ok by (simp add: heap_ok_def)
  have "refcount x = int (refs fs ps a) + 1" using heap_okD(4) [OF ok a] by (simp add: filter_ok_def)
  with free have "refs fs ps a = 0" by simp
  then have none: "holders ps a = {}" "stacked fs a = {}" using fin by (simp_all add: refs_def)
  show "holders ps a = {}" by fact
  have keep: "is_chain ?fs h c" if "h \<noteq> Some a" "is_chain fs h c" for h c
    using is_chain_unreferenced [OF none(2) that] that(2) by (subst is_chain_cong [where fs = fs]) auto
  show "\<And>h c. h \<noteq> Some a \<Longrightarrow> is_chain fs h c \<Longrightarrow> is_chain ?fs h c" by (rule keep)
  have np: "fprev y \<noteq> Some a" if "fs b = Some y" for b y using none(2) that by (auto simp: stacked_def)
  have nh: "seccomp_filter_of (ps ! i) \<noteq> Some a" if "i < length ps" for i
    using none(1) that by (auto simp: holders_def)
  have pk: "ptr_ok ?fs h" if "ptr_ok fs h" "h \<noteq> Some a" for h using that by (auto simp: ptr_ok_def)
  have st: "stacked fs b = (if fprev x = Some b then insert a (stacked ?fs b) else stacked ?fs b)"
    "a \<notin> stacked ?fs b" for b
    using a by (auto simp: stacked_def split: if_splits)
  have fst: "finite (stacked ?fs b)" for b using fin by simp
  have "refs fs ps b = refs ?fs ps b + (if fprev x = Some b then 1 else 0)" for b
    using st [of b] fst [of b] by (simp add: refs_def)
  then have rc: "int (refs fs ps b) = int (refs ?fs ps b) + (if fprev x = Some b then 1 else 0)" for b by simp
  have "filter_ok ?fs ps (fprev x) b y" if y: "?fs b = Some y" for b y
  proof -
    have b: "b \<noteq> a" "fs b = Some y" using y by (auto split: if_splits)
    note y' = heap_okD(4) [OF ok b(2), unfolded filter_ok_def]
    have "refcount y = int (refs fs ps b)" using y' b(1) by simp
    moreover have "\<exists>c. is_chain ?fs (Some b) c" using y' keep [of "Some b"] b(1) by blast
    moreover have "ptr_ok ?fs (fprev y)" using y' pk np [OF b(2)] by blast
    ultimately show ?thesis using y' rc [of b] by (simp add: filter_ok_def)
  qed
  moreover have "ptr_ok ?fs (fprev x)" using heap_okD(4) [OF ok a] np [OF a] pk by (simp add: filter_ok_def)
  moreover have "\<forall>i<length ps. ptr_ok ?fs (seccomp_filter_of (ps ! i))" using heap_okD(3) [OF ok] nh pk by blast
  moreover have "finite (dom ?fs)" using fin by simp
  ultimately show "heap_ok ?fs ps (fprev x)" unfolding heap_ok_def by blast
qed

text \<open>What survives in a heap: filters keep their program, log flag and link.\<close>

definition sub_heap :: "filters \<Rightarrow> filters \<Rightarrow> bool" where
  "sub_heap fs' fs =
     (\<forall>a x'. fs' a = Some x' \<longrightarrow>
        (\<exists>x. fs a = Some x \<and> fprev x' = fprev x \<and> flog x' = flog x \<and> insns x' = insns x))"

lemma sub_heap_refl: "sub_heap fs fs"
  by (simp add: sub_heap_def)

lemma sub_heap_trans: "sub_heap fs2 fs1 \<Longrightarrow> sub_heap fs1 fs \<Longrightarrow> sub_heap fs2 fs"
  unfolding sub_heap_def by metis

lemma filter_put_ok:
  assumes "heap_ok fs ps e" "is_chain fs e c"
  shows "\<exists>fs'. filter_put fs e = Some fs' \<and> heap_ok fs' ps None \<and> sub_heap fs' fs \<and>
    (\<forall>i<length ps. \<forall>d. is_chain fs (seccomp_filter_of (ps ! i)) d \<longrightarrow> is_chain fs' (seccomp_filter_of (ps ! i)) d)"
  using assms
proof (induction c arbitrary: fs e)
  case Nil
  then have "e = None" by (cases e) auto
  with Nil show ?case by (auto simp: filter_put.simps [of _ None] sub_heap_refl)
next
  case (Cons a c)
  then obtain x where x: "e = Some a" "fs a = Some x" "is_chain fs (fprev x) c" by (cases e) auto
  show ?case
  proof (cases "refcount x - 1 \<le> 0")
    case True
    let ?fs = "fs(a := None)"
    note fr = heap_ok_free [OF Cons.prems(1) [unfolded x(1)] x(2) True]
    have "fprev x \<noteq> Some a" using is_chain_distinct [of fs a c] Cons.prems(2) x by (cases c) auto
    then have "is_chain ?fs (fprev x) c" using fr(2) x(3) by blast
    from Cons.IH [OF fr(1) this] obtain fs' where fs': "filter_put ?fs (fprev x) = Some fs'" "heap_ok fs' ps None"
      "sub_heap fs' ?fs"
      "\<forall>i<length ps. \<forall>d. is_chain ?fs (seccomp_filter_of (ps ! i)) d \<longrightarrow> is_chain fs' (seccomp_filter_of (ps ! i)) d"
      by blast
    have "sub_heap ?fs fs" by (simp add: sub_heap_def)
    moreover have "seccomp_filter_of (ps ! i) \<noteq> Some a" if "i < length ps" for i
      using fr(3) that by (auto simp: holders_def)
    ultimately show ?thesis
      using fs' fr(2) True x sub_heap_trans [OF fs'(3)] by (auto simp: filter_put.simps [of fs "Some a"])
  next
    case False
    let ?fs = "fs(a \<mapsto> x\<lparr>refcount := refcount x - 1\<rparr>)"
    have "heap_ok ?fs ps None"
      using heap_okD(3) [OF Cons.prems(1)] x False by (intro heap_ok_refcount [OF Cons.prems(1)]) (auto simp: ptr_ok_def)
    moreover have "sub_heap ?fs fs" using x(2) by (simp add: sub_heap_def)
    ultimately show ?thesis
      using False x is_chain_refcount [of fs a x] by (auto simp: filter_put.simps [of fs "Some a"] Let_def)
  qed
qed

lemma refs_table:
  assumes "i < length ps"
  shows "int (refs fs (ps[i := q]) b) = int (refs fs ps b) +
    (if seccomp_filter_of q = Some b then 1 else 0) - (if seccomp_filter_of (ps ! i) = Some b then 1 else 0)"
proof -
  have "holders (ps[i := q]) b =
      (if seccomp_filter_of q = Some b then insert i (holders ps b - {i}) else holders ps b - {i})"
    using assms by (auto simp: holders_def nth_list_update split: if_splits)
  moreover have "i \<in> holders ps b \<longleftrightarrow> seccomp_filter_of (ps ! i) = Some b" using assms by (simp add: holders_def)
  moreover have "i \<in> holders ps b \<Longrightarrow> 0 < card (holders ps b)" by (auto simp: card_gt_0_iff)
  ultimately show ?thesis by (auto simp: refs_def card_insert_if card_Diff_singleton_if of_nat_diff)
qed

text \<open>Moving a reference between the table and the caller's hand.\<close>

lemma heap_ok_table:
  assumes ok: "heap_ok fs ps e" and i: "i < length ps" and ptr: "ptr_ok fs (seccomp_filter_of q)" "ptr_ok fs e'"
    and bal: "\<And>b. (if seccomp_filter_of q = Some b then 1 else 0) + (if e' = Some b then 1 else 0 :: int) =
      (if seccomp_filter_of (ps ! i) = Some b then 1 else 0) + (if e = Some b then 1 else 0)"
  shows "heap_ok fs (ps[i := q]) e'"
proof -
  have "filter_ok fs (ps[i := q]) e' a x" if "fs a = Some x" for a x
    using heap_okD(4) [OF ok that] bal [of a] refs_table [OF i, of fs q a] by (simp add: filter_ok_def)
  then show ?thesis using heap_okD(1,3) [OF ok] i ptr by (simp add: heap_ok_def nth_list_update)
qed

lemma heap_ok_get:
  assumes ok: "heap_ok fs ps e" and i: "i < length ps" and a: "fs a = Some x"
    and q: "seccomp_filter_of q = Some a" "e' = seccomp_filter_of (ps ! i)" "e = None"
  shows "heap_ok (fs(a \<mapsto> x\<lparr>refcount := refcount x + 1\<rparr>)) (ps[i := q]) e'"
proof (rule heap_ok_refcount [OF ok a])
  show "refcount x + 1 > 0" using heap_okD(4) [OF ok a] by (simp add: filter_ok_def)
  show "int (refs fs (ps[i := q]) b) + (if e' = Some b then 1 else 0) =
      int (refs fs ps b) + (if e = Some b then 1 else 0) + (if b = a then refcount x + 1 - refcount x else 0)" for b
    using refs_table [OF i, of fs q b] q by auto
  show "ptr_ok fs e'" using heap_okD(3) [OF ok i] q by simp
  show "ptr_ok fs (seccomp_filter_of (ps[i := q] ! j))" if "j < length (ps[i := q])" for j
    using heap_okD(3) [OF ok] that a q i by (auto simp: nth_list_update ptr_ok_def)
qed

lemma heap_ok_push:
  assumes ok: "heap_ok fs ps None" and i: "i < length ps" and fresh: "fs a = None"
    and f: "refcount f = 1" "fprev f = seccomp_filter_of (ps ! i)" and q: "seccomp_filter_of q = Some a"
  shows "heap_ok (fs(a \<mapsto> f)) (ps[i := q]) None"
    "\<And>h c. ptr_ok fs h \<Longrightarrow> is_chain fs h c \<Longrightarrow> is_chain (fs(a \<mapsto> f)) h c"
proof -
  let ?fs = "fs(a \<mapsto> f)"
  have na: "a \<notin> set c" if "is_chain fs h c" for h c
    using is_chain_suffix [OF that, of a] fresh
    by (metis is_chain.simps(2) is_chain.simps(3) list.exhaust option.distinct(1))
  show keep: "is_chain ?fs h c" if "ptr_ok fs h" "is_chain fs h c" for h c
    using na [OF that(2)] that(2) by (subst is_chain_cong [where fs = fs]) auto
  have pk: "ptr_ok ?fs h" if "ptr_ok fs h" for h using that by (auto simp: ptr_ok_def)
  have npa: "seccomp_filter_of (ps ! j) \<noteq> Some a" if "j < length ps" for j
    using heap_okD(3) [OF ok that] fresh by (auto simp: ptr_ok_def)
  have nsa: "fprev x \<noteq> Some a" if "fs b = Some x" for b x
    using heap_okD(4) [OF ok that] fresh by (auto simp: ptr_ok_def filter_ok_def)
  have st: "stacked ?fs b = (if fprev f = Some b then insert a (stacked fs b) else stacked fs b)" "a \<notin> stacked fs b"
    if "b \<noteq> a" for b
    using that fresh by (auto simp: stacked_def split: if_splits)
  have sa: "stacked ?fs a = {}" "holders (ps[i := q]) a = {i}"
    using nsa npa f(2) i q npa [OF i] by (auto simp: stacked_def holders_def nth_list_update split: if_splits)
  have fin: "finite (dom fs)" using heap_okD(1) [OF ok] .
  have r: "int (refs ?fs (ps[i := q]) b) = int (refs fs ps b)" if "b \<noteq> a" for b
    using refs_table [OF i, of fs q b] st [OF that] that q f(2) fin by (simp add: refs_def)
  have "filter_ok ?fs (ps[i := q]) None b x" if x: "?fs b = Some x" for b x
  proof (cases "b = a")
    case True
    obtain c where c: "is_chain fs (fprev f) c" using heap_ok_chain [OF ok heap_okD(3) [OF ok i]] f(2) by auto
    have "\<exists>c. is_chain ?fs (Some a) c"
      by (rule exI [of _ "a # c"]) (use keep [OF _ c] heap_okD(3) [OF ok i] f(2) in simp)
    moreover have "ptr_ok ?fs (fprev f)" using pk heap_okD(3) [OF ok i] f(2) by simp
    ultimately show ?thesis using True x f(1) sa by (auto simp: filter_ok_def refs_def)
  next
    case False
    then have fb: "fs b = Some x" using x by simp
    note y = heap_okD(4) [OF ok fb, unfolded filter_ok_def]
    have "\<exists>c. is_chain ?fs (Some b) c" using y keep [of "Some b"] fb by (auto simp: ptr_ok_def)
    then show ?thesis using y pk r [OF False] by (simp add: filter_ok_def)
  qed
  moreover have "ptr_ok ?fs (seccomp_filter_of (ps[i := q] ! j))" if "j < length (ps[i := q])" for j
    using heap_okD(3) [OF ok, of j] that pk q i by (auto simp: nth_list_update ptr_ok_def)
  ultimately show "heap_ok ?fs (ps[i := q]) None" using fin by (simp add: heap_ok_def ptr_ok_def [of _ None])
qed

section \<open>Filters are only ever added\<close>

text \<open>
  What a step may do to a thread: keep every filter in force (its old chain is a suffix of
  the new one, programs unchanged), never clear no_new_privs, never leave a mode for a weaker one.
\<close>

definition thread_ext :: "filters \<Rightarrow> sproc \<Rightarrow> filters \<Rightarrow> sproc \<Rightarrow> bool" where
  "thread_ext fs q fs' q' =
     (sp_tgid q' = sp_tgid q \<and> sp_state q' = sp_state q \<and> (no_new_privs q \<longrightarrow> no_new_privs q') \<and>
      (seccomp_mode q \<noteq> SECCOMP_MODE_DISABLED \<longrightarrow> seccomp_mode q' = seccomp_mode q) \<and>
      (\<forall>c. is_chain fs (seccomp_filter_of q) c \<longrightarrow>
         (\<exists>c'. is_chain fs' (seccomp_filter_of q') c' \<and> suffix c c' \<and>
           (\<forall>a\<in>set c. map_option insns (fs' a) = map_option insns (fs a)))))"

lemma sub_heap_insns: "sub_heap fs' fs \<Longrightarrow> fs' a = Some x' \<Longrightarrow> map_option insns (fs' a) = map_option insns (fs a)"
  unfolding sub_heap_def by (metis option.simps(9))

lemma is_chain_dom: "is_chain fs h c \<Longrightarrow> a \<in> set c \<Longrightarrow> \<exists>x. fs a = Some x"
  by (drule (1) is_chain_suffix) (metis is_chain.simps(2,3) list.exhaust)

lemma thread_ext_keep:
  assumes "sub_heap fs' fs" "\<And>d. is_chain fs (seccomp_filter_of q) d \<Longrightarrow> is_chain fs' (seccomp_filter_of q) d"
  shows "thread_ext fs q fs' q"
proof -
  have "map_option insns (fs' a) = map_option insns (fs a)"
    if "is_chain fs (seccomp_filter_of q) c" "a \<in> set c" for a c
    using is_chain_dom [OF assms(2) [OF that(1)] that(2)] sub_heap_insns [OF assms(1)] by blast
  then show ?thesis using assms(2) by (auto simp: thread_ext_def)
qed

lemma thread_ext_trans:
  assumes "thread_ext fs1 q1 fs2 q2" "thread_ext fs2 q2 fs3 q3"
  shows "thread_ext fs1 q1 fs3 q3"
proof -
  have "\<exists>c3. is_chain fs3 (seccomp_filter_of q3) c3 \<and> suffix c c3 \<and>
      (\<forall>a\<in>set c. map_option insns (fs3 a) = map_option insns (fs1 a))"
    if "is_chain fs1 (seccomp_filter_of q1) c" for c
  proof -
    obtain c2 where c2: "is_chain fs2 (seccomp_filter_of q2) c2" "suffix c c2"
      "\<forall>a\<in>set c. map_option insns (fs2 a) = map_option insns (fs1 a)"
      using assms(1) \<open>is_chain fs1 _ c\<close> by (auto simp: thread_ext_def)
    obtain c3 where "is_chain fs3 (seccomp_filter_of q3) c3" "suffix c2 c3"
      "\<forall>a\<in>set c2. map_option insns (fs3 a) = map_option insns (fs2 a)"
      using assms(2) c2(1) by (auto simp: thread_ext_def)
    with c2 show ?thesis by (metis set_mono_suffix subsetD suffix_order.trans)
  qed
  then show ?thesis using assms by (simp add: thread_ext_def)
qed

definition sec_inv :: "sec_sys \<Rightarrow> bool" where
  "sec_inv s =
     (heap_ok (filters s) (ptable s) None \<and>
      (\<forall>i<length (ptable s). seccomp_mode (ptable s ! i) \<noteq> SECCOMP_MODE_FILTER \<longrightarrow>
         seccomp_filter_of (ptable s ! i) = None) \<and>
      (\<forall>a x. filters s a = Some x \<longrightarrow> (\<exists>mem. seccomp_validate (insns x) mem = 0)))"

definition sec_ext :: "sec_sys \<Rightarrow> sec_sys \<Rightarrow> bool" where
  "sec_ext s s' =
     (length (ptable s') = length (ptable s) \<and>
      (\<forall>i<length (ptable s). thread_ext (filters s) (ptable s ! i) (filters s') (ptable s' ! i)))"

lemma thread_ext_refl: "thread_ext fs q fs q"
  by (auto simp: thread_ext_def)

lemma sec_ext_refl: "sec_ext s s"
  by (simp add: sec_ext_def thread_ext_refl)

lemma tsync_check_ok:
  assumes ch: "is_chain fs (seccomp_filter_of (ps ! p)) c"
    and modes: "\<forall>i<length ps. seccomp_mode (ps ! i) \<noteq> SECCOMP_MODE_FILTER \<longrightarrow> seccomp_filter_of (ps ! i) = None"
  shows "set is \<subseteq> {..<length ps} \<Longrightarrow> \<exists>r. tsync_check fs ps p is = Some r \<and>
    (r = None \<longrightarrow> (\<forall>i\<in>set is. tsync_peer ps p i \<longrightarrow>
       (seccomp_mode (ps ! i) = SECCOMP_MODE_DISABLED \<or> seccomp_mode (ps ! i) = SECCOMP_MODE_FILTER) \<and>
       (\<exists>d. is_chain fs (seccomp_filter_of (ps ! i)) d \<and> suffix d c)))"
proof (induction "is")
  case Nil
  then show ?case by simp
next
  case (Cons i "is")
  have anc: "\<exists>b. is_ancestor fs (seccomp_filter_of (ps ! i)) (seccomp_filter_of (ps ! p)) = Some b \<and>
      (b \<longrightarrow> (\<exists>d. is_chain fs (seccomp_filter_of (ps ! i)) d \<and> suffix d c))"
  proof (cases "seccomp_filter_of (ps ! i)")
    case None
    then show ?thesis by (auto simp: is_ancestor_def)
  next
    case (Some a)
    then show ?thesis
      using ancestor_walk_iff [OF ch, of a] is_chain_suffix [OF ch, of a] by (auto simp: is_ancestor_def)
  qed
  have "seccomp_mode (ps ! i) \<noteq> SECCOMP_MODE_FILTER \<Longrightarrow> seccomp_filter_of (ps ! i) = None" using modes Cons.prems by simp
  moreover obtain r where "tsync_check fs ps p is = Some r \<and>
    (r = None \<longrightarrow> (\<forall>i\<in>set is. tsync_peer ps p i \<longrightarrow>
       (seccomp_mode (ps ! i) = SECCOMP_MODE_DISABLED \<or> seccomp_mode (ps ! i) = SECCOMP_MODE_FILTER) \<and>
       (\<exists>d. is_chain fs (seccomp_filter_of (ps ! i)) d \<and> suffix d c)))"
    using Cons by auto
  ultimately show ?case using anc by (auto split: option.splits bool.splits)
qed

text \<open>The second TSYNC loop: every peer ends on the new chain, and nothing still in use is freed.\<close>

lemma tsync_move_ok:
  assumes "heap_ok (filters s) (ptable s) None" "p < length (ptable s)"
    "seccomp_filter_of (ptable s ! p) = Some f" "is_chain (filters s) (Some f) (f # c)"
    "set is \<subseteq> {..<length (ptable s)}" "distinct is"
    "\<forall>i\<in>set is. tsync_peer (ptable s) p i \<longrightarrow>
       (seccomp_mode (ptable s ! i) = SECCOMP_MODE_DISABLED \<or> seccomp_mode (ptable s ! i) = SECCOMP_MODE_FILTER) \<and>
       (\<exists>d. is_chain (filters s) (seccomp_filter_of (ptable s ! i)) d \<and> suffix d c)"
  shows "\<exists>s'. tsync_move f p is s = Some s' \<and> heap_ok (filters s') (ptable s') None \<and>
    sub_heap (filters s') (filters s) \<and> sec_ext s s' \<and>
    (\<forall>i<length (ptable s). ptable s' ! i = ptable s ! i \<or> seccomp_mode (ptable s' ! i) = SECCOMP_MODE_FILTER)"
  using assms
proof (induction "is" arbitrary: s)
  case Nil
  then show ?case by (simp add: sub_heap_refl sec_ext_refl)
next
  case (Cons i "is")
  show ?case
  proof (cases "tsync_peer (ptable s) p i")
    case False
    then show ?thesis using Cons by simp
  next
    case True
    let ?ps = "ptable s" and ?fs = "filters s"
    let ?q = "?ps ! i"
    let ?q' = "?q\<lparr>seccomp_filter_of := Some f,
        no_new_privs := (if no_new_privs (?ps ! p) then True else no_new_privs ?q), seccomp_mode := SECCOMP_MODE_FILTER\<rparr>"
    let ?ps' = "?ps[i := ?q']"
    have i: "i < length ?ps" "i \<noteq> p" using Cons.prems(5) True by (auto simp: tsync_peer_def)
    obtain x where x: "?fs f = Some x" using Cons.prems(4) by auto
    let ?fs1 = "?fs(f \<mapsto> x\<lparr>refcount := refcount x + 1\<rparr>)"
    have get: "ref_get ?fs f = Some ?fs1" using x by (simp add: ref_get_def)
    have ok1: "heap_ok ?fs1 ?ps' (seccomp_filter_of ?q)"
      using heap_ok_get [OF Cons.prems(1) i(1) x, of ?q'] by simp
    have ch1: "is_chain ?fs1 h d = is_chain ?fs h d" for h d using is_chain_refcount [of ?fs f x, OF x] .
    have sub1: "sub_heap ?fs1 ?fs" using x by (simp add: sub_heap_def)
    obtain d where d: "is_chain ?fs (seccomp_filter_of ?q) d" "suffix d c"
      "seccomp_mode ?q = SECCOMP_MODE_DISABLED \<or> seccomp_mode ?q = SECCOMP_MODE_FILTER"
      using Cons.prems(7) True by auto
    obtain fs2 where put: "filter_put ?fs1 (seccomp_filter_of ?q) = Some fs2" and ok2: "heap_ok fs2 ?ps' None"
      and sub2: "sub_heap fs2 ?fs1"
      and keep: "\<forall>j<length ?ps'. \<forall>e. is_chain ?fs1 (seccomp_filter_of (?ps' ! j)) e \<longrightarrow>
        is_chain fs2 (seccomp_filter_of (?ps' ! j)) e"
      using filter_put_ok [OF ok1] d(1) ch1 by blast
    let ?s = "s\<lparr>ptable := ?ps', filters := fs2\<rparr>"
    have sub: "sub_heap fs2 ?fs" using sub_heap_trans [OF sub2 sub1] .
    have other: "is_chain fs2 (seccomp_filter_of (?ps ! j)) e"
      if "j < length ?ps" "j \<noteq> i" "is_chain ?fs (seccomp_filter_of (?ps ! j)) e" for j e
      using keep that ch1 by (auto simp: nth_list_update)
    have fch: "is_chain fs2 (Some f) (f # c)"
      using other [of p "f # c"] Cons.prems(2,3,4) i(2) by (simp del: is_chain.simps)
    have ext1: "sec_ext s ?s"
    proof -
      have "thread_ext ?fs (?ps ! j) fs2 (?ps' ! j)" if "j < length ?ps" for j
      proof (cases "j = i")
        case False
        then show ?thesis using other [OF that False] sub by (simp add: thread_ext_keep)
      next
        case True
        have "map_option insns (fs2 a) = map_option insns (?fs a)" if "a \<in> set d" for a
          using that d(2) is_chain_dom [OF fch, of a] sub_heap_insns [OF sub] set_mono_suffix by fastforce
        moreover have "suffix d (f # c)" using d(2) by (rule suffix_ConsI)
        moreover have "c' = d" if "is_chain ?fs (seccomp_filter_of ?q) c'" for c'
          using is_chain_unique [OF that d(1)] .
        ultimately have "\<exists>c'. is_chain fs2 (Some f) c' \<and> suffix e c' \<and>
            (\<forall>a\<in>set e. map_option insns (fs2 a) = map_option insns (?fs a))"
          if "is_chain ?fs (seccomp_filter_of ?q) e" for e
          using that fch by blast
        then show ?thesis using True i d(3) by (auto simp: thread_ext_def)
      qed
      then show ?thesis by (simp add: sec_ext_def)
    qed
    have peers: "tsync_peer ?ps' p j = tsync_peer ?ps p j" for j
      using i by (auto simp: tsync_peer_def nth_list_update live_def)
    have "\<exists>s'. tsync_move f p is ?s = Some s' \<and> heap_ok (filters s') (ptable s') None \<and>
        sub_heap (filters s') (filters ?s) \<and> sec_ext ?s s' \<and>
        (\<forall>i<length (ptable ?s). ptable s' ! i = ptable ?s ! i \<or> seccomp_mode (ptable s' ! i) = SECCOMP_MODE_FILTER)"
    proof (rule Cons.IH)
      show "\<forall>j\<in>set is. tsync_peer (ptable ?s) p j \<longrightarrow>
          (seccomp_mode (ptable ?s ! j) = SECCOMP_MODE_DISABLED \<or> seccomp_mode (ptable ?s ! j) = SECCOMP_MODE_FILTER) \<and>
          (\<exists>d. is_chain (filters ?s) (seccomp_filter_of (ptable ?s ! j)) d \<and> suffix d c)"
      proof (intro ballI impI)
        fix j assume j: "j \<in> set is" "tsync_peer (ptable ?s) p j"
        then have ji: "j \<noteq> i" "j < length ?ps" using Cons.prems(5,6) by auto
        have "tsync_peer ?ps p j" using j(2) peers [of j] by simp
        then obtain d' where "is_chain ?fs (seccomp_filter_of (?ps ! j)) d'" "suffix d' c"
          "seccomp_mode (?ps ! j) = SECCOMP_MODE_DISABLED \<or> seccomp_mode (?ps ! j) = SECCOMP_MODE_FILTER"
          using Cons.prems(7) j(1) by auto
        then show "(seccomp_mode (ptable ?s ! j) = SECCOMP_MODE_DISABLED \<or>
            seccomp_mode (ptable ?s ! j) = SECCOMP_MODE_FILTER) \<and>
          (\<exists>d. is_chain (filters ?s) (seccomp_filter_of (ptable ?s ! j)) d \<and> suffix d c)"
          using other [OF ji(2,1), of d'] ji(1) by auto
      qed
    qed (use ok2 fch Cons.prems i in auto)
    then obtain s' where s': "tsync_move f p is ?s = Some s'" "heap_ok (filters s') (ptable s') None"
      "sub_heap (filters s') fs2" "sec_ext ?s s'"
      "\<forall>i<length ?ps. ptable s' ! i = ?ps' ! i \<or> seccomp_mode (ptable s' ! i) = SECCOMP_MODE_FILTER" by auto
    have "sec_ext s s'" using ext1 s'(4) by (auto simp: sec_ext_def intro: thread_ext_trans)
    moreover have "ptable s' ! j = ?ps ! j \<or> seccomp_mode (ptable s' ! j) = SECCOMP_MODE_FILTER" if "j < length ?ps" for j
      using s'(5) that by (cases "j = i") auto
    moreover have "tsync_move f p (i # is) s = Some s'"
      using True get put s'(1) by (simp add: Let_def)
    ultimately show ?thesis using s' sub_heap_trans [OF s'(3) sub] by blast
  qed
qed

lemma set_mode_filter_push:
  assumes inv: "sec_inv s" and i: "i < length (ptable s)" and fresh: "filters s a = None"
    and f: "refcount f = 1" "fprev f = seccomp_filter_of (ptable s ! i)" "\<exists>mem. seccomp_validate (insns f) mem = 0"
    and mode: "seccomp_mode (ptable s ! i) = SECCOMP_MODE_DISABLED \<or> seccomp_mode (ptable s ! i) = SECCOMP_MODE_FILTER"
    and s1: "s1 = s\<lparr>ptable := (ptable s)[i := (ptable s ! i)\<lparr>seccomp_filter_of := Some a, seccomp_mode := SECCOMP_MODE_FILTER\<rparr>],
      filters := (filters s)(a \<mapsto> f)\<rparr>"
  shows "sec_inv s1 \<and> sec_ext s s1"
proof
  let ?q = "(ptable s ! i)\<lparr>seccomp_filter_of := Some a, seccomp_mode := SECCOMP_MODE_FILTER\<rparr>"
  have ok: "heap_ok (filters s) (ptable s) None" using inv by (simp add: sec_inv_def)
  have push: "heap_ok ((filters s)(a \<mapsto> f)) ((ptable s)[i := ?q]) None"
    "\<And>h c. ptr_ok (filters s) h \<Longrightarrow> is_chain (filters s) h c \<Longrightarrow> is_chain ((filters s)(a \<mapsto> f)) h c"
    using heap_ok_push [OF ok i fresh f(1,2), of ?q] by simp_all
  show "sec_inv s1"
    using inv push(1) f(3) i by (auto simp: sec_inv_def s1 nth_list_update)
  have "thread_ext (filters s) (ptable s ! j) ((filters s)(a \<mapsto> f)) ((ptable s)[i := ?q] ! j)"
    if j: "j < length (ptable s)" for j
  proof -
    have same: "map_option insns (((filters s)(a \<mapsto> f)) b) = map_option insns (filters s b)"
      if "is_chain (filters s) h c" "b \<in> set c" for b h c
      using is_chain_dom [OF that] fresh by auto
    have keep: "is_chain ((filters s)(a \<mapsto> f)) (seccomp_filter_of (ptable s ! j)) c"
      if "is_chain (filters s) (seccomp_filter_of (ptable s ! j)) c" for c
      using push(2) [OF heap_okD(3) [OF ok j] that] .
    show ?thesis
    proof (cases "j = i")
      case True
      have "\<exists>c'. is_chain ((filters s)(a \<mapsto> f)) (Some a) c' \<and> suffix c c' \<and>
          (\<forall>b\<in>set c. map_option insns (((filters s)(a \<mapsto> f)) b) = map_option insns (filters s b))"
        if c: "is_chain (filters s) (seccomp_filter_of (ptable s ! i)) c" for c
        using keep c f(2) True same [OF c]
        by (intro exI [of _ "a # c"]) (auto intro: suffix_ConsI)
      then show ?thesis using True i mode by (auto simp: thread_ext_def simp del: fun_upd_apply)
    next
      case False
      then show ?thesis using keep same by (auto simp: thread_ext_def)
    qed
  qed
  then show "sec_ext s s1" by (simp add: sec_ext_def s1)
qed

lemma sub_heap_validated:
  assumes "sub_heap fs' fs" "\<forall>a x. fs a = Some x \<longrightarrow> (\<exists>mem. seccomp_validate (insns x) mem = 0)"
  shows "\<forall>a x. fs' a = Some x \<longrightarrow> (\<exists>mem. seccomp_validate (insns x) mem = 0)"
  using assms unfolding sub_heap_def by metis

lemma seccomp_validate_cases: "\<not> seccomp_validate prog mem < 0 \<Longrightarrow> seccomp_validate prog mem = 0"
  by (auto simp: seccomp_validate_def Let_def split: if_splits option.splits)

lemma tsync_install_ok:
  assumes inv: "sec_inv s" and inv1: "sec_inv s1" and ext1: "sec_ext s s1" and i: "i < length (ptable s)"
    and s1: "s1 = s\<lparr>ptable := (ptable s)[i := (ptable s ! i)\<lparr>seccomp_filter_of := Some a, seccomp_mode := SECCOMP_MODE_FILTER\<rparr>],
      filters := (filters s)(a \<mapsto> f)\<rparr>"
    and f: "fprev f = seccomp_filter_of (ptable s ! i)" and c: "is_chain (filters s) (seccomp_filter_of (ptable s ! i)) c"
    and chk: "tsync_check (filters s) (ptable s) i [0..<length (ptable s)] = Some None" and fresh: "filters s a = None"
  shows "\<exists>s2. tsync_move a i [0..<length (ptable s)] s1 = Some s2 \<and> sec_inv s2 \<and> sec_ext s s2"
proof -
  let ?ps = "ptable s" and ?ps1 = "ptable s1" and ?is = "[0..<length (ptable s)]"
  have ok: "heap_ok (filters s) ?ps None" and ok1: "heap_ok (filters s1) ?ps1 None"
    using inv inv1 by (auto simp: sec_inv_def)
  have modes: "\<forall>i<length ?ps. seccomp_mode (?ps ! i) \<noteq> SECCOMP_MODE_FILTER \<longrightarrow> seccomp_filter_of (?ps ! i) = None"
    using inv by (simp add: sec_inv_def)
  have peers: "\<forall>j\<in>set ?is. tsync_peer ?ps i j \<longrightarrow>
      (seccomp_mode (?ps ! j) = SECCOMP_MODE_DISABLED \<or> seccomp_mode (?ps ! j) = SECCOMP_MODE_FILTER) \<and>
      (\<exists>d. is_chain (filters s) (seccomp_filter_of (?ps ! j)) d \<and> suffix d c)"
    using tsync_check_ok [OF c modes, of ?is] chk by (simp add: lessThan_atLeast0)
  have tp: "tsync_peer ?ps1 i j = tsync_peer ?ps i j" for j
    using i by (auto simp: s1 tsync_peer_def nth_list_update live_def)
  have keep: "is_chain (filters s1) h d" if "is_chain (filters s) h d" for h d
  proof -
    have "a \<notin> set d" using is_chain_dom [OF that, of a] fresh by auto
    then show ?thesis using that by (subst is_chain_cong [where fs = "filters s"]) (auto simp: s1)
  qed
  have "\<exists>s2. tsync_move a i ?is s1 = Some s2 \<and> heap_ok (filters s2) (ptable s2) None \<and>
      sub_heap (filters s2) (filters s1) \<and> sec_ext s1 s2 \<and>
      (\<forall>i<length ?ps1. ptable s2 ! i = ?ps1 ! i \<or> seccomp_mode (ptable s2 ! i) = SECCOMP_MODE_FILTER)"
  proof (rule tsync_move_ok [OF ok1])
    show "is_chain (filters s1) (Some a) (a # c)" using keep [OF c] f by (simp add: s1)
    show "\<forall>j\<in>set ?is. tsync_peer ?ps1 i j \<longrightarrow>
        (seccomp_mode (?ps1 ! j) = SECCOMP_MODE_DISABLED \<or> seccomp_mode (?ps1 ! j) = SECCOMP_MODE_FILTER) \<and>
        (\<exists>d. is_chain (filters s1) (seccomp_filter_of (?ps1 ! j)) d \<and> suffix d c)"
    proof (intro ballI impI)
      fix j assume j: "j \<in> set ?is" "tsync_peer ?ps1 i j"
      have "tsync_peer ?ps i j" using j(2) tp by blast
      moreover from this have "j \<noteq> i" by (simp add: tsync_peer_def)
      ultimately have "j \<noteq> i" "tsync_peer ?ps i j" by blast+
      then have "?ps1 ! j = ?ps ! j" by (simp add: s1)
      moreover obtain d where "is_chain (filters s) (seccomp_filter_of (?ps ! j)) d" "suffix d c"
        "seccomp_mode (?ps ! j) = SECCOMP_MODE_DISABLED \<or> seccomp_mode (?ps ! j) = SECCOMP_MODE_FILTER"
        using peers j(1) \<open>tsync_peer ?ps i j\<close> by blast
      ultimately show "(seccomp_mode (?ps1 ! j) = SECCOMP_MODE_DISABLED \<or>
          seccomp_mode (?ps1 ! j) = SECCOMP_MODE_FILTER) \<and>
        (\<exists>d. is_chain (filters s1) (seccomp_filter_of (?ps1 ! j)) d \<and> suffix d c)"
        using keep [of _ d] by auto
    qed
  qed (use i in \<open>auto simp: s1\<close>)
  then obtain s2 where s2: "tsync_move a i ?is s1 = Some s2" "heap_ok (filters s2) (ptable s2) None"
    "sub_heap (filters s2) (filters s1)" "sec_ext s1 s2"
    "\<forall>i<length ?ps1. ptable s2 ! i = ?ps1 ! i \<or> seccomp_mode (ptable s2 ! i) = SECCOMP_MODE_FILTER" by blast
  have len: "length (ptable s2) = length ?ps1" using s2(4) by (simp add: sec_ext_def)
  have "seccomp_mode (ptable s2 ! j) \<noteq> SECCOMP_MODE_FILTER \<Longrightarrow> seccomp_filter_of (ptable s2 ! j) = None"
    if "j < length (ptable s2)" for j
    using s2(5) that len inv1 by (metis sec_inv_def)
  moreover have "\<forall>a x. filters s2 a = Some x \<longrightarrow> (\<exists>mem. seccomp_validate (insns x) mem = 0)"
    using sub_heap_validated [OF s2(3)] inv1 by (simp add: sec_inv_def)
  ultimately have "sec_inv s2" using s2(2) by (simp add: sec_inv_def)
  moreover have "sec_ext s s2" using ext1 s2(4) by (auto simp: sec_ext_def intro: thread_ext_trans)
  ultimately show ?thesis using s2(1) by blast
qed

lemma set_mode_filter_ok:
  assumes inv: "sec_inv s" and i: "i < length (ptable s)" and fresh: "\<And>a. new = Some a \<Longrightarrow> filters s a = None"
  shows "\<exists>r s'. set_mode_filter s i um new vmem flags uprog = Some (r, s') \<and> sec_inv s' \<and> sec_ext s s' \<and>
    (s' \<noteq> s \<longrightarrow> r = 0 \<and> (no_new_privs (ptable s ! i) \<or> sp_euid (ptable s ! i) = 0))"
proof -
  let ?p = "ptable s ! i"
  have ok: "heap_ok (filters s) (ptable s) None" using inv by (simp add: sec_inv_def)
  define fprog where "fprog = snd (copy_from_user um uprog 8)"
  define r where "r = fst (copy_from_user um uprog 8)"
  define len where "len = unat (le_bytes (take 2 fprog) :: u16)"
  define cp where "cp = copy_from_user um (le_bytes (take 4 (drop 4 fprog))) (len * 8)"
  define prog where "prog = decode_prog len (snd cp)"
  obtain c where c: "filter_chain (filters s) (seccomp_filter_of ?p) = Some c"
    using heap_ok_chain [OF ok heap_okD(3) [OF ok i]] by (auto simp: filter_chain_iff)
  have ch: "is_chain (filters s) (seccomp_filter_of ?p) c" using c by (simp add: filter_chain_iff)
  define tc where "tc = (if flags AND FLAG_TSYNC \<noteq> 0 then tsync_check (filters s) (ptable s) i [0..<length (ptable s)] else Some None)"
  obtain t0 where "tsync_check (filters s) (ptable s) i [0..<length (ptable s)] = Some t0"
    using tsync_check_ok [OF ch, of "[0..<length (ptable s)]"] inv
    by (auto simp: sec_inv_def lessThan_atLeast0)
  then have "tc \<noteq> None" by (simp add: tc_def)
  then obtain t where t: "tc = Some t" by blast
  have unf: "set_mode_filter s i um new vmem flags uprog =
     (if flags AND NOT (FLAG_TSYNC OR FLAG_LOG OR FLAG_SPEC_ALLOW OR FLAG_TSYNC_ESRCH) \<noteq> 0 then Some (- EINVAL, s)
      else if uprog = 0 \<or> r < 0 then Some (- EFAULT, s)
      else if len = 0 \<or> len > SECCOMP_MAX_INSNS then Some (- EINVAL, s)
      else if \<not> no_new_privs ?p \<and> sp_euid ?p \<noteq> 0 then Some (- EACCES, s)
      else case new of None \<Rightarrow> Some (- ENOMEM, s)
      | Some a \<Rightarrow>
        if fst cp < 0 then Some (- EFAULT, s)
        else if seccomp_validate prog vmem < 0 then Some (seccomp_validate prog vmem, s)
        else if seccomp_mode ?p \<noteq> SECCOMP_MODE_DISABLED \<and> seccomp_mode ?p \<noteq> SECCOMP_MODE_FILTER then Some (- EINVAL, s)
        else if path_total (filters s) len c > SECCOMP_MAX_PATH_INSNS then Some (- ENOMEM, s)
        else case t of
            Some j \<Rightarrow> Some (if flags AND FLAG_TSYNC_ESRCH \<noteq> 0 then - ESRCH else sp_pid (ptable s ! j), s)
          | None \<Rightarrow>
            (let f = \<lparr>refcount = 1, fprev = seccomp_filter_of ?p, flog = (flags AND FLAG_LOG \<noteq> 0), insns = prog\<rparr>;
                 p' = ?p\<lparr>seccomp_filter_of := Some a, seccomp_mode := SECCOMP_MODE_FILTER\<rparr>;
                 s1 = s\<lparr>ptable := (ptable s)[i := p'], filters := (filters s)(a \<mapsto> f)\<rparr>
             in if flags AND FLAG_TSYNC \<noteq> 0
                then map_option (\<lambda>s2. (0, s2)) (tsync_move a i [0..<length (ptable s)] s1)
                else Some (0, s1)))"
    unfolding set_mode_filter_def Let_def case_prod_unfold c option.case tc_def [symmetric] t
    by (simp only: r_def fprog_def len_def cp_def prog_def)
  have inst: "\<exists>s'. (if flags AND FLAG_TSYNC \<noteq> 0
        then map_option (\<lambda>s2. (0, s2)) (tsync_move a i [0..<length (ptable s)] s1) else Some (0, s1)) = Some (0, s') \<and>
      sec_inv s' \<and> sec_ext s s'"
    if a: "new = Some a" "\<not> seccomp_validate prog vmem < 0" "t = None"
      "seccomp_mode ?p = SECCOMP_MODE_DISABLED \<or> seccomp_mode ?p = SECCOMP_MODE_FILTER"
      and s1: "s1 = s\<lparr>ptable := (ptable s)[i := ?p\<lparr>seccomp_filter_of := Some a, seccomp_mode := SECCOMP_MODE_FILTER\<rparr>],
        filters := (filters s)(a \<mapsto> f)\<rparr>"
      and f: "f = \<lparr>refcount = 1, fprev = seccomp_filter_of ?p, flog = (flags AND FLAG_LOG \<noteq> 0), insns = prog\<rparr>" for a s1 f
  proof -
    have fr: "filters s a = None" using fresh a(1) .
    have p: "sec_inv s1 \<and> sec_ext s s1"
      using seccomp_validate_cases [OF a(2)] a(4) f by (intro set_mode_filter_push [OF inv i fr _ _ _ _ s1]) auto
    show ?thesis
    proof (cases "flags AND FLAG_TSYNC \<noteq> 0")
      case False
      then show ?thesis using p by simp
    next
      case True
      then have "tsync_check (filters s) (ptable s) i [0..<length (ptable s)] = Some None" using t a(3) by (simp add: tc_def)
      from tsync_install_ok [OF inv _ _ i s1 _ ch this fr] p f True show ?thesis by auto
    qed
  qed
  show ?thesis
  proof (cases t)
    case (Some j)
    then show ?thesis unfolding unf using inv sec_ext_refl by (auto split: option.splits)
  next
    case None
    show ?thesis
      unfolding unf Let_def using inst [OF _ _ None _ refl refl] None inv sec_ext_refl
      by (auto split: option.splits)
  qed
qed

lemma set_mode_strict_ok:
  assumes inv: "sec_inv s" and i: "i < length (ptable s)" and r: "set_mode_strict s i = (r, s')"
  shows "sec_inv s' \<and> sec_ext s s'"
proof (cases "seccomp_mode (ptable s ! i) \<noteq> SECCOMP_MODE_DISABLED \<and> seccomp_mode (ptable s ! i) \<noteq> SECCOMP_MODE_STRICT")
  case True
  then show ?thesis using r inv by (auto simp: set_mode_strict_def sec_ext_refl)
next
  case False
  let ?q = "(ptable s ! i)\<lparr>seccomp_mode := SECCOMP_MODE_STRICT\<rparr>"
  have s': "s' = s\<lparr>ptable := (ptable s)[i := ?q]\<rparr>" using False r by (auto simp: set_mode_strict_def Let_def split: if_splits)
  have ok: "heap_ok (filters s) (ptable s) None" using inv by (simp add: sec_inv_def)
  have "heap_ok (filters s) ((ptable s)[i := ?q]) None"
    using heap_okD(3) [OF ok i] by (intro heap_ok_table [OF ok i]) (auto simp: ptr_ok_def)
  moreover have "seccomp_filter_of (ptable s ! i) = None" using inv i False by (auto simp: sec_inv_def)
  moreover have "thread_ext (filters s) (ptable s ! i) (filters s) ?q" using False by (auto simp: thread_ext_def)
  ultimately show ?thesis
    using inv i thread_ext_refl by (auto simp: sec_inv_def sec_ext_def s' nth_list_update)
qed

lemma fork_ok:
  assumes inv: "sec_inv s" and c: "child < length (ptable s)" and p: "parent < length (ptable s)"
    and none: "seccomp_filter_of (ptable s ! child) = None" and ne: "child \<noteq> parent"
  shows "\<exists>s'. seccomp_fork s child parent = Some s' \<and> sec_inv s' \<and>
    thread_ext (filters s) (ptable s ! parent) (filters s') (ptable s' ! parent) \<and>
    seccomp_filter_of (ptable s' ! child) = seccomp_filter_of (ptable s ! parent) \<and>
    seccomp_mode (ptable s' ! child) = seccomp_mode (ptable s ! parent) \<and>
    no_new_privs (ptable s' ! child) = no_new_privs (ptable s ! parent) \<and>
    (\<forall>d. is_chain (filters s) (seccomp_filter_of (ptable s ! parent)) d \<longrightarrow>
         is_chain (filters s') (seccomp_filter_of (ptable s' ! child)) d)"
proof -
  let ?p = "ptable s ! parent"
  let ?c = "(ptable s ! child)\<lparr>no_new_privs := no_new_privs ?p, seccomp_mode := seccomp_mode ?p,
    seccomp_filter_of := seccomp_filter_of ?p\<rparr>"
  have ok: "heap_ok (filters s) (ptable s) None" using inv by (simp add: sec_inv_def)
  show ?thesis
  proof (cases "seccomp_filter_of ?p")
    case None
    have "heap_ok (filters s) ((ptable s)[child := ?c]) None"
      using None none by (intro heap_ok_table [OF ok c]) (auto simp: ptr_ok_def)
    then show ?thesis
      using None inv c p ne by (auto simp: seccomp_fork_def sec_inv_def thread_ext_refl nth_list_update Let_def)
  next
    case (Some a)
    then obtain x where x: "filters s a = Some x" using heap_okD(3) [OF ok p] by (auto simp: ptr_ok_def)
    let ?fs = "(filters s)(a \<mapsto> x\<lparr>refcount := refcount x + 1\<rparr>)"
    have h: "heap_ok ?fs ((ptable s)[child := ?c]) None"
      using heap_ok_get [OF ok c x, of ?c None] Some none by simp
    have ch: "is_chain ?fs h d = is_chain (filters s) h d" for h d using is_chain_refcount [of "filters s" a x, OF x] .
    have sub: "sub_heap ?fs (filters s)" using x by (simp add: sub_heap_def)
    have "thread_ext (filters s) ?p ?fs ?p" using sub ch by (intro thread_ext_keep) auto
    moreover have "\<forall>a x. ?fs a = Some x \<longrightarrow> (\<exists>mem. seccomp_validate (insns x) mem = 0)"
      using sub_heap_validated [OF sub] inv by (simp add: sec_inv_def)
    moreover have "\<forall>i<length (ptable s). seccomp_mode ((ptable s)[child := ?c] ! i) \<noteq> SECCOMP_MODE_FILTER \<longrightarrow>
        seccomp_filter_of ((ptable s)[child := ?c] ! i) = None"
      using inv c p by (auto simp: sec_inv_def nth_list_update)
    moreover have "seccomp_fork s child parent = Some (s\<lparr>ptable := (ptable s)[child := ?c], filters := ?fs\<rparr>)"
      using Some x c by (simp add: seccomp_fork_def ref_get_def Let_def)
    ultimately show ?thesis using h c p ne ch by (simp add: sec_inv_def)
  qed
qed

lemma release_ok:
  assumes inv: "sec_inv s" and i: "i < length (ptable s)"
  shows "\<exists>s'. seccomp_release s i = Some s' \<and> sec_inv s' \<and>
    (\<forall>j<length (ptable s). j \<noteq> i \<longrightarrow> thread_ext (filters s) (ptable s ! j) (filters s') (ptable s' ! j))"
proof -
  let ?q = "(ptable s ! i)\<lparr>seccomp_filter_of := None\<rparr>"
  let ?ps = "(ptable s)[i := ?q]"
  have ok: "heap_ok (filters s) (ptable s) None" using inv by (simp add: sec_inv_def)
  obtain c where c: "is_chain (filters s) (seccomp_filter_of (ptable s ! i)) c"
    using heap_ok_chain [OF ok heap_okD(3) [OF ok i]] by blast
  have "heap_ok (filters s) ?ps (seccomp_filter_of (ptable s ! i))"
    using heap_okD(3) [OF ok i] by (intro heap_ok_table [OF ok i]) (auto simp: ptr_ok_def)
  from filter_put_ok [OF this c] obtain fs where fs: "filter_put (filters s) (seccomp_filter_of (ptable s ! i)) = Some fs"
    "heap_ok fs ?ps None" "sub_heap fs (filters s)"
    "\<forall>j<length ?ps. \<forall>d. is_chain (filters s) (seccomp_filter_of (?ps ! j)) d \<longrightarrow> is_chain fs (seccomp_filter_of (?ps ! j)) d"
    by blast
  let ?s = "s\<lparr>ptable := ?ps, filters := fs\<rparr>"
  have "\<forall>j<length (ptable s). seccomp_mode (?ps ! j) \<noteq> SECCOMP_MODE_FILTER \<longrightarrow> seccomp_filter_of (?ps ! j) = None"
    using inv i by (auto simp: sec_inv_def nth_list_update)
  moreover have "\<forall>a x. fs a = Some x \<longrightarrow> (\<exists>mem. seccomp_validate (insns x) mem = 0)"
    using sub_heap_validated [OF fs(3)] inv by (simp add: sec_inv_def)
  ultimately have "sec_inv ?s" using fs(2) by (simp add: sec_inv_def)
  moreover have "thread_ext (filters s) (ptable s ! j) fs (?ps ! j)" if "j < length (ptable s)" "j \<noteq> i" for j
    using fs(4) [rule_format, of j] that thread_ext_keep [OF fs(3), of "ptable s ! j"] by simp
  moreover have "seccomp_release s i = Some ?s" using fs(1) by (simp add: seccomp_release_def Let_def)
  ultimately show ?thesis by auto
qed

lemma sys_seccomp_ok:
  assumes inv: "sec_inv s" and i: "i < length (ptable s)" and fresh: "\<And>a. new = Some a \<Longrightarrow> filters s a = None"
  shows "\<exists>r s'. sys_seccomp s i um new vmem op flags uargs = Some (r, s') \<and> sec_inv s' \<and> sec_ext s s'"
    "\<exists>r s'. seccomp_prctl_set s i um new vmem mode uprog = Some (r, s') \<and> sec_inv s' \<and> sec_ext s s'"
proof -
  have st: "\<exists>r s'. set_mode_strict s i = (r, s') \<and> sec_inv s' \<and> sec_ext s s'"
    using set_mode_strict_ok [OF inv i] by (cases "set_mode_strict s i") auto
  have fl: "\<exists>r s'. set_mode_filter s i um new vmem flags uprog = Some (r, s') \<and> sec_inv s' \<and> sec_ext s s'" for flags uprog
    using set_mode_filter_ok [OF inv i fresh] by blast
  have id: "\<exists>r' s'. Some (r, s) = Some (r', s') \<and> sec_inv s' \<and> sec_ext s s'" for r :: int
    using inv sec_ext_refl by blast
  show "\<exists>r s'. sys_seccomp s i um new vmem op flags uargs = Some (r, s') \<and> sec_inv s' \<and> sec_ext s s'"
    unfolding sys_seccomp_def Let_def case_prod_unfold using st fl id by (auto split: prod.splits)
  show "\<exists>r s'. seccomp_prctl_set s i um new vmem mode uprog = Some (r, s') \<and> sec_inv s' \<and> sec_ext s s'"
    unfolding seccomp_prctl_set_def using st fl id by auto
qed

section \<open>Verdicts\<close>

text \<open>What the chain of a thread answers for a system call: the loop of the hook.\<close>

definition chain_ret :: "sec_sys \<Rightarrow> nat \<Rightarrow> u32 list \<Rightarrow> u32 option" where
  "chain_ret s i data =
     (case filter_chain (filters s) (seccomp_filter_of (ptable s ! i)) of None \<Rightarrow> None
      | Some c \<Rightarrow> map_option fst (run_chain (filters s) data c (RET_ALLOW, None)))"

definition filter_ret :: "filters \<Rightarrow> u32 list \<Rightarrow> nat \<Rightarrow> u32 option" where
  "filter_ret fs data a = Option.bind (map_option insns (fs a)) (\<lambda>p. seccomp_run p data)"

lemma run_chain_total:
  assumes "length data = 16" "\<forall>a\<in>set c. \<exists>x mem. fs a = Some x \<and> seccomp_validate (insns x) mem = 0"
  shows "\<exists>ret m. run_chain fs data c acc = Some (ret, m) \<and> action_rank ret \<le> action_rank (fst acc) \<and>
    (\<forall>a\<in>set c. \<exists>r. filter_ret fs data a = Some r \<and> action_rank ret \<le> action_rank r) \<and>
    (action_rank ret = action_rank (fst acc) \<or>
     (\<exists>a\<in>set c. \<exists>r. filter_ret fs data a = Some r \<and> action_rank ret = action_rank r))"
  using assms(2)
proof (induction c arbitrary: acc)
  case Nil
  then show ?case by (cases acc) simp
next
  case (Cons a c)
  obtain x mem where x: "fs a = Some x" "seccomp_validate (insns x) mem = 0" using Cons.prems by auto
  obtain r where r: "seccomp_run (insns x) data = Some r" using seccomp_run_total [OF x(2) assms(1)] .
  have fr: "filter_ret fs data a = Some r" using x r by (simp add: filter_ret_def)
  define acc' where "acc' = (if action_rank r < action_rank (fst acc) then (r, Some a) else acc)"
  have m: "action_rank (fst acc') \<le> action_rank r" "action_rank (fst acc') \<le> action_rank (fst acc)"
    "action_rank (fst acc') = action_rank r \<or> action_rank (fst acc') = action_rank (fst acc)"
    by (auto simp: acc'_def)
  obtain ret m' where ih: "run_chain fs data c acc' = Some (ret, m')" "action_rank ret \<le> action_rank (fst acc')"
    "\<forall>a\<in>set c. \<exists>r. filter_ret fs data a = Some r \<and> action_rank ret \<le> action_rank r"
    "action_rank ret = action_rank (fst acc') \<or>
     (\<exists>a\<in>set c. \<exists>r. filter_ret fs data a = Some r \<and> action_rank ret = action_rank r)"
    using Cons.IH [of acc'] Cons.prems by auto
  have "run_chain fs data (a # c) acc = Some (ret, m')" using x r ih(1) by (simp add: acc'_def)
  moreover have "action_rank ret \<le> action_rank r" "action_rank ret \<le> action_rank (fst acc)" using ih(2) m by auto
  ultimately show ?case using ih(3,4) m(3) fr by auto
qed

lemma sec_inv_chain:
  assumes "sec_inv s" "i < length (ptable s)"
  obtains c where "is_chain (filters s) (seccomp_filter_of (ptable s ! i)) c"
    "\<forall>a\<in>set c. \<exists>x mem. filters s a = Some x \<and> seccomp_validate (insns x) mem = 0"
proof -
  have ok: "heap_ok (filters s) (ptable s) None" using assms(1) by (simp add: sec_inv_def)
  obtain c where c: "is_chain (filters s) (seccomp_filter_of (ptable s ! i)) c"
    using heap_ok_chain [OF ok heap_okD(3) [OF ok assms(2)]] by blast
  have "\<forall>a\<in>set c. \<exists>x mem. filters s a = Some x \<and> seccomp_validate (insns x) mem = 0"
    using is_chain_dom [OF c] assms(1) unfolding sec_inv_def by blast
  with c show thesis by (rule that)
qed

lemma ext_restricts:
  assumes inv: "sec_inv s" "sec_inv s'" and ext: "sec_ext s s'" and j: "j < length (ptable s)" and d: "length data = 16"
  shows "\<exists>ret ret'. chain_ret s j data = Some ret \<and> chain_ret s' j data = Some ret' \<and> action_rank ret' \<le> action_rank ret"
proof -
  have j': "j < length (ptable s')" using ext j by (simp add: sec_ext_def)
  obtain c where c: "is_chain (filters s) (seccomp_filter_of (ptable s ! j)) c"
    "\<forall>a\<in>set c. \<exists>x mem. filters s a = Some x \<and> seccomp_validate (insns x) mem = 0"
    using sec_inv_chain [OF inv(1) j] .
  obtain c' where c': "is_chain (filters s') (seccomp_filter_of (ptable s' ! j)) c'"
    "\<forall>a\<in>set c'. \<exists>x mem. filters s' a = Some x \<and> seccomp_validate (insns x) mem = 0"
    using sec_inv_chain [OF inv(2) j'] .
  have e: "suffix c c'" "\<forall>a\<in>set c. map_option insns (filters s' a) = map_option insns (filters s a)"
    using ext j c(1) is_chain_unique [OF c'(1)] unfolding sec_ext_def thread_ext_def by blast+
  obtain ret m where r: "run_chain (filters s) data c (RET_ALLOW, None) = Some (ret, m)"
    "action_rank ret \<le> action_rank RET_ALLOW"
    "action_rank ret = action_rank RET_ALLOW \<or>
     (\<exists>a\<in>set c. \<exists>r. filter_ret (filters s) data a = Some r \<and> action_rank ret = action_rank r)"
    using run_chain_total [OF d c(2), of "(RET_ALLOW, None)"] by auto
  obtain ret' m' where r': "run_chain (filters s') data c' (RET_ALLOW, None) = Some (ret', m')"
    "action_rank ret' \<le> action_rank RET_ALLOW"
    "\<forall>a\<in>set c'. \<exists>r. filter_ret (filters s') data a = Some r \<and> action_rank ret' \<le> action_rank r"
    using run_chain_total [OF d c'(2), of "(RET_ALLOW, None)"] by auto
  have "filter_ret (filters s') data a = filter_ret (filters s) data a" if "a \<in> set c" for a
    using e(2) that by (simp add: filter_ret_def)
  then have "action_rank ret' \<le> action_rank ret"
    using r(3) r'(2,3) e(1) by (metis option.inject set_mono_suffix subsetD)
  moreover have "chain_ret s j data = Some ret" "chain_ret s' j data = Some ret'"
    using c(1) c'(1) r(1) r'(1) by (simp_all add: chain_ret_def flip: filter_chain_iff)
  ultimately show ?thesis by blast
qed

lemma length_seccomp_data [simp]: "length (seccomp_data r nr) = 16"
  by (simp add: seccomp_data_def)

lemma enter_ok:
  assumes inv: "sec_inv s" and i: "i < length (ptable s)" and m: "seccomp_mode (ptable s ! i) \<noteq> SECCOMP_MODE_STRICT"
  obtains v b l c where "seccomp_syscall_enter s i budget r nr = Some (v, b, l)"
    "filter_chain (filters s) (seccomp_filter_of (ptable s ! i)) = Some c"
    "v = Proceed \<longrightarrow> (\<forall>a\<in>set c. \<exists>x. filter_ret (filters s) (seccomp_data r nr) a = Some x \<and>
       action_rank RET_LOG \<le> action_rank x)"
proof -
  obtain c where c: "is_chain (filters s) (seccomp_filter_of (ptable s ! i)) c"
    "\<forall>a\<in>set c. \<exists>x mem. filters s a = Some x \<and> seccomp_validate (insns x) mem = 0"
    using sec_inv_chain [OF inv i] .
  have fc: "filter_chain (filters s) (seccomp_filter_of (ptable s ! i)) = Some c" using c(1) by (simp add: filter_chain_iff)
  obtain ret mt where r: "run_chain (filters s) (seccomp_data r nr) c (RET_ALLOW, None) = Some (ret, mt)"
    "\<forall>a\<in>set c. \<exists>x. filter_ret (filters s) (seccomp_data r nr) a = Some x \<and> action_rank ret \<le> action_rank x"
    using run_chain_total [OF _ c(2), of "seccomp_data r nr" "(RET_ALLOW, None)"] by auto
  obtain v b l where e: "seccomp_syscall_enter s i budget r nr = Some (v, b, l)"
    using m fc r(1) by (cases "seccomp_syscall_enter s i budget r nr") (auto simp: seccomp_syscall_enter_def Let_def)
  have "action_rank RET_LOG \<le> action_rank ret" if v: "v = Proceed"
  proof -
    have "ret AND RET_ACTION_FULL = RET_ALLOW \<or> ret AND RET_ACTION_FULL = RET_LOG"
      using e m fc r(1) v
      by (simp add: seccomp_syscall_enter_def Let_def kill_thread_def split: if_splits)
    then show ?thesis by (auto simp: action_rank_def)
  qed
  then show thesis using that [OF e fc] r(2) by (meson order.trans)
qed

section \<open>Everything that can happen\<close>

text \<open>
  The steps of the system: a thread's seccomp and prctl calls, fork, exit, and what the rest
  of the kernel does to the process table (ids and states; a slot that holds no filter may be
  given to a new process, which starts with seccomp disabled). kmalloc returns a free address.
\<close>

inductive sec_step :: "sec_sys \<Rightarrow> sec_sys \<Rightarrow> bool" where
  sec_call: "i < length (ptable s) \<Longrightarrow> \<forall>a. new = Some a \<longrightarrow> filters s a = None \<Longrightarrow>
    sys_seccomp s i um new vmem op flags uargs = Some (r, s') \<Longrightarrow> sec_step s s'"
| sec_prctl: "i < length (ptable s) \<Longrightarrow> \<forall>a. new = Some a \<longrightarrow> filters s a = None \<Longrightarrow>
    seccomp_prctl_set s i um new vmem mode uprog = Some (r, s') \<Longrightarrow> sec_step s s'"
| sec_nnp: "i < length (ptable s) \<Longrightarrow> prctl_set_no_new_privs s i a2 a3 a4 a5 = (r, s') \<Longrightarrow> sec_step s s'"
| sec_fork: "child < length (ptable s) \<Longrightarrow> parent < length (ptable s) \<Longrightarrow> child \<noteq> parent \<Longrightarrow>
    seccomp_filter_of (ptable s ! child) = None \<Longrightarrow> seccomp_fork s child parent = Some s' \<Longrightarrow> sec_step s s'"
| sec_exit: "i < length (ptable s) \<Longrightarrow> seccomp_release s i = Some s' \<Longrightarrow> sec_step s s'"
| sec_env: "length ps = length (ptable s) \<Longrightarrow>
    (\<And>i. i < length ps \<Longrightarrow> seccomp_filter_of (ps ! i) = seccomp_filter_of (ptable s ! i) \<and>
       (seccomp_mode (ps ! i) = seccomp_mode (ptable s ! i) \<or> seccomp_filter_of (ps ! i) = None)) \<Longrightarrow>
    sec_step s (s\<lparr>ptable := ps\<rparr>)"

definition sec_init :: "sec_sys \<Rightarrow> bool" where
  "sec_init s =
     (filters s = Map.empty \<and>
      (\<forall>q\<in>set (ptable s). seccomp_filter_of q = None \<and> seccomp_mode q = SECCOMP_MODE_DISABLED))"

lemma holders_cong:
  "length ps' = length ps \<Longrightarrow> (\<And>i. i < length ps \<Longrightarrow> seccomp_filter_of (ps' ! i) = seccomp_filter_of (ps ! i)) \<Longrightarrow>
   holders ps' a = holders ps a"
  by (auto simp: holders_def)

lemma heap_ok_cong:
  assumes "length ps' = length ps" "\<And>i. i < length ps \<Longrightarrow> seccomp_filter_of (ps' ! i) = seccomp_filter_of (ps ! i)"
  shows "heap_ok fs ps' e = heap_ok fs ps e"
  using assms holders_cong [OF assms] by (simp add: heap_ok_def filter_ok_def refs_def)

lemma nnp_ok:
  assumes "sec_inv s" "i < length (ptable s)" "prctl_set_no_new_privs s i a2 a3 a4 a5 = (r, s')"
  shows "sec_inv s'"
proof -
  let ?ps = "(ptable s)[i := (ptable s ! i)\<lparr>no_new_privs := True\<rparr>]"
  have "heap_ok (filters s) ?ps None = heap_ok (filters s) (ptable s) None"
    using assms(2) by (intro heap_ok_cong) (simp_all add: nth_list_update)
  then show ?thesis
    using assms by (auto simp: prctl_set_no_new_privs_def sec_inv_def nth_list_update split: if_splits)
qed

lemma sec_step_inv:
  assumes "sec_step s s'" "sec_inv s"
  shows "sec_inv s'"
  using assms
proof (cases rule: sec_step.cases)
  case (sec_call i new um vmem op flags uargs r)
  then show ?thesis using sys_seccomp_ok(1) [OF assms(2) sec_call(1), of new um vmem op flags uargs] by auto
next
  case (sec_prctl i new um vmem mode uprog r)
  then show ?thesis using sys_seccomp_ok(2) [OF assms(2) sec_prctl(1), of new um vmem mode uprog] by auto
next
  case (sec_nnp i a2 a3 a4 a5 r)
  then show ?thesis using nnp_ok assms(2) by blast
next
  case (sec_fork child parent)
  then show ?thesis using fork_ok [OF assms(2), of child parent] by auto
next
  case (sec_exit i)
  then show ?thesis using release_ok [OF assms(2), of i] by auto
next
  case (sec_env ps)
  have "heap_ok (filters s) ps None = heap_ok (filters s) (ptable s) None"
    using sec_env by (intro heap_ok_cong) auto
  moreover have "seccomp_filter_of (ps ! i) = None"
    if "i < length ps" "seccomp_mode (ps ! i) \<noteq> SECCOMP_MODE_FILTER" for i
    using sec_env(3) [OF that(1)] that assms(2) sec_env(2) by (metis sec_inv_def)
  ultimately show ?thesis using assms(2) sec_env(1) by (simp add: sec_inv_def)
qed

interpretation seccomp_system: transition_invariant sec_init sec_step sec_inv
proof
  fix s assume "sec_init s"
  then show "sec_inv s" by (auto simp: sec_init_def sec_inv_def heap_ok_def ptr_ok_def)
qed (rule sec_step_inv)

lemma sec_inv_reach: "sec_init s0 \<Longrightarrow> sec_step\<^sup>*\<^sup>* s0 s \<Longrightarrow> sec_inv s"
  by (rule seccomp_system.inv_reachable)

section \<open>Properties\<close>

text \<open>C2: Adding a filter never weakens anything. In every reachable state a seccomp(2) call, TSYNC
  included, runs without touching freed memory, and afterwards every thread's old filter
  chain is a suffix of its new one with its programs unchanged, its mode and no_new_privs are
  kept, and for every system call the chain's answer is at least as restrictive as before.\<close>

theorem seccomp_never_weakened:
  assumes "sec_init s0" "sec_step\<^sup>*\<^sup>* s0 s" "i < length (ptable s)" "\<forall>a. new = Some a \<longrightarrow> filters s a = None"
  shows "\<exists>r s'. sys_seccomp s i um new vmem op flags uargs = Some (r, s') \<and> sec_ext s s' \<and>
    (\<forall>j data. j < length (ptable s) \<and> length data = 16 \<longrightarrow>
       (\<exists>ret ret'. chain_ret s j data = Some ret \<and> chain_ret s' j data = Some ret' \<and>
          action_rank ret' \<le> action_rank ret))"
proof -
  have inv: "sec_inv s" using sec_inv_reach [OF assms(1,2)] .
  obtain r s' where "sys_seccomp s i um new vmem op flags uargs = Some (r, s')" "sec_inv s'" "sec_ext s s'"
    using sys_seccomp_ok(1) [OF inv assms(3), of new um vmem op flags uargs] assms(4) by auto
  then show ?thesis using ext_restricts [OF inv] by blast
qed

text \<open>C15: Filters in the heap are counted exactly: in every reachable state every filter's reference
  count is positive and is the number of threads that hold it plus the number of filters
  stacked on it, every pointer leads to a live filter, and every chain ends; so a filter is
  freed exactly when the last thread that is under it goes.\<close>

theorem seccomp_refcounts:
  assumes "sec_init s0" "sec_step\<^sup>*\<^sup>* s0 s"
  shows "(\<forall>a x. filters s a = Some x \<longrightarrow>
      refcount x > 0 \<and> refcount x = int (card (holders (ptable s) a) + card (stacked (filters s) a))) \<and>
    (\<forall>i<length (ptable s). \<exists>c. filter_chain (filters s) (seccomp_filter_of (ptable s ! i)) = Some c)"
proof -
  have inv: "sec_inv s" using sec_inv_reach [OF assms] .
  have "\<exists>c. filter_chain (filters s) (seccomp_filter_of (ptable s ! i)) = Some c" if "i < length (ptable s)" for i
    using sec_inv_chain [OF inv that] by (auto simp: filter_chain_iff)
  moreover have "refcount x > 0 \<and> refcount x = int (card (holders (ptable s) a) + card (stacked (filters s) a))"
    if "filters s a = Some x" for a x
    using inv that heap_okD(4) [of "filters s" "ptable s" None a x] by (simp add: sec_inv_def filter_ok_def refs_def)
  ultimately show ?thesis by blast
qed


text \<open>C37: A filter is installed only by a thread that has set no_new_privs or runs as root: any other
  caller of SECCOMP_SET_MODE_FILTER leaves the system unchanged; and a child starts with
  exactly its parent's chain, mode and no_new_privs, the parent keeping its own.\<close>

theorem seccomp_install_and_inherit:
  assumes "sec_init s0" "sec_step\<^sup>*\<^sup>* s0 s" "i < length (ptable s)" "child < length (ptable s)" "child \<noteq> i"
    "seccomp_filter_of (ptable s ! child) = None" "\<forall>a. new = Some a \<longrightarrow> filters s a = None"
  shows "(\<not> no_new_privs (ptable s ! i) \<and> sp_euid (ptable s ! i) \<noteq> 0 \<longrightarrow>
      (\<exists>r. set_mode_filter s i um new vmem flags uprog = Some (r, s))) \<and>
    (\<exists>s'. seccomp_fork s child i = Some s' \<and>
      seccomp_mode (ptable s' ! child) = seccomp_mode (ptable s ! i) \<and>
      no_new_privs (ptable s' ! child) = no_new_privs (ptable s ! i) \<and>
      filter_chain (filters s') (seccomp_filter_of (ptable s' ! child)) =
        filter_chain (filters s) (seccomp_filter_of (ptable s ! i)) \<and>
      thread_ext (filters s) (ptable s ! i) (filters s') (ptable s' ! i))"
proof -
  have inv: "sec_inv s" using sec_inv_reach [OF assms(1,2)] .
  obtain c where c: "is_chain (filters s) (seccomp_filter_of (ptable s ! i)) c"
    using sec_inv_chain [OF inv assms(3)] .
  obtain r s1 where f: "set_mode_filter s i um new vmem flags uprog = Some (r, s1)"
    "s1 \<noteq> s \<longrightarrow> no_new_privs (ptable s ! i) \<or> sp_euid (ptable s ! i) = 0"
    using set_mode_filter_ok [OF inv assms(3), of new um vmem flags uprog] assms(7) by auto
  obtain s' where s': "seccomp_fork s child i = Some s'"
    "thread_ext (filters s) (ptable s ! i) (filters s') (ptable s' ! i)"
    "seccomp_mode (ptable s' ! child) = seccomp_mode (ptable s ! i)"
    "no_new_privs (ptable s' ! child) = no_new_privs (ptable s ! i)"
    "is_chain (filters s') (seccomp_filter_of (ptable s' ! child)) c"
    using fork_ok [OF inv assms(4,3,6,5)] c by blast
  have "filter_chain (filters s') (seccomp_filter_of (ptable s' ! child)) = Some c"
    "filter_chain (filters s) (seccomp_filter_of (ptable s ! i)) = Some c"
    using s'(5) c by (simp_all add: filter_chain_iff)
  then show ?thesis using f s' by auto
qed

definition sec_example :: sec_sys where
  "sec_example =
     \<lparr>ptable = [\<lparr>sp_pid = 1, sp_tgid = 1, sp_state = PROC_RUNNING, sp_euid = 1000, no_new_privs = False,
                 seccomp_mode = 0, seccomp_filter_of = None\<rparr>,
                \<lparr>sp_pid = 2, sp_tgid = 1, sp_state = PROC_RUNNABLE, sp_euid = 1000, no_new_privs = False,
                 seccomp_mode = 0, seccomp_filter_of = None\<rparr>],
      filters = Map.empty\<rparr>"

lemma sec_init_example: "sec_init sec_example" "length (ptable sec_example) = 2"
  by (simp_all add: sec_init_def sec_example_def)

theorem seccomp_never_weakened_witness:
  "\<exists>r s'. sys_seccomp sec_example 0 um_all (Some 7) True 1 1 0x10000 = Some (r, s') \<and> sec_ext sec_example s'"
  using seccomp_never_weakened [OF sec_init_example(1) rtranclp.rtrancl_refl, of 0 "Some 7" um_all True 1 1 "0x10000"]
    sec_init_example(2) by (auto simp: sec_example_def)

theorem seccomp_refcounts_witness:
  "sec_init sec_example \<and> (\<exists>c. filter_chain (filters sec_example) (seccomp_filter_of (ptable sec_example ! 0)) = Some c)"
  using seccomp_refcounts [OF sec_init_example(1) rtranclp.rtrancl_refl] sec_init_example by simp


theorem seccomp_install_and_inherit_witness:
  "\<exists>r. set_mode_filter sec_example 0 um_all (Some 7) True 0 0x10000 = Some (r, sec_example)"
  using seccomp_install_and_inherit [OF sec_init_example(1) rtranclp.rtrancl_refl, of 0 1 "Some 7" um_all True 0 "0x10000"]
  by (simp add: sec_example_def)

end
