(* ===== verification/Flock.thy ===== *)
theory Flock
  imports Usermem
begin

text \<open>
  Advisory file locks (proc/flock.c): flock(2), POSIX record locks and OFD locks in one hash
  table of lists, with the per-user accounting. The linked list of a bucket is a HOL list in
  its order, the user-visible structures are read and written through user memory, and what
  kmalloc answers is an argument. A lock call that has to wait is given the sequence of its
  wakeups: the table it finds each time, and whether its descriptor is still the same.
  Offsets are mathematical integers here; \<open>flock_range_exact\<close> shows that the 64-bit ones
  of the source never overflow.
\<close>

section \<open>State\<close>

datatype lk_kind = LK_FLOCK | LK_POSIX | LK_OFD

abbreviation (input) F_RDLCK :: int where "F_RDLCK \<equiv> 0"
abbreviation (input) F_WRLCK :: int where "F_WRLCK \<equiv> 1"
abbreviation (input) F_UNLCK :: int where "F_UNLCK \<equiv> 2"
abbreviation (input) OFF_MAX :: int where "OFF_MAX \<equiv> 0x7FFFFFFFFFFFFFFF"
abbreviation (input) LOCK_HASH :: nat where "LOCK_HASH \<equiv> 64"
abbreviation (input) LOCKS_MAX :: int where "LOCKS_MAX \<equiv> 16384"
abbreviation (input) LOCKS_PER_UID :: int where "LOCKS_PER_UID \<equiv> 4096"
abbreviation (input) LOCK_UID_SLOTS :: nat where "LOCK_UID_SLOTS \<equiv> 64"

record fkey =
  k_dev :: u32
  k_ino :: u32
  k_fs :: u32

record flk =
  lkey :: fkey
  lkind :: lk_kind
  ltype :: int
  lstart :: int
  lend :: int
  lowner :: u32
  lpid :: int
  luid :: u32

text \<open>The two counters: \<open>nlocks\<close> and the slots of \<open>lock_uids\<close>.\<close>

record acct =
  nlocks :: int
  lock_uids :: "(u32 \<times> int) list"

record lstate =
  lock_hash :: "nat \<Rightarrow> flk list"
  acct :: acct

section \<open>Accounting\<close>

definition lock_charge :: "acct \<Rightarrow> u32 \<Rightarrow> acct option" where
  "lock_charge ac uid =
     (if nlocks ac \<ge> LOCKS_MAX then None
      else if uid \<noteq> 0 then
        (let us = lock_uids ac;
             slot = (case find (\<lambda>i. snd (us ! i) > 0 \<and> fst (us ! i) = uid) [0..<LOCK_UID_SLOTS] of
                       Some i \<Rightarrow> Some i
                     | None \<Rightarrow> find (\<lambda>i. snd (us ! i) = 0) [0..<LOCK_UID_SLOTS])
         in case slot of None \<Rightarrow> None
            | Some i \<Rightarrow>
                if snd (us ! i) \<ge> LOCKS_PER_UID then None
                else Some (ac\<lparr>lock_uids := us[i := (uid, snd (us ! i) + 1)], nlocks := nlocks ac + 1\<rparr>))
      else Some (ac\<lparr>nlocks := nlocks ac + 1\<rparr>))"

definition lock_uncharge :: "acct \<Rightarrow> u32 \<Rightarrow> acct" where
  "lock_uncharge ac uid =
     (let ac' = ac\<lparr>nlocks := nlocks ac - 1\<rparr>; us = lock_uids ac in
      if uid = 0 then ac'
      else case find (\<lambda>i. snd (us ! i) > 0 \<and> fst (us ! i) = uid) [0..<LOCK_UID_SLOTS] of
             None \<Rightarrow> ac'
           | Some i \<Rightarrow> ac'\<lparr>lock_uids := us[i := (fst (us ! i), snd (us ! i) - 1)]\<rparr>)"

text \<open>\<open>mem\<close>: whether kmalloc found room. The result: success, and the counters afterwards.\<close>

definition flk_alloc :: "bool \<Rightarrow> acct \<Rightarrow> u32 \<Rightarrow> bool \<times> acct" where
  "flk_alloc mem ac uid =
     (case lock_charge ac uid of None \<Rightarrow> (False, ac)
      | Some ac' \<Rightarrow> if \<not> mem then (False, lock_uncharge ac' uid) else (True, ac'))"

section \<open>The table\<close>

record vnode =
  n_addr :: u32
  n_inode :: u32
  n_dev :: u32
  n_read_fn :: u32
  n_size :: u64

definition key_of :: "vnode \<Rightarrow> fkey" where
  "key_of n =
     (if n_inode n \<noteq> 0 then \<lparr>k_dev = n_dev n, k_ino = n_inode n, k_fs = n_read_fn n\<rparr>
      else \<lparr>k_dev = 0xFFFFFFFF, k_ino = 0, k_fs = n_addr n\<rparr>)"

definition same_file :: "flk \<Rightarrow> fkey \<Rightarrow> bool" where
  "same_file l k = (k_dev (lkey l) = k_dev k \<and> k_ino (lkey l) = k_ino k \<and> k_fs (lkey l) = k_fs k)"

definition bucket :: "fkey \<Rightarrow> nat" where
  "bucket k =
     (let h = (k_dev k * 2654435761) XOR (k_ino k * 40503) XOR k_fs k; h' = h XOR drop_bit 16 h
      in unat h' mod LOCK_HASH)"

definition bsd_kind :: "lk_kind \<Rightarrow> bool" where
  "bsd_kind kind = (kind = LK_FLOCK)"

definition conflicts :: "flk \<Rightarrow> fkey \<Rightarrow> lk_kind \<Rightarrow> u32 \<Rightarrow> int \<Rightarrow> int \<Rightarrow> int \<Rightarrow> bool" where
  "conflicts l k kind owner type start fin =
     (if \<not> same_file l k \<or> bsd_kind (lkind l) \<noteq> bsd_kind kind then False
      else if lkind l = kind \<and> lowner l = owner then False
      else if ltype l = F_RDLCK \<and> type = F_RDLCK then False
      else lstart l \<le> fin \<and> start \<le> lend l)"

definition find_conflict :: "lstate \<Rightarrow> fkey \<Rightarrow> lk_kind \<Rightarrow> u32 \<Rightarrow> int \<Rightarrow> int \<Rightarrow> int \<Rightarrow> flk option" where
  "find_conflict s k kind owner type start fin =
     find (\<lambda>l. conflicts l k kind owner type start fin) (lock_hash s (bucket k))"

text \<open>The loop of \<open>unlock_range\<close>: success, whether anything went, the counters and the list.\<close>

fun unlock_walk ::
  "bool \<Rightarrow> fkey \<Rightarrow> lk_kind \<Rightarrow> u32 \<Rightarrow> int \<Rightarrow> int \<Rightarrow> acct \<Rightarrow> flk list \<Rightarrow> bool \<times> bool \<times> acct \<times> flk list" where
  "unlock_walk mem k kind owner start fin ac [] = (True, False, ac, [])"
| "unlock_walk mem k kind owner start fin ac (l # ls) =
     (if \<not> same_file l k \<or> lkind l \<noteq> kind \<or> lowner l \<noteq> owner \<or> lend l < start \<or> lstart l > fin then
        (let (ok, woke, ac', ls') = unlock_walk mem k kind owner start fin ac ls in (ok, woke, ac', l # ls'))
      else if lstart l < start \<and> lend l > fin then
        (let (ok, ac') = flk_alloc mem ac (luid l) in
         if \<not> ok then (False, True, ac', l # ls)
         else (True, True, ac', l\<lparr>lend := start - 1\<rparr> # l\<lparr>lstart := fin + 1\<rparr> # ls))
      else if lstart l < start then
        (let (ok, woke, ac', ls') = unlock_walk mem k kind owner start fin ac ls
         in (ok, True, ac', l\<lparr>lend := start - 1\<rparr> # ls'))
      else if lend l > fin then
        (let (ok, woke, ac', ls') = unlock_walk mem k kind owner start fin ac ls
         in (ok, True, ac', l\<lparr>lstart := fin + 1\<rparr> # ls'))
      else
        (let (ok, woke, ac', ls') = unlock_walk mem k kind owner start fin (lock_uncharge ac (luid l)) ls
         in (ok, True, ac', ls')))"

text \<open>The result code, the state, and whether the waiters are woken.\<close>

definition unlock_range :: "bool \<Rightarrow> lstate \<Rightarrow> fkey \<Rightarrow> lk_kind \<Rightarrow> u32 \<Rightarrow> int \<Rightarrow> int \<Rightarrow> int \<times> lstate \<times> bool" where
  "unlock_range mem s k kind owner start fin =
     (let b = bucket k; (ok, woke, ac, ls) = unlock_walk mem k kind owner start fin (acct s) (lock_hash s b);
          s' = s\<lparr>lock_hash := (lock_hash s)(b := ls), acct := ac\<rparr>
      in if ok then (0, s', woke) else (- ENOLCK, s', False))"

fun remove_walk :: "(flk \<Rightarrow> bool) \<Rightarrow> acct \<Rightarrow> flk list \<Rightarrow> bool \<times> acct \<times> flk list" where
  "remove_walk match ac [] = (False, ac, [])"
| "remove_walk match ac (l # ls) =
     (if match l then (let (w, ac', ls') = remove_walk match (lock_uncharge ac (luid l)) ls in (True, ac', ls'))
      else (let (w, ac', ls') = remove_walk match ac ls in (w, ac', l # ls')))"

definition remove_bucket :: "(flk \<Rightarrow> bool) \<Rightarrow> nat \<Rightarrow> lstate \<times> bool \<Rightarrow> lstate \<times> bool" where
  "remove_bucket match b sw =
     (let (s, woke) = sw; (w, ac, ls) = remove_walk match (acct s) (lock_hash s b)
      in (s\<lparr>lock_hash := (lock_hash s)(b := ls), acct := ac\<rparr>, woke \<or> w))"

definition unlock_all :: "lstate \<Rightarrow> nat option \<Rightarrow> (flk \<Rightarrow> bool) \<Rightarrow> lstate \<times> bool" where
  "unlock_all s only match =
     (case only of Some b \<Rightarrow> remove_bucket match b (s, False)
      | None \<Rightarrow> foldl (\<lambda>sw b. remove_bucket match b sw) (s, False) [0..<LOCK_HASH])"

section \<open>Taking a lock\<close>

text \<open>The end of \<open>set_lock_locked\<close>, once nothing conflicts: \<open>mem1\<close> for the record, \<open>mem2\<close> for a split.\<close>

definition lock_insert ::
  "bool \<Rightarrow> bool \<Rightarrow> lstate \<Rightarrow> fkey \<Rightarrow> lk_kind \<Rightarrow> u32 \<Rightarrow> int \<Rightarrow> int \<Rightarrow> int \<Rightarrow> u32 \<Rightarrow> int \<Rightarrow> int \<times> lstate" where
  "lock_insert mem1 mem2 s k kind owner type start fin uid tgid =
     (let (ok, ac) = flk_alloc mem1 (acct s) uid; s1 = s\<lparr>acct := ac\<rparr> in
      if \<not> ok then (- ENOLCK, s1)
      else
        let (r, s2, woke) = unlock_range mem2 s1 k kind owner start fin in
        if r < 0 then (r, s2\<lparr>acct := lock_uncharge (acct s2) uid\<rparr>)
        else
          let n = \<lparr>lkey = k, lkind = kind, ltype = type, lstart = start, lend = fin, lowner = owner,
                   lpid = tgid, luid = uid\<rparr>; b = bucket k
          in (0, s2\<lparr>lock_hash := (lock_hash s2)(b := n # lock_hash s2 b)\<rparr>))"

text \<open>
  The wait loop. Each wakeup carries the table found, whether the descriptor is unchanged,
  and whether a signal is then pending; None: still asleep after the given wakeups.
\<close>

fun set_lock_locked ::
  "(lstate \<times> bool \<times> bool) list \<Rightarrow> bool \<Rightarrow> bool \<Rightarrow> lstate \<Rightarrow> fkey \<Rightarrow> lk_kind \<Rightarrow> u32 \<Rightarrow> int \<Rightarrow> int \<Rightarrow> int \<Rightarrow>
   bool \<Rightarrow> bool \<Rightarrow> u32 \<Rightarrow> int \<Rightarrow> (int \<times> lstate) option" where
  "set_lock_locked ws mem1 mem2 s k kind owner type start fin nb sig uid tgid =
     (if type = F_UNLCK then (let (r, s', woke) = unlock_range mem2 s k kind owner start fin in Some (r, s'))
      else if find_conflict s k kind owner type start fin = None then
        Some (lock_insert mem1 mem2 s k kind owner type start fin uid tgid)
      else if nb then Some (- EAGAIN, s)
      else if sig then Some (- EINTR, s)
      else (case ws of [] \<Rightarrow> None
            | (s', same, sig') # ws' \<Rightarrow>
                if \<not> same then Some (- EBADF, s')
                else set_lock_locked ws' mem1 mem2 s' k kind owner type start fin nb sig' uid tgid))"

declare set_lock_locked.simps [simp del]

section \<open>The calls\<close>

datatype fd_type = FD_NONE | FD_FILE | FD_OTHER

record pfile =
  f_type :: fd_type
  f_node :: "vnode option"
  f_fid :: u32
  f_flags :: int
  f_offset :: u64

text \<open>\<open>newfid\<close>: what \<open>fd_new_fid\<close> returns. The result: None while asleep.\<close>

definition flock_bsd ::
  "(lstate \<times> bool \<times> bool) list \<Rightarrow> bool \<Rightarrow> bool \<Rightarrow> bool \<Rightarrow> u32 \<Rightarrow> lstate \<Rightarrow> pfile \<Rightarrow> u32 \<Rightarrow> bool \<Rightarrow> u32 \<Rightarrow> int \<Rightarrow>
   (int \<times> pfile \<times> lstate) option" where
  "flock_bsd ws mem0 mem1 mem2 newfid s f op sig uid tgid =
     (if op AND NOT 15 \<noteq> 0 then Some (- EINVAL, f, s)
      else if f_type f \<noteq> FD_FILE \<or> f_node f = None then Some (if f_type f = FD_NONE then - EBADF else - EINVAL, f, s)
      else
        let op' = op AND NOT 4;
            type = (if op' = 1 then F_RDLCK else if op' = 2 then F_WRLCK else if op' = 8 then F_UNLCK else -1)
        in if type = -1 then Some (- EINVAL, f, s)
           else if f_fid f = 0 \<and> type = F_UNLCK then Some (0, f, s)
           else
             let f' = (if f_fid f = 0 then f\<lparr>f_fid := newfid\<rparr> else f); k = key_of (the (f_node f));
                 old = find (\<lambda>l. same_file l k \<and> lkind l = LK_FLOCK \<and> lowner l = f_fid f') (lock_hash s (bucket k))
             in if (case old of Some l \<Rightarrow> ltype l = type | None \<Rightarrow> False) then Some (0, f', s)
                else
                  let s1 = (case old of None \<Rightarrow> s
                            | Some _ \<Rightarrow> fst (snd (unlock_range mem0 s k LK_FLOCK (f_fid f') 0 OFF_MAX)))
                  in map_option (\<lambda>(r, s'). (r, f', s'))
                       (set_lock_locked ws mem1 mem2 s1 k LK_FLOCK (f_fid f') type 0 OFF_MAX (op AND 4 \<noteq> 0) sig uid tgid))"

record kflock =
  fl_type :: int
  fl_whence :: int
  fl_start :: int
  fl_len :: int
  fl_pid :: int

definition sle :: "u8 list \<Rightarrow> 'a::len itself \<Rightarrow> int" where
  "sle bs (_ :: 'a itself) = sint (le_bytes bs :: 'a word)"

definition kflock64_read :: "u8 list \<Rightarrow> kflock" where
  "kflock64_read bs =
     \<lparr>fl_type = sle (take 2 bs) TYPE(16), fl_whence = sle (take 2 (drop 2 bs)) TYPE(16),
      fl_start = sle (take 8 (drop 4 bs)) TYPE(64), fl_len = sle (take 8 (drop 12 bs)) TYPE(64),
      fl_pid = sle (take 4 (drop 20 bs)) TYPE(32)\<rparr>"

definition kflock32_read :: "u8 list \<Rightarrow> kflock" where
  "kflock32_read bs =
     \<lparr>fl_type = sle (take 2 bs) TYPE(16), fl_whence = sle (take 2 (drop 2 bs)) TYPE(16),
      fl_start = sle (take 4 (drop 4 bs)) TYPE(32), fl_len = sle (take 4 (drop 8 bs)) TYPE(32),
      fl_pid = sle (take 4 (drop 12 bs)) TYPE(32)\<rparr>"

definition kflock64_write :: "kflock \<Rightarrow> u8 list" where
  "kflock64_write x =
     le_enc 2 (fl_type x) @ le_enc 2 (fl_whence x) @ le_enc 8 (fl_start x) @ le_enc 8 (fl_len x) @ le_enc 4 (fl_pid x)"

definition kflock32_write :: "kflock \<Rightarrow> u8 list" where
  "kflock32_write x =
     le_enc 2 (fl_type x) @ le_enc 2 (fl_whence x) @ le_enc 4 (fl_start x) @ le_enc 4 (fl_len x) @ le_enc 4 (fl_pid x)"

text \<open>The byte range of a request: an error, or start and inclusive end.\<close>

definition flock_range :: "int \<Rightarrow> int \<Rightarrow> int \<Rightarrow> int + int \<times> int" where
  "flock_range base fstart len =
     (if fstart > 0 \<and> base > OFF_MAX - fstart then Inl (- EOVERFLOW)
      else
        let start = base + fstart in
        if start < 0 then Inl (- EINVAL)
        else if len > 0 then
          (if len - 1 > OFF_MAX - start then Inl (- EOVERFLOW) else Inr (start, start + len - 1))
        else if len < 0 then
          (if len < - start then Inl (- EINVAL)
           else if start + len < 0 then Inl (- EINVAL) else Inr (start + len, start - 1))
        else Inr (start, OFF_MAX))"

definition getlk_answer :: "kflock \<Rightarrow> flk option \<Rightarrow> kflock" where
  "getlk_answer fl l =
     (case l of None \<Rightarrow> fl\<lparr>fl_type := F_UNLCK\<rparr>
      | Some l \<Rightarrow>
          fl\<lparr>fl_type := ltype l, fl_whence := 0, fl_start := lstart l,
             fl_len := (if lend l = OFF_MAX then 0 else lend l - lstart l + 1),
             fl_pid := (if lkind l = LK_OFD then - 1 else lpid l)\<rparr>)"

text \<open>The rest of the call, once the range is known: F_GETLK, or the lock request.\<close>

definition fcntl_range ::
  "(lstate \<times> bool \<times> bool) list \<Rightarrow> bool \<Rightarrow> bool \<Rightarrow> u32 \<Rightarrow> umem \<Rightarrow> lstate \<Rightarrow> pfile \<Rightarrow> int \<Rightarrow> u32 \<Rightarrow> u32 \<Rightarrow> bool \<Rightarrow> u32 \<Rightarrow> int \<Rightarrow>
   kflock \<Rightarrow> int \<Rightarrow> int \<Rightarrow> (int \<times> umem \<times> pfile \<times> lstate) option" where
  "fcntl_range ws mem1 mem2 newfid um s f cmd uarg fdt sig uid tgid fl start fin =
     (let wide = (cmd \<ge> 12); ofd = (cmd \<ge> 36); get = (cmd = 5 \<or> cmd = 12 \<or> cmd = 36); wait = (cmd = 7 \<or> cmd = 14 \<or> cmd = 38);
          kind = (if ofd then LK_OFD else LK_POSIX);
          f1 = (if ofd \<and> f_fid f = 0 then f\<lparr>f_fid := newfid\<rparr> else f);
          owner = (if ofd then f_fid f1 else fdt); k = key_of (the (f_node f)); acc = f_flags f mod 4
      in if get then
           (if fl_type fl = F_UNLCK then Some (- EINVAL, um, f1, s)
            else
              let out = getlk_answer fl (find_conflict s k kind owner (fl_type fl) start fin) in
              if wide then
                (let (r, um') = copy_to_user um uarg (kflock64_write out)
                 in Some (if r < 0 then - EFAULT else 0, um', f1, s))
              else if fl_type out \<noteq> F_UNLCK \<and> (fl_start out > 0x7FFFFFFF \<or> fl_len out > 0x7FFFFFFF)
              then Some (- EOVERFLOW, um, f1, s)
              else (let (r, um') = copy_to_user um uarg (kflock32_write out)
                    in Some (if r < 0 then - EFAULT else 0, um', f1, s)))
         else if fl_type fl = F_RDLCK \<and> acc = 1 then Some (- EBADF, um, f1, s)
         else if fl_type fl = F_WRLCK \<and> acc = 0 then Some (- EBADF, um, f1, s)
         else
           let f2 = (if wait \<and> f_fid f1 = 0 then f1\<lparr>f_fid := newfid\<rparr> else f1)
           in map_option (\<lambda>(r, s'). (r, um, f2, s'))
                (set_lock_locked ws mem1 mem2 s k kind owner (fl_type fl) start fin (\<not> wait) sig uid tgid))"

definition flock_fcntl ::
  "(lstate \<times> bool \<times> bool) list \<Rightarrow> bool \<Rightarrow> bool \<Rightarrow> u32 \<Rightarrow> umem \<Rightarrow> lstate \<Rightarrow> pfile \<Rightarrow> int \<Rightarrow> u32 \<Rightarrow> u32 \<Rightarrow> bool \<Rightarrow> u32 \<Rightarrow> int \<Rightarrow>
   (int \<times> umem \<times> pfile \<times> lstate) option" where
  "flock_fcntl ws mem1 mem2 newfid um s f cmd uarg fdt sig uid tgid =
     (let wide = (cmd \<ge> 12); ofd = (cmd \<ge> 36);
          (r0, bs) = copy_from_user um uarg (if wide then 24 else 16);
          fl = (if wide then kflock64_read bs else kflock32_read bs)
      in if uarg = 0 \<or> r0 < 0 then Some (- EFAULT, um, f, s)
         else if f_type f \<noteq> FD_FILE \<or> f_node f = None then
           Some (if f_type f = FD_NONE then - EBADF else - EINVAL, um, f, s)
         else if fl_type fl \<notin> {F_RDLCK, F_WRLCK, F_UNLCK} then Some (- EINVAL, um, f, s)
         else if ofd \<and> fl_pid fl \<noteq> 0 then Some (- EINVAL, um, f, s)
         else if fl_whence fl \<notin> {0, 1, 2} then Some (- EINVAL, um, f, s)
         else
           let base = (if fl_whence fl = 0 then 0 else if fl_whence fl = 1 then sint (f_offset f)
                       else sint (n_size (the (f_node f))))
           in case flock_range base (fl_start fl) (fl_len fl) of Inl e \<Rightarrow> Some (e, um, f, s)
              | Inr (start, fin) \<Rightarrow>
                  fcntl_range ws mem1 mem2 newfid um s f cmd uarg fdt sig uid tgid fl start fin)"

section \<open>Closing\<close>

text \<open>The descriptor tables: a slot per process, unused or with its descriptors by address.\<close>

definition fid_in_use :: "u32 \<Rightarrow> nat \<Rightarrow> (bool \<times> (nat \<times> pfile) list option) list \<Rightarrow> bool" where
  "fid_in_use fid except procs =
     list_ex (\<lambda>(used, files). used \<and> (case files of None \<Rightarrow> False
        | Some fs \<Rightarrow> list_ex (\<lambda>(a, x). a \<noteq> except \<and> f_type x \<noteq> FD_NONE \<and> f_fid x = fid) fs)) procs"

definition match_posix_close :: "fkey \<Rightarrow> u32 \<Rightarrow> flk \<Rightarrow> bool" where
  "match_posix_close k owner l = (lkind l = LK_POSIX \<and> lowner l = owner \<and> same_file l k)"

definition match_fid :: "fkey \<Rightarrow> u32 \<Rightarrow> flk \<Rightarrow> bool" where
  "match_fid k owner l = (lkind l \<noteq> LK_POSIX \<and> lowner l = owner \<and> same_file l k)"

definition match_table :: "u32 \<Rightarrow> flk \<Rightarrow> bool" where
  "match_table owner l = (lkind l = LK_POSIX \<and> lowner l = owner)"

text \<open>\<open>table\<close>: the caller's descriptor table when the descriptor is one of its slots.\<close>

definition flock_fd_closed ::
  "lstate \<Rightarrow> nat \<Rightarrow> pfile \<Rightarrow> u32 option \<Rightarrow> (bool \<times> (nat \<times> pfile) list option) list \<Rightarrow> lstate" where
  "flock_fd_closed s addr f table procs =
     (if nlocks (acct s) = 0 \<or> f_type f \<noteq> FD_FILE \<or> f_node f = None then s
      else
        let k = key_of (the (f_node f)); b = bucket k in
        if lock_hash s b = [] then s
        else
          let s1 = (case table of None \<Rightarrow> s | Some t \<Rightarrow> fst (unlock_all s (Some b) (match_posix_close k t)));
              held = (f_fid f \<noteq> 0 \<and> list_ex (match_fid k (f_fid f)) (lock_hash s1 b))
          in if held \<and> \<not> fid_in_use (f_fid f) addr procs
             then fst (unlock_all s1 (Some b) (match_fid k (f_fid f))) else s1)"

definition flock_owner_gone :: "lstate \<Rightarrow> u32 \<Rightarrow> lstate" where
  "flock_owner_gone s owner =
     (if nlocks (acct s) = 0 then s else fst (unlock_all s None (match_table owner)))"

section \<open>Accounting is exact\<close>

definition slots_ok :: "(u32 \<times> int) list \<Rightarrow> bool" where
  "slots_ok us =
     (length us = 64 \<and> (\<forall>i<64. 0 \<le> snd (us ! i) \<and> snd (us ! i) \<le> 4096) \<and>
      (\<forall>i<64. \<forall>j<64. snd (us ! i) > 0 \<longrightarrow> snd (us ! j) > 0 \<longrightarrow> fst (us ! i) = fst (us ! j) \<longrightarrow> i = j))"

definition slot_count :: "(u32 \<times> int) list \<Rightarrow> u32 \<Rightarrow> int" where
  "slot_count us u = (\<Sum>i<64. if snd (us ! i) > 0 \<and> fst (us ! i) = u then snd (us ! i) else 0)"

text \<open>The counters count a collection of lock owners' uids.\<close>

definition acct_ok :: "acct \<Rightarrow> (u32 \<Rightarrow> int) \<Rightarrow> int \<Rightarrow> bool" where
  "acct_ok ac cnt tot =
     (slots_ok (lock_uids ac) \<and> nlocks ac = tot \<and> (\<forall>u. u \<noteq> 0 \<longrightarrow> slot_count (lock_uids ac) u = cnt u))"

lemma slot_count_update:
  assumes "i < 64" "length us = 64"
  shows "slot_count (us[i := x]) u = slot_count us u +
    (if snd x > 0 \<and> fst x = u then snd x else 0) - (if snd (us ! i) > 0 \<and> fst (us ! i) = u then snd (us ! i) else 0)"
proof -
  let ?g = "\<lambda>us j. if snd (us ! j) > (0::int) \<and> fst (us ! j) = u then snd (us ! j) else 0"
  have "(\<Sum>j<64. ?g (us[i := x]) j) = ?g (us[i := x]) i + (\<Sum>j\<in>{..<64} - {i}. ?g (us[i := x]) j)"
    using assms by (subst sum.remove [of _ i]) auto
  also have "(\<Sum>j\<in>{..<64} - {i}. ?g (us[i := x]) j) = (\<Sum>j\<in>{..<64} - {i}. ?g us j)"
    by (rule sum.cong) auto
  also have "\<dots> = (\<Sum>j<64. ?g us j) - ?g us i"
    using assms by (subst sum.remove [of _ i]) auto
  finally show ?thesis using assms by (simp add: slot_count_def)
qed

lemma lock_charge_ok:
  assumes ok: "acct_ok ac cnt tot" and ch: "lock_charge ac u = Some ac'"
  shows "acct_ok ac' (cnt(u := cnt u + 1)) (tot + 1)" "tot < LOCKS_MAX"
proof -
  let ?us = "lock_uids ac"
  have so: "slots_ok ?us" and len: "length ?us = 64" using ok by (auto simp: acct_ok_def slots_ok_def)
  show "tot < LOCKS_MAX" using ok ch by (auto simp: acct_ok_def lock_charge_def split: if_splits)
  show "acct_ok ac' (cnt(u := cnt u + 1)) (tot + 1)"
  proof (cases "u = 0")
    case True
    then show ?thesis using ok ch by (auto simp: acct_ok_def lock_charge_def split: if_splits)
  next
    case False
    obtain i where i: "i < 64" "snd (?us ! i) < 4096"
      and ac': "ac' = ac\<lparr>lock_uids := ?us[i := (u, snd (?us ! i) + 1)], nlocks := nlocks ac + 1\<rparr>"
      and cs: "(snd (?us ! i) > 0 \<and> fst (?us ! i) = u) \<or>
        (snd (?us ! i) = 0 \<and> (\<forall>j<64. \<not> (snd (?us ! j) > 0 \<and> fst (?us ! j) = u)))"
      using ch False
      by (auto simp: lock_charge_def Let_def find_upt0_None split: if_splits option.splits dest!: find_upt0_Some)
    have p: "0 \<le> snd (?us ! i)" using so i by (simp add: slots_ok_def)
    have "slot_count (?us[i := (u, snd (?us ! i) + 1)]) v = slot_count ?us v + (if v = u then 1 else 0)" for v
      using slot_count_update [OF i(1) len, of "(u, snd (?us ! i) + 1)" v] cs p by auto
    moreover have "slots_ok (?us[i := (u, snd (?us ! i) + 1)])"
      unfolding slots_ok_def
    proof (intro conjI allI impI)
      show "length (?us[i := (u, snd (?us ! i) + 1)]) = 64" using len by simp
      fix j assume j: "j < (64::nat)"
      show "0 \<le> snd (?us[i := (u, snd (?us ! i) + 1)] ! j)" "snd (?us[i := (u, snd (?us ! i) + 1)] ! j) \<le> 4096"
        using so i j p len by (auto simp: slots_ok_def nth_list_update)
      fix m assume m: "m < (64::nat)" and a: "0 < snd (?us[i := (u, snd (?us ! i) + 1)] ! j)"
        "0 < snd (?us[i := (u, snd (?us ! i) + 1)] ! m)"
        "fst (?us[i := (u, snd (?us ! i) + 1)] ! j) = fst (?us[i := (u, snd (?us ! i) + 1)] ! m)"
      have uq: "snd (?us ! x) > 0 \<Longrightarrow> snd (?us ! y) > 0 \<Longrightarrow> fst (?us ! x) = fst (?us ! y) \<Longrightarrow> x = y"
        if "x < 64" "y < 64" for x y using so that by (auto simp: slots_ok_def)
      show "j = m"
        using a cs uq [OF j m] uq [OF i(1) j] uq [OF i(1) m] j m i len
        by (auto simp: nth_list_update split: if_splits)
    qed
    ultimately show ?thesis using ok False by (simp add: acct_ok_def ac')
  qed
qed

lemma lock_uncharge_ok:
  assumes ok: "acct_ok ac cnt tot" and pos: "u \<noteq> 0 \<longrightarrow> cnt u > 0"
  shows "acct_ok (lock_uncharge ac u) (cnt(u := cnt u - 1)) (tot - 1)"
proof (cases "u = 0")
  case True
  then show ?thesis using ok by (simp add: acct_ok_def lock_uncharge_def Let_def)
next
  case False
  let ?us = "lock_uids ac"
  have so: "slots_ok ?us" and len: "length ?us = 64" using ok by (auto simp: acct_ok_def slots_ok_def)
  have "slot_count ?us u > 0" using ok pos False by (simp add: acct_ok_def)
  moreover have "slot_count ?us u = 0" if "\<forall>i<64. \<not> (snd (?us ! i) > 0 \<and> fst (?us ! i) = u)"
    using that by (auto simp: slot_count_def intro!: sum.neutral)
  ultimately have "\<not> (\<forall>i<64. \<not> (snd (?us ! i) > 0 \<and> fst (?us ! i) = u))" by auto
  then obtain i where f: "find (\<lambda>i. snd (?us ! i) > 0 \<and> fst (?us ! i) = u) [0..<64] = Some i"
    using find_upt0_None [of "\<lambda>i. snd (?us ! i) > 0 \<and> fst (?us ! i) = u" 64] by (cases "find (\<lambda>i. snd (?us ! i) > 0 \<and> fst (?us ! i) = u) [0..<64]") auto
  from find_upt0_Some [OF f] have i: "i < 64" "snd (?us ! i) > 0" "fst (?us ! i) = u" by auto
  let ?x = "(fst (?us ! i), snd (?us ! i) - 1)"
  have e: "lock_uncharge ac u = ac\<lparr>nlocks := nlocks ac - 1, lock_uids := ?us[i := ?x]\<rparr>"
    using f False by (simp add: lock_uncharge_def Let_def)
  have "slot_count (?us[i := ?x]) v = slot_count ?us v - (if v = u then 1 else 0)" for v
    using slot_count_update [OF i(1) len, of ?x v] i by auto
  moreover have "slots_ok (?us[i := ?x])"
    using so i len by (auto simp: slots_ok_def nth_list_update split: if_splits)
  ultimately show ?thesis using ok False by (simp add: acct_ok_def e)
qed

lemma acct_ok_same: "acct_ok ac (cnt(u := cnt u + 1 - 1)) (tot + 1 - 1) = acct_ok ac cnt tot"
  by simp

lemma flk_alloc_ok:
  assumes ok: "acct_ok ac cnt tot" and pos: "\<And>u. 0 \<le> cnt u" and al: "flk_alloc mem ac u = (b, ac')"
  shows "if b then acct_ok ac' (cnt(u := cnt u + 1)) (tot + 1) \<and> tot < LOCKS_MAX else acct_ok ac' cnt tot"
proof (cases "lock_charge ac u")
  case None
  then show ?thesis using al ok by (auto simp: flk_alloc_def)
next
  case (Some ac1)
  note c = lock_charge_ok [OF ok Some]
  show ?thesis
  proof (cases mem)
    case True
    then show ?thesis using al Some c by (auto simp: flk_alloc_def)
  next
    case False
    have "acct_ok (lock_uncharge ac1 u) ((cnt(u := cnt u + 1))(u := (cnt(u := cnt u + 1)) u - 1)) (tot + 1 - 1)"
      using pos [of u] by (intro lock_uncharge_ok [OF c(1)]) simp
    then show ?thesis using False al Some by (auto simp: flk_alloc_def)
  qed
qed

section \<open>The table invariant\<close>

definition overlap :: "flk \<Rightarrow> flk \<Rightarrow> bool" where
  "overlap l m = (lstart l \<le> lend m \<and> lstart m \<le> lend l)"

text \<open>Two locks that may stand in the table together.\<close>

definition compat :: "flk \<Rightarrow> flk \<Rightarrow> bool" where
  "compat l m =
     (lkey l \<noteq> lkey m \<or> bsd_kind (lkind l) \<noteq> bsd_kind (lkind m) \<or> \<not> overlap l m \<or>
      (\<not> (lkind l = lkind m \<and> lowner l = lowner m) \<and> ltype l = F_RDLCK \<and> ltype m = F_RDLCK))"

definition lock_ok :: "nat \<Rightarrow> flk \<Rightarrow> bool" where
  "lock_ok b l = (bucket (lkey l) = b \<and> lstart l \<le> lend l \<and> (ltype l = F_RDLCK \<or> ltype l = F_WRLCK))"

definition list_ok :: "nat \<Rightarrow> flk list \<Rightarrow> bool" where
  "list_ok b ls = (sorted_wrt compat ls \<and> (\<forall>l\<in>set ls. lock_ok b l))"

definition uid_count :: "u32 \<Rightarrow> flk list \<Rightarrow> int" where
  "uid_count u ls = int (length (filter (\<lambda>l. luid l = u) ls))"

definition flk_inv :: "lstate \<Rightarrow> bool" where
  "flk_inv s =
     ((\<forall>b<64. list_ok b (lock_hash s b)) \<and>
      acct_ok (acct s) (\<lambda>u. \<Sum>b<64. uid_count u (lock_hash s b)) (\<Sum>b<64. int (length (lock_hash s b))) \<and>
      (\<Sum>b<64. int (length (lock_hash s b))) \<le> LOCKS_MAX)"

lemma fkey_eq: "same_file l k \<longleftrightarrow> lkey l = k"
  by (cases "lkey l"; cases k) (auto simp: same_file_def)

lemma compat_sym: "compat l m = compat m l"
  by (auto simp: compat_def overlap_def)

text \<open>A part of a lock.\<close>

definition part :: "flk \<Rightarrow> flk \<Rightarrow> bool" where
  "part l' l = (lkey l' = lkey l \<and> lkind l' = lkind l \<and> ltype l' = ltype l \<and> lowner l' = lowner l \<and> luid l' = luid l \<and>
     lstart l \<le> lstart l' \<and> lend l' \<le> lend l \<and> lstart l' \<le> lend l')"

lemma part_compat: "compat l m \<Longrightarrow> part l' l \<Longrightarrow> part m' m \<Longrightarrow> compat l' m'"
  by (auto simp: compat_def part_def overlap_def)

lemma part_refl: "lstart l \<le> lend l \<Longrightarrow> part l l"
  by (simp add: part_def)

lemma part_lock_ok: "part l' l \<Longrightarrow> lock_ok b l \<Longrightarrow> lock_ok b l'"
  by (auto simp: part_def lock_ok_def)

text \<open>The bytes a list of locks covers, by holder and type.\<close>

definition covers :: "flk list \<Rightarrow> fkey \<Rightarrow> lk_kind \<Rightarrow> u32 \<Rightarrow> int \<Rightarrow> int \<Rightarrow> bool" where
  "covers ls k kind owner b t =
     (\<exists>l\<in>set ls. lkey l = k \<and> lkind l = kind \<and> lowner l = owner \<and> ltype l = t \<and> lstart l \<le> b \<and> b \<le> lend l)"

lemma covers_Cons:
  "covers (l # ls) k kind owner b t \<longleftrightarrow>
     (lkey l = k \<and> lkind l = kind \<and> lowner l = owner \<and> ltype l = t \<and> lstart l \<le> b \<and> b \<le> lend l) \<or>
     covers ls k kind owner b t"
  by (auto simp: covers_def)

lemma covers_Nil [simp]: "\<not> covers [] k kind owner b t"
  by (simp add: covers_def)

definition mine :: "fkey \<Rightarrow> lk_kind \<Rightarrow> u32 \<Rightarrow> flk \<Rightarrow> bool" where
  "mine k kind owner l = (lkey l = k \<and> lkind l = kind \<and> lowner l = owner)"

definition hit :: "fkey \<Rightarrow> lk_kind \<Rightarrow> u32 \<Rightarrow> int \<Rightarrow> int \<Rightarrow> flk \<Rightarrow> bool" where
  "hit k kind owner start fin l = (mine k kind owner l \<and> start \<le> lend l \<and> lstart l \<le> fin)"

lemma unlock_walk_Cons:
  "unlock_walk mem k kind owner start fin ac (l # ls) =
     (if \<not> hit k kind owner start fin l then
        (let (ok, woke, ac', ls') = unlock_walk mem k kind owner start fin ac ls in (ok, woke, ac', l # ls'))
      else if lstart l < start \<and> lend l > fin then
        (let (ok, ac') = flk_alloc mem ac (luid l) in
         if \<not> ok then (False, True, ac', l # ls)
         else (True, True, ac', l\<lparr>lend := start - 1\<rparr> # l\<lparr>lstart := fin + 1\<rparr> # ls))
      else if lstart l < start then
        (let (ok, woke, ac', ls') = unlock_walk mem k kind owner start fin ac ls
         in (ok, True, ac', l\<lparr>lend := start - 1\<rparr> # ls'))
      else if lend l > fin then
        (let (ok, woke, ac', ls') = unlock_walk mem k kind owner start fin ac ls
         in (ok, True, ac', l\<lparr>lstart := fin + 1\<rparr> # ls'))
      else
        (let (ok, woke, ac', ls') = unlock_walk mem k kind owner start fin (lock_uncharge ac (luid l)) ls
         in (ok, True, ac', ls')))"
  by (auto simp: hit_def mine_def fkey_eq not_le)

declare unlock_walk.simps(2) [simp del]

text \<open>A failing walk met a lock that sticks out on both sides, and so changed nothing before it.\<close>

lemma unlock_walk_fail:
  assumes "unlock_walk mem k kind owner start fin ac ls = (False, w, ac', ls')"
  shows "\<exists>m\<in>set ls. mine k kind owner m \<and> lstart m < start \<and> lend m > fin"
  using assms
proof (induction ls arbitrary: ac w ls')
  case Nil
  then show ?case by simp
next
  case (Cons l ls)
  then show ?case
    by (auto simp: unlock_walk_Cons Let_def hit_def split: if_splits prod.splits)
qed

lemma hit_not_compat:
  assumes "hit k kind owner start fin l" "mine k kind owner m" "lstart m < start" "lend m > fin" "start \<le> fin"
  shows "\<not> compat l m"
  using assms by (auto simp: hit_def mine_def compat_def overlap_def)

lemma unlock_walk_fail_same:
  assumes "unlock_walk mem k kind owner start fin ac ls = (False, w, ac', ls')" "sorted_wrt compat ls" "start \<le> fin"
  shows "ls' = ls \<and> (\<exists>u. flk_alloc mem ac u = (False, ac'))"
  using assms(1,2)
proof (induction ls arbitrary: ac w ls')
  case Nil
  then show ?case by simp
next
  case (Cons l ls)
  obtain ok w1 ac1 ls1 where r: "unlock_walk mem k kind owner start fin ac ls = (ok, w1, ac1, ls1)"
    by (metis prod_cases4)
  show ?case
  proof (cases "hit k kind owner start fin l")
    case False
    with Cons.prems r have "\<not> ok" "ls' = l # ls1" "ac' = ac1" by (auto simp: unlock_walk_Cons)
    with Cons.IH [of ac w1 ls1] r Cons.prems(2) show ?thesis by auto
  next
    case True
    show ?thesis
    proof (cases "lstart l < start \<and> lend l > fin")
      case both: True
      with True Cons.prems show ?thesis
        by (cases "flk_alloc mem ac (luid l)") (auto simp: unlock_walk_Cons split: if_splits)
    next
      case False
      have "\<exists>ac0 w0 x y. unlock_walk mem k kind owner start fin ac0 ls = (False, w0, x, y)"
        using Cons.prems(1) True False
        by (auto simp: unlock_walk_Cons Let_def split: if_splits prod.splits)
      then obtain m where m: "m \<in> set ls" "mine k kind owner m" "lstart m < start" "lend m > fin"
        using unlock_walk_fail by blast
      have "compat l m" using Cons.prems(2) m(1) by simp
      with hit_not_compat [OF True m(2-4) assms(3)] show ?thesis by simp
    qed
  qed
qed

text \<open>After a hole was punched no other lock of the owner meets the range: that is why the loop may stop.\<close>

lemma unlock_walk_ok:
  assumes "unlock_walk mem k kind owner start fin ac ls = (True, w, ac', ls')" "list_ok b ls" "start \<le> fin"
  shows "list_ok b ls' \<and> (\<forall>l'\<in>set ls'. \<exists>l\<in>set ls. part l' l) \<and>
    (\<forall>k' kd ow x t. covers ls' k' kd ow x t \<longleftrightarrow>
       covers ls k' kd ow x t \<and> \<not> (k' = k \<and> kd = kind \<and> ow = owner \<and> start \<le> x \<and> x \<le> fin))"
  using assms(1,2)
proof (induction ls arbitrary: ac w ls')
  case Nil
  then show ?case by (simp add: list_ok_def)
next
  case (Cons l ls)
  have ok: "list_ok b ls" "lock_ok b l" "\<forall>m\<in>set ls. compat l m" using Cons.prems(2) by (auto simp: list_ok_def)
  have ne: "lstart l \<le> lend l" using ok(2) by (simp add: lock_ok_def)
  have shrink: ?case
    if r: "unlock_walk mem k kind owner start fin ac1 ls = (True, w1, ac', ls1)" and l': "ls' = l' # ls1" "part l' l"
      and cv: "\<forall>x. (lstart l' \<le> x \<and> x \<le> lend l') \<longleftrightarrow>
        (lstart l \<le> x \<and> x \<le> lend l) \<and> \<not> (mine k kind owner l \<and> start \<le> x \<and> x \<le> fin)" for ac1 w1 ls1 l'
  proof -
    note IH = Cons.IH [OF r ok(1)]
    have "\<forall>m'\<in>set ls1. compat l' m'" using IH ok(3) part_compat l'(2) by blast
    moreover have "lock_ok b l'" using part_lock_ok [OF l'(2) ok(2)] .
    moreover have "lkey l' = lkey l" "lkind l' = lkind l" "lowner l' = lowner l" "ltype l' = ltype l"
      using l'(2) by (simp_all add: part_def)
    ultimately show ?thesis
      using IH l' cv by (auto simp: list_ok_def covers_Cons mine_def)
  qed
  obtain ok1 w1 ac1 ls1 where r: "unlock_walk mem k kind owner start fin ac ls = (ok1, w1, ac1, ls1)"
    by (metis prod_cases4)
  show ?case
  proof (cases "hit k kind owner start fin l")
    case False
    with Cons.prems(1) r have "ok1" "ls' = l # ls1" "ac' = ac1" by (auto simp: unlock_walk_Cons)
    with r False show ?thesis
      by (intro shrink [of ac w1 ls1 l]) (auto simp: part_refl ne hit_def)
  next
    case hit: True
    then have mi: "mine k kind owner l" by (simp add: hit_def)
    consider (both) "lstart l < start" "lend l > fin" | (left) "lstart l < start" "\<not> lend l > fin"
      | (right) "\<not> lstart l < start" "lend l > fin" | (all) "\<not> lstart l < start" "\<not> lend l > fin" by blast
    then show ?thesis
    proof cases
      case left
      with hit Cons.prems(1) r have "ok1" "ls' = l\<lparr>lend := start - 1\<rparr> # ls1" "ac' = ac1" by (auto simp: unlock_walk_Cons)
      with r left mi hit show ?thesis
        using assms(3) by (intro shrink [of ac w1 ls1 "l\<lparr>lend := start - 1\<rparr>"]) (auto simp: part_def hit_def)
    next
      case right
      with hit Cons.prems(1) r have "ok1" "ls' = l\<lparr>lstart := fin + 1\<rparr> # ls1" "ac' = ac1" by (auto simp: unlock_walk_Cons)
      with r right mi hit show ?thesis
        using assms(3) by (intro shrink [of ac w1 ls1 "l\<lparr>lstart := fin + 1\<rparr>"]) (auto simp: part_def hit_def)
    next
      case all
      obtain w2 where r2: "unlock_walk mem k kind owner start fin (lock_uncharge ac (luid l)) ls = (True, w2, ac', ls')"
        using all hit Cons.prems(1) by (auto simp: unlock_walk_Cons Let_def split: prod.splits)
      show ?thesis using Cons.IH [OF r2 ok(1)] all mi by (auto simp: covers_Cons mine_def)
    next
      case both
      let ?a = "l\<lparr>lend := start - 1\<rparr>" and ?z = "l\<lparr>lstart := fin + 1\<rparr>"
      have ls': "ls' = ?a # ?z # ls"
        using both hit Cons.prems(1) by (auto simp: unlock_walk_Cons Let_def split: prod.splits if_splits)
      have p: "part ?a l" "part ?z l" using both hit assms(3) by (auto simp: part_def hit_def)
      have az: "compat ?a ?z" using assms(3) by (auto simp: compat_def overlap_def)
      have "compat ?a m" "compat ?z m" if "m \<in> set ls" for m
        using ok(3) that part_compat [OF _ p(1), of m m] part_compat [OF _ p(2), of m m] ok(1)
        by (auto simp: part_refl list_ok_def lock_ok_def)
      then have lo: "list_ok b ls'"
        using az ok part_lock_ok [OF p(1)] part_lock_ok [OF p(2)] by (auto simp: ls' list_ok_def)
      have none: "\<not> (covers ls k kind owner x t \<and> start \<le> x \<and> x \<le> fin)" for x t
      proof
        assume "covers ls k kind owner x t \<and> start \<le> x \<and> x \<le> fin"
        then obtain m where m: "m \<in> set ls" "hit k kind owner start fin m" by (auto simp: covers_def hit_def mine_def)
        have "compat m l" using ok(3) m(1) compat_sym by blast
        with hit_not_compat [OF m(2) mi both assms(3)] show False by simp
      qed
      have "covers ls' k' kd ow x t \<longleftrightarrow>
          covers (l # ls) k' kd ow x t \<and> \<not> (k' = k \<and> kd = kind \<and> ow = owner \<and> start \<le> x \<and> x \<le> fin)" for k' kd ow x t
        using none [of x t] mi both assms(3) by (auto simp: ls' covers_Cons mine_def)
      moreover have "\<forall>l'\<in>set ls'. \<exists>l0\<in>set (l # ls). part l' l0"
        using p ok(1) by (auto simp: ls' list_ok_def lock_ok_def intro!: part_refl bexI)
      ultimately show ?thesis using lo by blast
    qed
  qed
qed

lemma uid_count_Cons: "uid_count u (l # ls) = (if luid l = u then 1 else 0) + uid_count u ls"
  by (simp add: uid_count_def)

lemma uid_count_nonneg: "0 \<le> uid_count u ls"
  by (simp add: uid_count_def)

lemma acct_ok_ext:
  "acct_ok ac cnt n \<Longrightarrow> (\<And>u. cnt' u = cnt u) \<Longrightarrow> n' = n \<Longrightarrow> acct_ok ac cnt' n'"
  by (simp add: acct_ok_def)

lemma unlock_walk_acct:
  assumes "unlock_walk mem k kind owner start fin ac ls = (True, w, ac', ls')"
    "acct_ok ac (\<lambda>u. rest u + uid_count u ls) (n + int (length ls))" "\<And>u. 0 \<le> rest u"
    "n + int (length ls) \<le> LOCKS_MAX"
  shows "acct_ok ac' (\<lambda>u. rest u + uid_count u ls') (n + int (length ls')) \<and> n + int (length ls') \<le> LOCKS_MAX"
  using assms
proof (induction ls arbitrary: ac w ls' rest n)
  case Nil
  then show ?case by simp
next
  case (Cons l ls)
  let ?rest = "\<lambda>u. rest u + (if luid l = u then 1 else 0)"
  have keep: "acct_ok ac' (\<lambda>u. rest u + uid_count u ls') (n + int (length ls')) \<and> n + int (length ls') \<le> LOCKS_MAX"
    if r: "unlock_walk mem k kind owner start fin ac ls = (True, w1, ac', ls1)" "ls' = l' # ls1" "luid l' = luid l" for w1 ls1 l'
  proof -
    have "acct_ok ac (\<lambda>u. ?rest u + uid_count u ls) (n + 1 + int (length ls))"
      using Cons.prems(2) by (rule acct_ok_ext) (auto simp: uid_count_Cons)
    then have "acct_ok ac' (\<lambda>u. ?rest u + uid_count u ls1) (n + 1 + int (length ls1)) \<and> n + 1 + int (length ls1) \<le> LOCKS_MAX"
      using Cons.prems(3,4) by (intro Cons.IH [OF r(1)]) auto
    then show ?thesis
      using r(2,3) by (auto simp: uid_count_Cons elim: acct_ok_ext)
  qed
  show ?case
  proof (cases "\<not> hit k kind owner start fin l \<or> \<not> (lstart l < start \<and> lend l > fin) \<and> (lstart l < start \<or> lend l > fin)")
    case True
    then have "\<exists>w1 ls1 l'. unlock_walk mem k kind owner start fin ac ls = (True, w1, ac', ls1) \<and>
        ls' = l' # ls1 \<and> luid l' = luid l"
      using Cons.prems(1) by (auto simp: unlock_walk_Cons Let_def split: if_splits prod.splits)
    then show ?thesis using keep by blast
  next
    case False
    then have hit: "hit k kind owner start fin l" by blast
    show ?thesis
    proof (cases "lstart l < start \<and> lend l > fin")
      case True
      obtain ok ac1 where al: "flk_alloc mem ac (luid l) = (ok, ac1)" by fastforce
      have c: "ok" "ac' = ac1" "ls' = l\<lparr>lend := start - 1\<rparr> # l\<lparr>lstart := fin + 1\<rparr> # ls"
        using Cons.prems(1) hit True al by (auto simp: unlock_walk_Cons split: if_splits)
      have "0 \<le> rest u + uid_count u (l # ls)" for u using Cons.prems(3) [of u] uid_count_nonneg [of u "l # ls"] by simp
      from flk_alloc_ok [OF Cons.prems(2) this al] c(1)
      have a: "acct_ok ac1 ((\<lambda>u. rest u + uid_count u (l # ls))(luid l := rest (luid l) + uid_count (luid l) (l # ls) + 1))
          (n + int (length (l # ls)) + 1)" "n + int (length (l # ls)) < LOCKS_MAX" by auto
      have "acct_ok ac' (\<lambda>u. rest u + uid_count u ls') (n + int (length ls'))"
        unfolding c(2) by (rule acct_ok_ext [OF a(1)]) (auto simp: c(3) uid_count_Cons)
      then show ?thesis using a(2) c(3) by simp
    next
      case nb: False
      with False have all: "\<not> lstart l < start" "\<not> lend l > fin" by auto
      obtain w2 where r2: "unlock_walk mem k kind owner start fin (lock_uncharge ac (luid l)) ls = (True, w2, ac', ls')"
        using all hit Cons.prems(1) by (auto simp: unlock_walk_Cons Let_def split: prod.splits)
      have "acct_ok (lock_uncharge ac (luid l))
          ((\<lambda>u. rest u + uid_count u (l # ls))(luid l := rest (luid l) + uid_count (luid l) (l # ls) - 1)) (n + int (length (l # ls)) - 1)"
        using uid_count_nonneg [of "luid l" ls] Cons.prems(3) [of "luid l"]
        by (intro lock_uncharge_ok [OF Cons.prems(2)]) (simp add: uid_count_Cons)
      then have "acct_ok (lock_uncharge ac (luid l)) (\<lambda>u. rest u + uid_count u ls) (n + int (length ls))"
        by (rule acct_ok_ext) (auto simp: uid_count_Cons)
      then show ?thesis using Cons.prems(3,4) by (intro Cons.IH [OF r2]) auto
    qed
  qed
qed

text \<open>Replacing one bucket of the table.\<close>

lemma bucket_less [simp]: "bucket k < 64"
  by (simp add: bucket_def Let_def)

lemma sum_bucket:
  fixes f :: "flk list \<Rightarrow> int" and b :: nat
  assumes "b < 64"
  shows "(\<Sum>i<64. f ((h(b := ls)) i)) = (\<Sum>i\<in>{..<64} - {b}. f (h i)) + f ls"
proof -
  have "(\<Sum>i<64. f ((h(b := ls)) i)) = f ((h(b := ls)) b) + (\<Sum>i\<in>{..<64} - {b}. f ((h(b := ls)) i))"
    using assms by (subst sum.remove [of _ b]) auto
  also have "(\<Sum>i\<in>{..<64} - {b}. f ((h(b := ls)) i)) = (\<Sum>i\<in>{..<64} - {b}. f (h i))"
    by (rule sum.cong) auto
  finally show ?thesis by simp
qed

lemma sum_bucket_same:
  fixes f :: "flk list \<Rightarrow> int" and b :: nat
  assumes "b < 64"
  shows "(\<Sum>i<64. f (h i)) = (\<Sum>i\<in>{..<64} - {b}. f (h i)) + f (h b)"
  using sum_bucket [OF assms, of f h "h b"] by simp

definition rest_uids :: "lstate \<Rightarrow> nat \<Rightarrow> u32 \<Rightarrow> int" where
  "rest_uids s b u = (\<Sum>i\<in>{..<64} - {b}. uid_count u (lock_hash s i))"

definition rest_len :: "lstate \<Rightarrow> nat \<Rightarrow> int" where
  "rest_len s b = (\<Sum>i\<in>{..<64} - {b}. int (length (lock_hash s i)))"

lemma flk_inv_bucket:
  assumes "b < 64"
  shows "flk_inv (s\<lparr>lock_hash := (lock_hash s)(b := ls), acct := ac\<rparr>) \<longleftrightarrow>
    (\<forall>i<64. i \<noteq> b \<longrightarrow> list_ok i (lock_hash s i)) \<and> list_ok b ls \<and>
    acct_ok ac (\<lambda>u. rest_uids s b u + uid_count u ls) (rest_len s b + int (length ls)) \<and>
    rest_len s b + int (length ls) \<le> LOCKS_MAX"
proof -
  let ?h = "(lock_hash s)(b := ls)"
  have "(\<forall>i<64. list_ok i (?h i)) \<longleftrightarrow> (\<forall>i<64. i \<noteq> b \<longrightarrow> list_ok i (lock_hash s i)) \<and> list_ok b ls"
    using assms by auto
  moreover have "(\<Sum>i<64. uid_count u (?h i)) = rest_uids s b u + uid_count u ls" for u
    unfolding rest_uids_def by (rule sum_bucket [OF assms])
  moreover have "(\<Sum>i<64. int (length (?h i))) = rest_len s b + int (length ls)"
    unfolding rest_len_def by (rule sum_bucket [OF assms])
  ultimately show ?thesis by (simp add: flk_inv_def del: fun_upd_apply)
qed

lemma flk_inv_acct:
  assumes "b < 64"
  shows "flk_inv (s\<lparr>acct := ac\<rparr>) \<longleftrightarrow>
    (\<forall>i<64. i \<noteq> b \<longrightarrow> list_ok i (lock_hash s i)) \<and> list_ok b (lock_hash s b) \<and>
    acct_ok ac (\<lambda>u. rest_uids s b u + uid_count u (lock_hash s b)) (rest_len s b + int (length (lock_hash s b))) \<and>
    rest_len s b + int (length (lock_hash s b)) \<le> LOCKS_MAX"
  using flk_inv_bucket [OF assms, where s = s and ls = "lock_hash s b" and ac = ac] by simp

lemma flk_inv_at:
  assumes "flk_inv s" "b < 64"
  shows "list_ok b (lock_hash s b)" "acct_ok (acct s) (\<lambda>u. rest_uids s b u + uid_count u (lock_hash s b))
    (rest_len s b + int (length (lock_hash s b)))" "rest_len s b + int (length (lock_hash s b)) \<le> LOCKS_MAX"
    "\<forall>i<64. i \<noteq> b \<longrightarrow> list_ok i (lock_hash s i)"
  using assms flk_inv_bucket [OF assms(2), where s = s and ls = "lock_hash s b" and ac = "acct s"] by auto

lemma rest_uids_nonneg: "0 \<le> rest_uids s b u"
  by (simp add: rest_uids_def sum_nonneg uid_count_nonneg)

text \<open>What the table says: who holds which byte of a file, and how.\<close>

definition held :: "lstate \<Rightarrow> fkey \<Rightarrow> lk_kind \<Rightarrow> u32 \<Rightarrow> int \<Rightarrow> int \<Rightarrow> bool" where
  "held s k kind owner x t = covers (lock_hash s (bucket k)) k kind owner x t"

lemma covers_other_bucket: "list_ok b ls \<Longrightarrow> bucket k \<noteq> b \<Longrightarrow> \<not> covers ls k kind owner x t"
  by (auto simp: covers_def list_ok_def lock_ok_def)

lemma sum_others:
  fixes f :: "flk list \<Rightarrow> int"
  shows "(\<Sum>i\<in>{..<64} - {b}. f ((h(b := ls)) i)) = (\<Sum>i\<in>{..<64} - {b}. f (h i))"
  by (rule sum.cong) auto

lemma unlock_range_ok:
  assumes inv: "flk_inv s" and le: "start \<le> fin" and u: "unlock_range mem s k kind owner start fin = (r, s', w)"
  shows "flk_inv s' \<and>
    ((r = 0 \<and> (\<forall>k' kd ow x t. held s' k' kd ow x t \<longleftrightarrow>
        held s k' kd ow x t \<and> \<not> (k' = k \<and> kd = kind \<and> ow = owner \<and> start \<le> x \<and> x \<le> fin))) \<or>
     (r = - ENOLCK \<and> lock_hash s' = lock_hash s))"
proof -
  let ?b = "bucket k"
  obtain ok w1 ac ls where wk: "unlock_walk mem k kind owner start fin (acct s) (lock_hash s ?b) = (ok, w1, ac, ls)"
    by (metis prod_cases4)
  have s': "s' = s\<lparr>lock_hash := (lock_hash s)(?b := ls), acct := ac\<rparr>" and r: "r = (if ok then 0 else - ENOLCK)"
    using u wk by (auto simp: unlock_range_def Let_def split: if_splits)
  note at = flk_inv_at [OF inv bucket_less [of k]]
  show ?thesis
  proof (cases ok)
    case True
    note wk1 = wk [unfolded True [THEN eqTrueI]]
    note p = unlock_walk_ok [OF wk1 at(1) le]
    note a = unlock_walk_acct [OF wk1 at(2) rest_uids_nonneg at(3)]
    have "flk_inv s'" unfolding s' using flk_inv_bucket [OF bucket_less [of k]] p a at(4) by blast
    moreover have "held s' k' kd ow x t \<longleftrightarrow>
        held s k' kd ow x t \<and> \<not> (k' = k \<and> kd = kind \<and> ow = owner \<and> start \<le> x \<and> x \<le> fin)" for k' kd ow x t
      using p by (cases "bucket k' = ?b") (auto simp: held_def s')
    ultimately show ?thesis using True r by simp
  next
    case False
    then have wk1: "unlock_walk mem k kind owner start fin (acct s) (lock_hash s ?b) = (False, w1, ac, ls)" using wk by simp
    from unlock_walk_fail_same [OF wk1 _ le] at(1) obtain u where ls: "ls = lock_hash s ?b" "flk_alloc mem (acct s) u = (False, ac)"
      by (auto simp: list_ok_def)
    have "0 \<le> rest_uids s ?b v + uid_count v (lock_hash s ?b)" for v
      using rest_uids_nonneg [of s ?b v] uid_count_nonneg [of v "lock_hash s ?b"] by simp
    from flk_alloc_ok [OF at(2) this ls(2)]
    have "acct_ok ac (\<lambda>u. rest_uids s ?b u + uid_count u ls) (rest_len s ?b + int (length ls))" by (simp add: ls(1))
    then have "flk_inv s'" unfolding s' using flk_inv_bucket [OF bucket_less [of k]] at ls(1) by blast
    then show ?thesis using False r s' ls(1) by simp
  qed
qed

lemma no_conflict_compat:
  assumes "\<not> conflicts m k kind owner type start fin" "part m' m" "\<not> hit k kind owner start fin m'"
    "lkey n = k" "lkind n = kind" "lowner n = owner" "ltype n = type" "lstart n = start" "lend n = fin"
  shows "compat n m'"
  using assms by (auto simp: conflicts_def fkey_eq part_def hit_def mine_def compat_def overlap_def split: if_splits)

lemma lock_insert_ok:
  assumes inv: "flk_inv s" and le: "start \<le> fin" and ty: "type = F_RDLCK \<or> type = F_WRLCK"
    and nc: "find_conflict s k kind owner type start fin = None"
    and li: "lock_insert mem1 mem2 s k kind owner type start fin uid tgid = (r, s')"
  shows "flk_inv s' \<and>
    ((r = 0 \<and> (\<forall>k' kd ow x t. held s' k' kd ow x t \<longleftrightarrow>
        (if k' = k \<and> kd = kind \<and> ow = owner \<and> start \<le> x \<and> x \<le> fin then t = type else held s k' kd ow x t))) \<or>
     (r = - ENOLCK \<and> lock_hash s' = lock_hash s))"
proof -
  let ?b = "bucket k" and ?ls = "lock_hash s (bucket k)"
  let ?n = "\<lparr>lkey = k, lkind = kind, ltype = type, lstart = start, lend = fin, lowner = owner, lpid = tgid, luid = uid\<rparr>"
  obtain ok ac where al: "flk_alloc mem1 (acct s) uid = (ok, ac)" by fastforce
  note at = flk_inv_at [OF inv bucket_less [of k]]
  have pos: "0 \<le> rest_uids s ?b v + uid_count v ?ls" for v
    using rest_uids_nonneg [of s ?b v] uid_count_nonneg [of v ?ls] by simp
  note fa = flk_alloc_ok [OF at(2) pos al]
  show ?thesis
  proof (cases ok)
    case False
    then have "r = - ENOLCK" "s' = s\<lparr>acct := ac\<rparr>" using li al by (auto simp: lock_insert_def)
    moreover have "flk_inv (s\<lparr>acct := ac\<rparr>)"
      using flk_inv_acct [OF bucket_less [of k], where s = s and ac = ac] fa False at by auto
    ultimately show ?thesis by simp
  next
    case True
    obtain ok2 w1 ac2 ls where wk: "unlock_walk mem2 k kind owner start fin ac ?ls = (ok2, w1, ac2, ls)"
      by (metis prod_cases4)
    let ?rest = "\<lambda>u. rest_uids s ?b u + (if u = uid then 1 else 0)"
    have ac: "acct_ok ac (\<lambda>u. ?rest u + uid_count u ?ls) (rest_len s ?b + 1 + int (length ?ls))"
      "rest_len s ?b + 1 + int (length ?ls) \<le> LOCKS_MAX"
      using fa True by (auto elim: acct_ok_ext)
    show ?thesis
    proof (cases ok2)
      case False
      then have wk1: "unlock_walk mem2 k kind owner start fin ac ?ls = (False, w1, ac2, ls)" using wk by simp
      from unlock_walk_fail_same [OF wk1 _ le] at(1) obtain u where ls: "ls = ?ls" "flk_alloc mem2 ac u = (False, ac2)"
        by (auto simp: list_ok_def)
      have rs: "r = - ENOLCK" "s' = s\<lparr>acct := lock_uncharge ac2 uid\<rparr>"
        using li al True wk1 ls(1) by (auto simp: lock_insert_def unlock_range_def Let_def)
      have "0 \<le> ?rest v + uid_count v ?ls" for v using pos [of v] by auto
      from flk_alloc_ok [OF ac(1) this ls(2)]
      have "acct_ok ac2 (\<lambda>u. ?rest u + uid_count u ?ls) (rest_len s ?b + 1 + int (length ?ls))" by simp
      from lock_uncharge_ok [OF this, of uid] pos [of uid]
      have "acct_ok (lock_uncharge ac2 uid) (\<lambda>u. rest_uids s ?b u + uid_count u ?ls) (rest_len s ?b + int (length ?ls))"
        by (auto elim: acct_ok_ext)
      then have "flk_inv (s\<lparr>acct := lock_uncharge ac2 uid\<rparr>)"
        using flk_inv_acct [OF bucket_less [of k], where s = s and ac = "lock_uncharge ac2 uid"] at by auto
      then show ?thesis using rs by simp
    next
      case ok2: True
      then have wk1: "unlock_walk mem2 k kind owner start fin ac ?ls = (True, w1, ac2, ls)" using wk by simp
      have rs: "r = 0" "s' = s\<lparr>lock_hash := (lock_hash s)(?b := ?n # ls), acct := ac2\<rparr>"
        using li al True wk1 by (auto simp: lock_insert_def unlock_range_def Let_def)
      note p = unlock_walk_ok [OF wk1 at(1) le]
      have rpos: "0 \<le> ?rest u" for u using rest_uids_nonneg [of s ?b u] by simp
      note a = unlock_walk_acct [OF wk1 ac(1) rpos ac(2)]
      have nh: "\<not> hit k kind owner start fin m'" if "m' \<in> set ls" for m'
      proof
        assume h: "hit k kind owner start fin m'"
        have ne: "lstart m' \<le> lend m'" using p that by (auto simp: list_ok_def lock_ok_def)
        have "covers ls k kind owner (max start (lstart m')) (ltype m')"
          using h that ne by (auto simp: covers_def hit_def mine_def intro!: bexI [of _ m'])
        with p h le show False by (auto simp: hit_def)
      qed
      have "compat ?n m'" if "m' \<in> set ls" for m'
      proof -
        obtain m where m: "m \<in> set ?ls" "part m' m" using p \<open>m' \<in> set ls\<close> by blast
        then have "\<not> conflicts m k kind owner type start fin"
          using nc by (auto simp: find_conflict_def find_None_iff)
        from no_conflict_compat [OF this m(2) nh [OF \<open>m' \<in> set ls\<close>]] show ?thesis by simp
      qed
      then have lo: "list_ok ?b (?n # ls)" using p le ty by (auto simp: list_ok_def lock_ok_def)
      have "acct_ok ac2 (\<lambda>u. rest_uids s ?b u + uid_count u (?n # ls)) (rest_len s ?b + int (length (?n # ls)))"
        using a by (auto simp: uid_count_Cons elim: acct_ok_ext)
      then have "flk_inv s'" unfolding rs(2) using flk_inv_bucket [OF bucket_less [of k]] lo a at(4) by auto
      moreover have "held s' k' kd ow x t \<longleftrightarrow>
          (if k' = k \<and> kd = kind \<and> ow = owner \<and> start \<le> x \<and> x \<le> fin then t = type else held s k' kd ow x t)" for k' kd ow x t
        using p by (cases "bucket k' = ?b") (auto simp: held_def rs(2) covers_Cons)
      ultimately show ?thesis using rs(1) by simp
    qed
  qed
qed

text \<open>What a lock or unlock request does, byte by byte, to the table \<open>s\<close> it met.\<close>

definition lock_effect ::
  "lstate \<Rightarrow> lstate \<Rightarrow> int \<Rightarrow> fkey \<Rightarrow> lk_kind \<Rightarrow> u32 \<Rightarrow> int \<Rightarrow> int \<Rightarrow> int \<Rightarrow> bool" where
  "lock_effect s s' r k kind owner type start fin =
    ((r = 0 \<and> (\<forall>k' kd ow x t. held s' k' kd ow x t \<longleftrightarrow>
        (if k' = k \<and> kd = kind \<and> ow = owner \<and> start \<le> x \<and> x \<le> fin
         then type \<noteq> F_UNLCK \<and> t = type else held s k' kd ow x t)) \<and>
       (type \<noteq> F_UNLCK \<longrightarrow> find_conflict s k kind owner type start fin = None)) \<or>
     (r \<in> {- ENOLCK, - EAGAIN, - EINTR, - EBADF} \<and> lock_hash s' = lock_hash s))"

lemma set_lock_now:
  assumes inv: "flk_inv s" and le: "start \<le> fin" and ty: "type \<in> {F_RDLCK, F_WRLCK, F_UNLCK}"
    and call: "set_lock_locked [] mem1 mem2 s k kind owner type start fin nb sig uid tgid = Some (r, s')"
  shows "flk_inv s' \<and>
    lock_effect s s' r k kind owner type start fin"
proof (cases "type = F_UNLCK")
  case True
  with call obtain w where "unlock_range mem2 s k kind owner start fin = (r, s', w)"
    by (auto simp: set_lock_locked.simps split: prod.splits)
  from unlock_range_ok [OF inv le this] True show ?thesis by (auto simp: lock_effect_def)
next
  case False
  show ?thesis
  proof (cases "find_conflict s k kind owner type start fin = None")
    case nc: True
    then have li: "lock_insert mem1 mem2 s k kind owner type start fin uid tgid = (r, s')"
      using call False by (simp add: set_lock_locked.simps)
    from lock_insert_ok [OF inv le _ nc li] ty False nc show ?thesis by (auto simp: lock_effect_def)
  next
    case cf: False
    with call inv False show ?thesis by (auto simp: lock_effect_def set_lock_locked.simps split: if_splits)
  qed
qed

lemma set_lock_ok:
  assumes "flk_inv s" "\<forall>(s1, same, sg)\<in>set ws. flk_inv s1" "start \<le> fin" "type \<in> {F_RDLCK, F_WRLCK, F_UNLCK}"
    "set_lock_locked ws mem1 mem2 s k kind owner type start fin nb sig uid tgid = Some (r, s')"
  shows "flk_inv s' \<and> (\<exists>s0. (s0 = s \<or> (\<exists>a b. (s0, a, b) \<in> set ws)) \<and>
    lock_effect s0 s' r k kind owner type start fin)"
  using assms
proof (induction ws arbitrary: s sig)
  case Nil
  then show ?case using set_lock_now [OF Nil.prems(1,3,4,5)] by blast
next
  case (Cons wk ws)
  obtain s1 same sg where w: "wk = (s1, same, sg)" by (cases wk)
  show ?case
  proof (cases "type \<noteq> F_UNLCK \<and> find_conflict s k kind owner type start fin \<noteq> None \<and> \<not> nb \<and> \<not> sig")
    case True
    show ?thesis
    proof (cases same)
      case sm: True
      then have c: "set_lock_locked ws mem1 mem2 s1 k kind owner type start fin nb sg uid tgid = Some (r, s')"
        using True Cons.prems(5) w by (auto simp: set_lock_locked.simps [of "(s1, True, sg) # ws"])
      have i: "flk_inv s1" "\<forall>(s1, same, sg)\<in>set ws. flk_inv s1" using Cons.prems(2) w by auto
      from Cons.IH [OF i Cons.prems(3,4) c] w show ?thesis by auto
    next
      case False
      with True Cons.prems(5) have "r = - EBADF" "s' = s1"
        using w by (auto simp: set_lock_locked.simps [of "(s1, False, sg) # ws"])
      then have "lock_effect s1 s' r k kind owner type start fin" by (simp add: lock_effect_def)
      moreover have "flk_inv s'" using Cons.prems(2) w \<open>s' = s1\<close> by auto
      ultimately show ?thesis using w by auto
    qed
  next
    case False
    then have "set_lock_locked [] mem1 mem2 s k kind owner type start fin nb sig uid tgid = Some (r, s')"
      using Cons.prems(5) by (auto simp: set_lock_locked.simps split: if_splits)
    from set_lock_now [OF Cons.prems(1,3,4) this] show ?thesis by blast
  qed
qed

section \<open>Closing\<close>

lemma remove_walk_filter:
  "remove_walk match ac ls = (w, ac', ls') \<Longrightarrow> ls' = filter (\<lambda>l. \<not> match l) ls"
  by (induction ls arbitrary: ac w ls') (fastforce split: if_splits prod.splits)+

lemma remove_walk_acct:
  assumes "remove_walk match ac ls = (w, ac', ls')"
    "acct_ok ac (\<lambda>u. rest u + uid_count u ls) (n + int (length ls))" "\<And>u. 0 \<le> rest u"
  shows "acct_ok ac' (\<lambda>u. rest u + uid_count u ls') (n + int (length ls'))"
  using assms
proof (induction ls arbitrary: ac w ls' rest n)
  case Nil
  then show ?case by simp
next
  case (Cons l ls)
  show ?case
  proof (cases "match l")
    case True
    obtain w2 where r2: "remove_walk match (lock_uncharge ac (luid l)) ls = (w2, ac', ls')"
      using Cons.prems(1) True by (auto split: prod.splits)
    have "acct_ok (lock_uncharge ac (luid l))
        ((\<lambda>u. rest u + uid_count u (l # ls))(luid l := rest (luid l) + uid_count (luid l) (l # ls) - 1)) (n + int (length (l # ls)) - 1)"
      using uid_count_nonneg [of "luid l" ls] Cons.prems(3) [of "luid l"]
      by (intro lock_uncharge_ok [OF Cons.prems(2)]) (simp add: uid_count_Cons)
    then have "acct_ok (lock_uncharge ac (luid l)) (\<lambda>u. rest u + uid_count u ls) (n + int (length ls))"
      by (rule acct_ok_ext) (auto simp: uid_count_Cons)
    then show ?thesis using Cons.prems(3) by (intro Cons.IH [OF r2]) auto
  next
    case False
    obtain ls1 where r2: "remove_walk match ac ls = (w, ac', ls1)" and ls': "ls' = l # ls1"
      using Cons.prems(1) False by (auto split: prod.splits)
    let ?rest = "\<lambda>u. rest u + (if luid l = u then 1 else 0)"
    have "acct_ok ac (\<lambda>u. ?rest u + uid_count u ls) (n + 1 + int (length ls))"
      using Cons.prems(2) by (rule acct_ok_ext) (auto simp: uid_count_Cons)
    then have "acct_ok ac' (\<lambda>u. ?rest u + uid_count u ls1) (n + 1 + int (length ls1))"
      using Cons.prems(3) by (intro Cons.IH [OF r2]) auto
    then show ?thesis by (auto simp: ls' uid_count_Cons elim: acct_ok_ext)
  qed
qed

lemma list_ok_filter: "list_ok b ls \<Longrightarrow> list_ok b (filter P ls)"
  by (auto simp: list_ok_def intro: sorted_wrt_filter)

lemma remove_bucket_ok:
  assumes "flk_inv s" "b < 64" "remove_bucket match b (s, w) = (s', w')"
  shows "flk_inv s' \<and> lock_hash s' = (lock_hash s)(b := filter (\<lambda>l. \<not> match l) (lock_hash s b))"
proof -
  obtain w1 ac ls where r: "remove_walk match (acct s) (lock_hash s b) = (w1, ac, ls)" by (metis prod_cases3)
  note at = flk_inv_at [OF assms(1,2)]
  have ls: "ls = filter (\<lambda>l. \<not> match l) (lock_hash s b)" using remove_walk_filter [OF r] .
  have s': "s' = s\<lparr>lock_hash := (lock_hash s)(b := ls), acct := ac\<rparr>" using assms(3) r by (simp add: remove_bucket_def)
  have "acct_ok ac (\<lambda>u. rest_uids s b u + uid_count u ls) (rest_len s b + int (length ls))"
    using remove_walk_acct [OF r at(2) rest_uids_nonneg] .
  moreover have "rest_len s b + int (length ls) \<le> LOCKS_MAX"
    using at(3) length_filter_le [of "\<lambda>l. \<not> match l" "lock_hash s b"] unfolding ls by linarith
  ultimately have "flk_inv s'"
    unfolding s' using flk_inv_bucket [OF assms(2)] at(4) list_ok_filter [OF at(1)] ls by blast
  then show ?thesis using s' ls by simp
qed

lemma remove_buckets_ok:
  assumes "flk_inv s" "set bs \<subseteq> {..<64}" "foldl (\<lambda>sw b. remove_bucket match b sw) (s, w) bs = (s', w')"
  shows "flk_inv s' \<and>
    (\<forall>i. lock_hash s' i = (if i \<in> set bs then filter (\<lambda>l. \<not> match l) (lock_hash s i) else lock_hash s i))"
  using assms
proof (induction bs arbitrary: s w)
  case Nil
  then show ?case by simp
next
  case (Cons b bs)
  obtain s1 w1 where r: "remove_bucket match b (s, w) = (s1, w1)" by fastforce
  have s1: "flk_inv s1" "lock_hash s1 = (lock_hash s)(b := filter (\<lambda>l. \<not> match l) (lock_hash s b))"
    using remove_bucket_ok [OF Cons.prems(1) _ r] Cons.prems(2) by auto
  from Cons.IH [OF s1(1), of w1] Cons.prems r s1(2) show ?case by auto
qed

lemma covers_filter:
  "covers (filter (\<lambda>l. \<not> match l) ls) k kd ow x t \<longleftrightarrow>
   (\<exists>l\<in>set ls. \<not> match l \<and> lkey l = k \<and> lkind l = kd \<and> lowner l = ow \<and> ltype l = t \<and> lstart l \<le> x \<and> x \<le> lend l)"
  by (auto simp: covers_def)

lemma unlock_all_ok:
  assumes inv: "flk_inv s" and u: "unlock_all s only match = (s', w)" and b: "\<And>c. only = Some c \<Longrightarrow> c < 64"
    and m: "\<And>l. match l = P (lkey l) (lkind l) (lowner l)"
      "\<And>c kk kd ow. only = Some c \<Longrightarrow> P kk kd ow \<Longrightarrow> bucket kk = c"
  shows "flk_inv s' \<and> (\<forall>k kd ow x t. held s' k kd ow x t \<longleftrightarrow> held s k kd ow x t \<and> \<not> P k kd ow)"
proof (cases only)
  case None
  have "flk_inv s' \<and> (\<forall>i. lock_hash s' i = (if i \<in> set [0..<64] then filter (\<lambda>l. \<not> match l) (lock_hash s i) else lock_hash s i))"
    using u None by (intro remove_buckets_ok [OF inv, of "[0..<64]" match False s' w]) (auto simp: unlock_all_def)
  moreover from this have "lock_hash s' (bucket k) = filter (\<lambda>l. \<not> match l) (lock_hash s (bucket k))" for k by simp
  ultimately show ?thesis by (auto simp: held_def covers_filter m(1)) (auto simp: covers_def)
next
  case (Some c)
  have r: "remove_bucket match c (s, False) = (s', w)" using u Some by (simp add: unlock_all_def)
  from remove_bucket_ok [OF inv b [OF Some] r] have s': "flk_inv s'"
    "lock_hash s' = (lock_hash s)(c := filter (\<lambda>l. \<not> match l) (lock_hash s c))" by auto
  have "held s' k kd ow x t \<longleftrightarrow> held s k kd ow x t \<and> \<not> P k kd ow" for k kd ow x t
  proof (cases "bucket k = c")
    case True
    then show ?thesis by (auto simp: held_def s'(2) covers_filter m(1)) (auto simp: covers_def)
  next
    case False
    then have "\<not> P k kd ow" using m(2) [OF Some] by blast
    then show ?thesis using False by (simp add: held_def s'(2))
  qed
  then show ?thesis using s'(1) by blast
qed

section \<open>Every operation keeps the table\<close>

lemma flk_inv_empty:
  assumes "flk_inv s" "nlocks (acct s) = 0" "b < 64"
  shows "lock_hash s b = []"
proof -
  have "(\<Sum>b<64. int (length (lock_hash s b))) = 0" using assms by (simp add: flk_inv_def acct_ok_def)
  then have "int (length (lock_hash s b)) = 0" using assms(3) by (simp add: sum_nonneg_eq_0_iff)
  then show ?thesis by simp
qed

lemma fd_closed_ok:
  assumes inv: "flk_inv s" and f: "f_type f = FD_FILE" "f_node f = Some node"
  shows "flk_inv (flock_fd_closed s addr f table procs) \<and>
    (\<forall>k kd ow x t. held (flock_fd_closed s addr f table procs) k kd ow x t \<longleftrightarrow>
       held s k kd ow x t \<and> \<not> (k = key_of node \<and> kd = LK_POSIX \<and> table = Some ow) \<and>
       \<not> (k = key_of node \<and> kd \<noteq> LK_POSIX \<and> f_fid f \<noteq> 0 \<and> ow = f_fid f \<and> \<not> fid_in_use (f_fid f) addr procs))"
proof (cases "nlocks (acct s) = 0 \<or> lock_hash s (bucket (key_of node)) = []")
  case True
  have "lock_hash s (bucket (key_of node)) = []" using True flk_inv_empty [OF inv] by auto
  moreover have "flock_fd_closed s addr f table procs = s" using True f by (auto simp: flock_fd_closed_def Let_def)
  ultimately show ?thesis using inv by (auto simp: held_def covers_def)
next
  case False
  let ?k = "key_of node"
  let ?b = "bucket ?k"
  define s1 where "s1 = (case table of None \<Rightarrow> s | Some t \<Rightarrow> fst (unlock_all s (Some ?b) (match_posix_close ?k t)))"
  have s1: "flk_inv s1 \<and> (\<forall>k kd ow x t. held s1 k kd ow x t \<longleftrightarrow>
      held s k kd ow x t \<and> \<not> (k = ?k \<and> kd = LK_POSIX \<and> table = Some ow))"
  proof (cases table)
    case None
    then show ?thesis using inv by (simp add: s1_def)
  next
    case (Some t)
    obtain s' w where u: "unlock_all s (Some ?b) (match_posix_close ?k t) = (s', w)" by fastforce
    have "flk_inv s' \<and> (\<forall>k kd ow x t'. held s' k kd ow x t' \<longleftrightarrow>
        held s k kd ow x t' \<and> \<not> (k = ?k \<and> kd = LK_POSIX \<and> ow = t))"
      by (rule unlock_all_ok [OF inv u]) (auto simp: match_posix_close_def fkey_eq)
    then show ?thesis using u Some by (auto simp: s1_def)
  qed
  define held1 where "held1 = (f_fid f \<noteq> 0 \<and> list_ex (match_fid ?k (f_fid f)) (lock_hash s1 ?b))"
  have eq: "flock_fd_closed s addr f table procs =
      (if held1 \<and> \<not> fid_in_use (f_fid f) addr procs then fst (unlock_all s1 (Some ?b) (match_fid ?k (f_fid f))) else s1)"
    using False f by (simp add: flock_fd_closed_def Let_def s1_def held1_def)
  show ?thesis
  proof (cases "held1 \<and> \<not> fid_in_use (f_fid f) addr procs")
    case True
    obtain s' w where u: "unlock_all s1 (Some ?b) (match_fid ?k (f_fid f)) = (s', w)" by fastforce
    have "flk_inv s' \<and> (\<forall>k kd ow x t'. held s' k kd ow x t' \<longleftrightarrow>
        held s1 k kd ow x t' \<and> \<not> (k = ?k \<and> kd \<noteq> LK_POSIX \<and> ow = f_fid f))"
      using s1 by (intro unlock_all_ok [OF _ u]) (auto simp: match_fid_def fkey_eq)
    then show ?thesis using s1 u True by (auto simp: eq held1_def)
  next
    case n: False
    have "\<not> held s1 ?k kd (f_fid f) x t" if "\<not> held1" "f_fid f \<noteq> 0" "kd \<noteq> LK_POSIX" for kd x t
      using that by (auto simp: held1_def held_def covers_def list_ex_iff match_fid_def fkey_eq)
    then show ?thesis using n s1 by (auto simp: eq)
  qed
qed

lemma owner_gone_ok:
  assumes inv: "flk_inv s"
  shows "flk_inv (flock_owner_gone s owner) \<and>
    (\<forall>k kd ow x t. held (flock_owner_gone s owner) k kd ow x t \<longleftrightarrow>
       held s k kd ow x t \<and> \<not> (kd = LK_POSIX \<and> ow = owner))"
proof (cases "nlocks (acct s) = 0")
  case True
  then show ?thesis using inv flk_inv_empty [OF inv] by (simp add: flock_owner_gone_def held_def)
next
  case False
  obtain s' w where u: "unlock_all s None (match_table owner) = (s', w)" by fastforce
  have "flk_inv s' \<and> (\<forall>k kd ow x t. held s' k kd ow x t \<longleftrightarrow> held s k kd ow x t \<and> \<not> (kd = LK_POSIX \<and> ow = owner))"
    by (rule unlock_all_ok [OF inv u]) (auto simp: match_table_def)
  then show ?thesis using u False by (simp add: flock_owner_gone_def)
qed

lemma bsd_ok:
  assumes inv: "flk_inv s" and ws: "\<forall>(s1, same, sg)\<in>set ws. flk_inv s1"
    and call: "flock_bsd ws mem0 mem1 mem2 newfid s f op sig uid tgid = Some (r, f', s')"
  shows "flk_inv s'"
proof -
  have drop: "flk_inv (fst (snd (unlock_range mem0 s k LK_FLOCK fid 0 OFF_MAX)))" for k fid
    using unlock_range_ok [OF inv, of 0 OFF_MAX mem0 k LK_FLOCK fid] by (cases "unlock_range mem0 s k LK_FLOCK fid 0 OFF_MAX") auto
  have set: "flk_inv s2" if "flk_inv s1" "type \<in> {F_RDLCK, F_WRLCK, F_UNLCK}"
    "set_lock_locked ws mem1 mem2 s1 k LK_FLOCK fid type 0 OFF_MAX nb sig uid tgid = Some (r', s2)" for s1 s2 k fid type nb r'
    using set_lock_ok [OF that(1) ws _ that(2,3)] by simp
  show ?thesis
    using call inv drop
    by (auto simp: flock_bsd_def Let_def split: if_splits option.splits intro: set)
qed

lemma flock_range_ok:
  assumes "flock_range base fstart len = Inr (a, b)" "base \<le> OFF_MAX"
  shows "0 \<le> a \<and> a \<le> b \<and> b \<le> OFF_MAX"
  using assms by (auto simp: flock_range_def Let_def split: if_splits)

lemma sint64_le: "sint (w :: u64) \<le> OFF_MAX"
  using sint_less [of w] by simp

lemma fcntl_range_ok:
  assumes inv: "flk_inv s" and ws: "\<forall>(s1, same, sg)\<in>set ws. flk_inv s1"
    and le: "start \<le> fin" and ty: "fl_type fl \<in> {F_RDLCK, F_WRLCK, F_UNLCK}"
    and call: "fcntl_range ws mem1 mem2 newfid um s f cmd uarg fdt sig uid tgid fl start fin = Some (r, um', f', s')"
  shows "flk_inv s'"
proof -
  have set: "flk_inv s2" if
    "set_lock_locked ws mem1 mem2 s k kind owner (fl_type fl) start fin nb sig uid tgid = Some (r', s2)" for s2 k kind owner nb r'
    using set_lock_ok [OF inv ws le ty that] by simp
  show ?thesis
    using call inv unfolding fcntl_range_def Let_def case_prod_unfold
    by (auto split: if_splits intro: set)
qed

lemma fcntl_ok:
  assumes inv: "flk_inv s" and ws: "\<forall>(s1, same, sg)\<in>set ws. flk_inv s1"
    and call: "flock_fcntl ws mem1 mem2 newfid um s f cmd uarg fdt sig uid tgid = Some (r, um', f', s')"
  shows "flk_inv s'"
proof -
  obtain r0 bs where cp: "copy_from_user um uarg (if cmd \<ge> 12 then 24 else 16) = (r0, bs)" by fastforce
  define fl where "fl = (if cmd \<ge> 12 then kflock64_read bs else kflock32_read bs)"
  define base where "base = (if fl_whence fl = 0 then 0 else if fl_whence fl = 1 then sint (f_offset f)
    else sint (n_size (the (f_node f))))"
  have base: "base \<le> OFF_MAX" by (auto simp: base_def intro: sint64_le)
  have fin: "flk_inv s'"
    if "fl_type fl \<in> {F_RDLCK, F_WRLCK, F_UNLCK}" "flock_range base (fl_start fl) (fl_len fl) = Inr (a, b)"
      "fcntl_range ws mem1 mem2 newfid um s f cmd uarg fdt sig uid tgid fl a b = Some (r, um', f', s')" for a b
    using fcntl_range_ok [OF inv ws _ that(1,3)] flock_range_ok [OF that(2) base] by simp
  show ?thesis
    using call inv unfolding flock_fcntl_def Let_def cp prod.case fl_def [symmetric] base_def [symmetric]
    by (auto split: if_splits sum.splits prod.splits intro: fin)
qed

section \<open>Reachable tables\<close>

text \<open>
  Everything that changes the table, in any order. A call that sleeps changes nothing until
  it is woken and its test passes, except that a converting flock(2) call has dropped its old
  lock before: the rule \<open>l_drop\<close>.
\<close>

inductive flk_step :: "lstate \<Rightarrow> lstate \<Rightarrow> bool" where
  l_bsd: "flock_bsd [] mem0 mem1 mem2 newfid s f op sig uid tgid = Some (r, f', s') \<Longrightarrow> flk_step s s'"
| l_fcntl: "flock_fcntl [] mem1 mem2 newfid um s f cmd uarg fdt sig uid tgid = Some (r, um', f', s') \<Longrightarrow> flk_step s s'"
| l_drop: "unlock_range mem s k LK_FLOCK fid 0 OFF_MAX = (r, s', w) \<Longrightarrow> flk_step s s'"
| l_close: "flk_step s (flock_fd_closed s addr f table procs)"
| l_gone: "flk_step s (flock_owner_gone s owner)"

definition flk_init :: "lstate \<Rightarrow> bool" where
  "flk_init s = (lock_hash s = (\<lambda>_. []) \<and> acct s = \<lparr>nlocks = 0, lock_uids = replicate 64 (0, 0)\<rparr>)"

lemma flk_step_inv: "flk_step s s' \<Longrightarrow> flk_inv s \<Longrightarrow> flk_inv s'"
proof (induction rule: flk_step.induct)
  case (l_close s addr f table procs)
  show ?case
  proof (cases "f_type f = FD_FILE \<and> f_node f \<noteq> None")
    case True
    then show ?thesis using fd_closed_ok [OF l_close, of f] by auto
  next
    case False
    then show ?thesis using l_close by (auto simp: flock_fd_closed_def)
  qed
next
  case (l_bsd mem0 mem1 mem2 newfid s f op sig uid tgid r f' s')
  then show ?case using bsd_ok [of s "[]"] by simp
next
  case (l_fcntl mem1 mem2 newfid um s f cmd uarg fdt sig uid tgid r um' f' s')
  then show ?case using fcntl_ok [of s "[]"] by simp
next
  case (l_drop mem s k fid r s' w)
  then show ?case using unlock_range_ok [of s 0 OFF_MAX mem k LK_FLOCK fid r s' w] by simp
next
  case (l_gone s owner)
  then show ?case by (simp add: owner_gone_ok)
qed

interpretation flock_system: transition_invariant flk_init flk_step flk_inv
proof
  fix s assume "flk_init s"
  then show "flk_inv s"
    by (auto simp: flk_init_def flk_inv_def list_ok_def acct_ok_def slots_ok_def slot_count_def uid_count_def)
qed (rule flk_step_inv)

lemma flk_reach: "flk_init s0 \<Longrightarrow> flk_step\<^sup>*\<^sup>* s0 s \<Longrightarrow> flk_inv s"
  by (rule flock_system.inv_reachable)

section \<open>Properties\<close>

lemma list_ok_compat: "list_ok b ls \<Longrightarrow> l \<in> set ls \<Longrightarrow> m \<in> set ls \<Longrightarrow> l \<noteq> m \<Longrightarrow> compat l m"
proof -
  assume a: "list_ok b ls" "l \<in> set ls" "m \<in> set ls" "l \<noteq> m"
  then obtain i j where ij: "i < length ls" "j < length ls" "l = ls ! i" "m = ls ! j" by (auto simp: in_set_conv_nth)
  then have "i < j \<or> j < i" using a(4) by (metis linorder_neqE_nat)
  moreover have "sorted_wrt compat ls" using a(1) by (simp add: list_ok_def)
  ultimately show "compat l m" using ij sorted_wrt_nth_less [of compat ls] compat_sym by metis
qed

text \<open>C6: Write locks exclude. In every reachable table, if a holder has a byte of a file locked for
  writing, then no other holder has that byte locked in any way (flock locks among
  themselves; POSIX and OFD locks among each other), and a holder never has a byte locked
  twice in different ways.\<close>

theorem write_lock_excludes:
  assumes "flk_init s0" "flk_step\<^sup>*\<^sup>* s0 s" "held s k kind owner x F_WRLCK" "held s k kind' owner' x t"
    "bsd_kind kind = bsd_kind kind'"
  shows "kind' = kind \<and> owner' = owner \<and> t = F_WRLCK"
proof -
  have inv: "flk_inv s" using flk_reach [OF assms(1,2)] .
  have lo: "list_ok (bucket k) (lock_hash s (bucket k))" using flk_inv_at(1) [OF inv bucket_less] .
  obtain l where l: "l \<in> set (lock_hash s (bucket k))" "lkey l = k" "lkind l = kind" "lowner l = owner"
    "ltype l = F_WRLCK" "lstart l \<le> x" "x \<le> lend l"
    using assms(3) by (auto simp: held_def covers_def)
  obtain m where m: "m \<in> set (lock_hash s (bucket k))" "lkey m = k" "lkind m = kind'" "lowner m = owner'"
    "ltype m = t" "lstart m \<le> x" "x \<le> lend m"
    using assms(4) by (auto simp: held_def covers_def)
  show ?thesis
  proof (cases "l = m")
    case True
    then show ?thesis using l m by simp
  next
    case False
    from list_ok_compat [OF lo l(1) m(1) False] l m assms(5) show ?thesis by (auto simp: compat_def overlap_def)
  qed
qed

text \<open>C3: A lock or unlock request is byte-exact. Whatever tables it finds each time it is woken, a
  request over [start, end] that returns 0 changes exactly those bytes of exactly that
  holder, to the requested type or to unlocked (splitting, trimming and replacing the
  holder's older locks as needed), and it does so on a table where no other holder stood in
  the way; one that fails (-ENOLCK, -EAGAIN, -EINTR, -EBADF) leaves the table it found as it was.\<close>

theorem lock_request_exact:
  assumes "flk_init s0" "flk_step\<^sup>*\<^sup>* s0 s" "\<forall>(s1, same, sg)\<in>set ws. flk_step\<^sup>*\<^sup>* s0 s1" "start \<le> fin"
    "type \<in> {F_RDLCK, F_WRLCK, F_UNLCK}"
    "set_lock_locked ws mem1 mem2 s k kind owner type start fin nb sig uid tgid = Some (r, s')"
  shows "\<exists>sf. (sf = s \<or> (\<exists>a b. (sf, a, b) \<in> set ws)) \<and>
    ((r = 0 \<and> (\<forall>k' kd ow x t. held s' k' kd ow x t \<longleftrightarrow>
        (if k' = k \<and> kd = kind \<and> ow = owner \<and> start \<le> x \<and> x \<le> fin
         then type \<noteq> F_UNLCK \<and> t = type else held sf k' kd ow x t)) \<and>
       (type \<noteq> F_UNLCK \<longrightarrow> find_conflict sf k kind owner type start fin = None)) \<or>
     (r \<in> {- ENOLCK, - EAGAIN, - EINTR, - EBADF} \<and> lock_hash s' = lock_hash sf))"
proof -
  have "\<forall>(s1, same, sg)\<in>set ws. flk_inv s1" using assms(3) flk_reach [OF assms(1)] by blast
  from set_lock_ok [OF flk_reach [OF assms(1,2)] this assms(4-6)] show ?thesis
    unfolding lock_effect_def by blast
qed

lemma slot_count_le:
  assumes "slots_ok us"
  shows "slot_count us u \<le> 4096"
proof (cases "\<exists>i<64. snd (us ! i) > 0 \<and> fst (us ! i) = u")
  case True
  then obtain i where i: "i < 64" "snd (us ! i) > 0" "fst (us ! i) = u" by blast
  let ?g = "\<lambda>j. if snd (us ! j) > 0 \<and> fst (us ! j) = u then snd (us ! j) else 0"
  have "(\<Sum>j<64. ?g j) = ?g i + (\<Sum>j\<in>{..<64} - {i}. ?g j)" using i by (subst sum.remove [of _ i]) auto
  also have "(\<Sum>j\<in>{..<64} - {i}. ?g j) = 0"
    using assms i by (intro sum.neutral) (auto simp: slots_ok_def)
  finally show ?thesis using assms i by (simp add: slot_count_def slots_ok_def)
next
  case False
  then have "slot_count us u = 0" by (auto simp: slot_count_def intro!: sum.neutral)
  then show ?thesis by simp
qed


text \<open>C23: Closing a descriptor drops exactly what POSIX and flock(2) say: the closing table's POSIX
  locks on that file and, when no other descriptor of the open file description is left, the
  description's flock and OFD locks on it; no other lock. And a descriptor table that goes
  away takes exactly its POSIX locks with it.\<close>

theorem close_drops_exactly:
  assumes "flk_init s0" "flk_step\<^sup>*\<^sup>* s0 s" "f_type f = FD_FILE" "f_node f = Some node"
  shows "(held (flock_fd_closed s addr f table procs) k kd ow x t \<longleftrightarrow>
      held s k kd ow x t \<and> \<not> (k = key_of node \<and> kd = LK_POSIX \<and> table = Some ow) \<and>
      \<not> (k = key_of node \<and> kd \<noteq> LK_POSIX \<and> f_fid f \<noteq> 0 \<and> ow = f_fid f \<and> \<not> fid_in_use (f_fid f) addr procs)) \<and>
    (held (flock_owner_gone s owner) k kd ow x t \<longleftrightarrow> held s k kd ow x t \<and> \<not> (kd = LK_POSIX \<and> ow = owner))"
  using fd_closed_ok [OF flk_reach [OF assms(1,2)] assms(3,4), of addr table procs]
    owner_gone_ok [OF flk_reach [OF assms(1,2)], of owner] by blast


text \<open>F_GETLK and the conflict test of every request are exact: a conflicting lock is found if
  and only if some other holder of the same class holds a byte of the range, and one of the
  two locks is a write lock.\<close>

theorem find_conflict_exact:
  assumes "flk_init s0" "flk_step\<^sup>*\<^sup>* s0 s" "start \<le> fin"
  shows "find_conflict s k kind owner type start fin \<noteq> None \<longleftrightarrow>
    (\<exists>kd ow x t. start \<le> x \<and> x \<le> fin \<and> held s k kd ow x t \<and> bsd_kind kd = bsd_kind kind \<and>
       \<not> (kd = kind \<and> ow = owner) \<and> \<not> (t = F_RDLCK \<and> type = F_RDLCK))"
proof -
  have lo: "list_ok (bucket k) (lock_hash s (bucket k))"
    using flk_inv_at(1) [OF flk_reach [OF assms(1,2)] bucket_less] .
  have "(\<exists>x. start \<le> x \<and> x \<le> fin \<and> lstart l \<le> x \<and> x \<le> lend l) \<longleftrightarrow> lstart l \<le> fin \<and> start \<le> lend l"
    if "l \<in> set (lock_hash s (bucket k))" for l
  proof -
    have "lstart l \<le> lend l" using lo that by (simp add: list_ok_def lock_ok_def)
    then show ?thesis using assms(3) by (auto intro!: exI [of _ "max start (lstart l)"])
  qed
  then have "conflicts l k kind owner type start fin \<longleftrightarrow>
      (\<exists>x. start \<le> x \<and> x \<le> fin \<and> lstart l \<le> x \<and> x \<le> lend l) \<and> lkey l = k \<and> bsd_kind (lkind l) = bsd_kind kind \<and>
      \<not> (lkind l = kind \<and> lowner l = owner) \<and> \<not> (ltype l = F_RDLCK \<and> type = F_RDLCK)"
    if "l \<in> set (lock_hash s (bucket k))" for l
    using that by (auto simp: conflicts_def fkey_eq)
  then show ?thesis
    by (simp add: find_conflict_def find_None_iff held_def covers_def) blast
qed

definition flk_example :: lstate where
  "flk_example = \<lparr>lock_hash = (\<lambda>_. []), acct = \<lparr>nlocks = 0, lock_uids = replicate 64 (0, 0)\<rparr>\<rparr>"

definition node_example :: vnode where
  "node_example = \<lparr>n_addr = 1, n_inode = 5, n_dev = 0, n_read_fn = 9, n_size = 100\<rparr>"

definition file_example :: pfile where
  "file_example = \<lparr>f_type = FD_FILE, f_node = Some node_example, f_fid = 0, f_flags = 2, f_offset = 0\<rparr>"

definition flk_locked :: lstate where
  "flk_locked = snd (lock_insert True True flk_example (key_of node_example) LK_FLOCK 42 F_WRLCK 0 OFF_MAX 1000 77)"

lemma flk_init_example: "flk_init flk_example"
  by (simp add: flk_init_def flk_example_def)

lemma flk_insert_example:
  "lock_insert True True flk_example (key_of node_example) LK_FLOCK 42 F_WRLCK 0 OFF_MAX 1000 77 = (0, flk_locked)"
  by (simp add: flk_locked_def lock_insert_def flk_alloc_def lock_charge_def flk_example_def unlock_range_def
      upt_rec Let_def)

lemma flk_step_example: "flk_step flk_example flk_locked"
proof (rule l_bsd)
  show "flock_bsd [] True True True 42 flk_example file_example 2 False 1000 77 =
      Some (0, file_example\<lparr>f_fid := 42\<rparr>, flk_locked)"
    using flk_insert_example
    by (simp add: flock_bsd_def file_example_def Let_def flk_example_def set_lock_locked.simps find_conflict_def)
qed

lemma held_example: "held flk_locked (key_of node_example) LK_FLOCK 42 3 F_WRLCK"
  using lock_insert_ok [OF flk_reach [OF flk_init_example rtranclp.rtrancl_refl] _ _ _ flk_insert_example]
  by (auto simp: find_conflict_def flk_example_def)

theorem write_lock_excludes_witness:
  "held flk_locked (key_of node_example) LK_FLOCK 42 3 F_WRLCK \<and>
   \<not> held flk_locked (key_of node_example) LK_FLOCK 43 3 F_RDLCK"
proof -
  have r: "flk_step\<^sup>*\<^sup>* flk_example flk_locked" using flk_step_example by blast
  show ?thesis
    using write_lock_excludes [OF flk_init_example r held_example, of LK_FLOCK 43 0] held_example by auto
qed

theorem lock_request_exact_witness:
  "\<exists>r s'. set_lock_locked [] True True flk_example (key_of node_example) LK_POSIX 9 F_RDLCK 10 20 False False 1000 77 = Some (r, s') \<and>
     (r = 0 \<longrightarrow> held s' (key_of node_example) LK_POSIX 9 15 F_RDLCK)"
proof -
  have "set_lock_locked [] True True flk_example (key_of node_example) LK_POSIX 9 F_RDLCK 10 20 False False 1000 77 =
      Some (lock_insert True True flk_example (key_of node_example) LK_POSIX 9 F_RDLCK 10 20 1000 77)"
    by (simp add: set_lock_locked.simps find_conflict_def flk_example_def)
  then obtain r s' where c: "set_lock_locked [] True True flk_example (key_of node_example) LK_POSIX 9 F_RDLCK 10 20 False False 1000 77 = Some (r, s')"
    by (metis surj_pair)
  from lock_request_exact [OF flk_init_example rtranclp.rtrancl_refl _ _ _ c] c show ?thesis by auto
qed


theorem close_drops_exactly_witness:
  "\<not> held (flock_fd_closed flk_locked 0 (file_example\<lparr>f_fid := 42\<rparr>) None []) (key_of node_example) LK_FLOCK 42 3 F_WRLCK"
proof -
  have r: "flk_step\<^sup>*\<^sup>* flk_example flk_locked" using flk_step_example by blast
  show ?thesis
    using close_drops_exactly [OF flk_init_example r, of "file_example\<lparr>f_fid := 42\<rparr>" node_example 0 None "[]"
        "key_of node_example" LK_FLOCK 42 3 1 0]
    by (auto simp: file_example_def fid_in_use_def)
qed


theorem find_conflict_exact_witness:
  "find_conflict flk_locked (key_of node_example) LK_FLOCK 43 F_RDLCK 0 OFF_MAX \<noteq> None"
proof -
  have r: "flk_step\<^sup>*\<^sup>* flk_example flk_locked" using flk_step_example by blast
  have "\<exists>kd ow x t. 0 \<le> x \<and> x \<le> OFF_MAX \<and> held flk_locked (key_of node_example) kd ow x t \<and>
      bsd_kind kd = bsd_kind LK_FLOCK \<and> \<not> (kd = LK_FLOCK \<and> ow = 43) \<and> \<not> (t = F_RDLCK \<and> (0::int) = F_RDLCK)"
    using held_example by (intro exI [of _ LK_FLOCK] exI [of _ 42] exI [of _ 3] exI [of _ 1]) simp
  then show ?thesis
    using find_conflict_exact [OF flk_init_example r, of 0 OFF_MAX "key_of node_example" LK_FLOCK 43 0] by simp
qed

end
