(* ===== verification/Pmm.thy ===== *)
theory Pmm
  imports Prelude
begin

text \<open>
  The physical memory manager (mm/pmm.c): the frame bitmap with its cursors and counters, the
  quarantine ring that delays reuse, the per-frame reference counts, and \<open>pmm_init\<close> from the
  multiboot memory map. Frame indices are natural numbers: \<open>pmm_total\<close> is at most
  PMM_MAX_FRAMES, far below the width of the source's \<open>uint32_t\<close>. Addresses, lengths,
  counters and reference counts keep their width. Each operation runs under \<open>pmm_lock\<close> and is
  one function. The index 0xFFFFFFFF the scans return for failure is \<open>None\<close>.
\<close>

section \<open>State\<close>

abbreviation (input) PAGE_SIZE :: nat where "PAGE_SIZE \<equiv> 4096"
abbreviation (input) PMM_MAX_FRAMES :: nat where "PMM_MAX_FRAMES \<equiv> 4194304"
abbreviation (input) PMM_LOW_FRAMES :: nat where "PMM_LOW_FRAMES \<equiv> 1048576"
abbreviation (input) PMM_QUARANTINE :: nat where "PMM_QUARANTINE \<equiv> 512"
abbreviation (input) PMM_REF_SATURATED :: u16 where "PMM_REF_SATURATED \<equiv> 65535"

record pmm =
  pmm_bitmap :: "nat \<Rightarrow> u32"
  pmm_total :: nat
  pmm_used :: u32
  pmm_last_alloc :: nat
  pmm_last_high :: nat
  pmm_low_total :: nat
  pmm_high_used :: u32
  pmm_ram :: u32
  pmm_high_ram :: u32
  frame_refcount :: "nat \<Rightarrow> u16"
  refcount_frames :: nat
  pmm_quar :: "nat \<Rightarrow> nat"
  pmm_quar_n :: nat
  pmm_quar_pos :: nat

section \<open>The bitmap\<close>

definition BIT_SET :: "(nat \<Rightarrow> u32) \<Rightarrow> nat \<Rightarrow> (nat \<Rightarrow> u32)" where
  "BIT_SET a b = a(b div 32 := a (b div 32) OR push_bit (b mod 32) 1)"

definition BIT_CLEAR :: "(nat \<Rightarrow> u32) \<Rightarrow> nat \<Rightarrow> (nat \<Rightarrow> u32)" where
  "BIT_CLEAR a b = a(b div 32 := a (b div 32) AND NOT (push_bit (b mod 32) 1))"

definition BIT_TEST :: "(nat \<Rightarrow> u32) \<Rightarrow> nat \<Rightarrow> bool" where
  "BIT_TEST a b = (a (b div 32) AND push_bit (b mod 32) 1 \<noteq> 0)"

definition pmm_mark_used :: "nat \<Rightarrow> pmm \<Rightarrow> pmm" where
  "pmm_mark_used i s =
     (if \<not> BIT_TEST (pmm_bitmap s) i then
        s\<lparr>pmm_bitmap := BIT_SET (pmm_bitmap s) i, pmm_used := pmm_used s + 1,
          pmm_high_used := (if i \<ge> PMM_LOW_FRAMES then pmm_high_used s + 1 else pmm_high_used s)\<rparr>
      else s)"

definition pmm_mark_free :: "nat \<Rightarrow> pmm \<Rightarrow> pmm" where
  "pmm_mark_free i s =
     (if BIT_TEST (pmm_bitmap s) i then
        s\<lparr>pmm_bitmap := BIT_CLEAR (pmm_bitmap s) i, pmm_used := pmm_used s - 1,
          pmm_high_used := (if i \<ge> PMM_LOW_FRAMES then pmm_high_used s - 1 else pmm_high_used s)\<rparr>
      else s)"

text \<open>The first and the last frame (exclusive) of a region to free: rounded inwards, 64 bits cut to 32.\<close>

definition free_bounds :: "u64 \<Rightarrow> u64 \<Rightarrow> nat \<times> nat" where
  "free_bounds addr len =
     (unat (ucast ((addr + 4096 - 1) div 4096) :: u32), unat (ucast ((addr + len) div 4096) :: u32))"

definition free_region_frame :: "nat \<Rightarrow> pmm \<Rightarrow> pmm" where
  "free_region_frame i s =
     pmm_mark_free i
       (if BIT_TEST (pmm_bitmap s) i then
          s\<lparr>pmm_ram := pmm_ram s + 1,
            pmm_high_ram := (if i \<ge> PMM_LOW_FRAMES then pmm_high_ram s + 1 else pmm_high_ram s)\<rparr>
        else s)"

definition pmm_free_region :: "u64 \<Rightarrow> u64 \<Rightarrow> pmm \<Rightarrow> pmm" where
  "pmm_free_region addr len s =
     (let (start, fin) = free_bounds addr len
      in fold free_region_frame [start..<min fin (pmm_total s)] s)"

text \<open>The frames of a region to reserve: rounded outwards, in 32-bit arithmetic.\<close>

definition used_bounds :: "u32 \<Rightarrow> u32 \<Rightarrow> nat \<times> nat" where
  "used_bounds addr len = (unat (addr div 4096), unat ((addr + len + 4096 - 1) div 4096))"

definition pmm_used_region :: "u32 \<Rightarrow> u32 \<Rightarrow> pmm \<Rightarrow> pmm" where
  "pmm_used_region addr len s =
     (let (start, fin) = used_bounds addr len
      in fold pmm_mark_used [start..<min fin (pmm_total s)] s)"

definition pmm_reserve_region :: "u32 \<Rightarrow> u32 \<Rightarrow> pmm \<Rightarrow> pmm" where
  "pmm_reserve_region phys sz s = pmm_used_region phys sz s"

section \<open>Start-up\<close>

record mmap_entry =
  me_size :: u32
  me_addr :: u64
  me_len :: u64
  me_type :: u32

record multiboot_info =
  mb_flags :: u32
  mem_lower :: u32
  mem_upper :: u32
  mmap_length :: u32
  mmap_addr :: u32

text \<open>
  What start-up finds in place: the kernel image, the bitmap's and the multiboot structure's
  virtual addresses, whether PAE is on, and the memory the map entries are read from.
\<close>

record boot_env =
  kernel_phys_start :: u32
  kernel_phys_end :: u32
  bitmap_storage :: u32
  mbi_addr :: u32
  paging_pae :: bool
  entry_at :: "u32 \<Rightarrow> mmap_entry"

abbreviation (input) KERNEL_VMA :: u32 where "KERNEL_VMA \<equiv> 0xC0000000"
abbreviation (input) MULTIBOOT_INFO_SIZE :: u32 where "MULTIBOOT_INFO_SIZE \<equiv> 110"

text \<open>The entries both loops over the memory map visit; \<open>None\<close> when the walk never ends.\<close>

partial_function (option) mmap_walk :: "(u32 \<Rightarrow> mmap_entry) \<Rightarrow> u32 \<Rightarrow> u32 \<Rightarrow> mmap_entry list option" where
  "mmap_walk rd v e =
     (if v < e then
        Option.bind (mmap_walk rd (v + (me_size (rd v) + 4)) e) (\<lambda>es. Some (rd v # es))
      else Some [])"

definition total_step :: "mmap_entry \<Rightarrow> nat \<Rightarrow> nat" where
  "total_step m tot =
     (if me_type m = 1 then
        (let fin = unat ((me_addr m + me_len m) div 4096);
             fin = (if fin > PMM_MAX_FRAMES then PMM_MAX_FRAMES else fin)
         in if fin > tot then fin else tot)
      else tot)"

definition init_total :: "boot_env \<Rightarrow> multiboot_info \<Rightarrow> mmap_entry list \<Rightarrow> nat" where
  "init_total env mbi es =
     (let kb = (if mb_flags mbi AND 1 \<noteq> 0 then 1024 + mem_upper mbi else 1024);
          tot = unat (kb div 4);
          tot = (if mb_flags mbi AND 64 \<noteq> 0 then fold total_step es tot else tot);
          tot = (if tot > PMM_MAX_FRAMES then PMM_MAX_FRAMES else tot)
      in if \<not> paging_pae env \<and> tot > PMM_LOW_FRAMES then PMM_LOW_FRAMES else tot)"

definition init_all_used :: "nat \<Rightarrow> pmm \<Rightarrow> pmm" where
  "init_all_used tot s =
     (let low = (if tot < PMM_LOW_FRAMES then tot else PMM_LOW_FRAMES)
      in s\<lparr>pmm_total := tot, pmm_low_total := low,
           pmm_bitmap := (\<lambda>i. if i < (tot + 31) div 32 then 0xFFFFFFFF else pmm_bitmap s i),
           pmm_used := of_nat tot, pmm_high_used := of_nat (tot - low), pmm_last_high := low\<rparr>)"

definition free_entry :: "mmap_entry \<Rightarrow> pmm \<Rightarrow> pmm" where
  "free_entry m s = (if me_type m = 1 then pmm_free_region (me_addr m) (me_len m) s else s)"

definition init_free :: "multiboot_info \<Rightarrow> mmap_entry list \<Rightarrow> pmm \<Rightarrow> pmm" where
  "init_free mbi es s =
     (if mb_flags mbi AND 64 \<noteq> 0 then fold free_entry es s
      else if mb_flags mbi AND 1 \<noteq> 0 then
        pmm_free_region 0x100000 (ucast (mem_upper mbi) * 1024)
          (pmm_free_region 0x1000 (ucast (mem_lower mbi) * 1024 - 0x1000) s)
      else s)"

definition bitmap_bytes :: "nat \<Rightarrow> u32" where
  "bitmap_bytes tot = (((of_nat tot + 7) div 8) + 4096 - 1) AND NOT (4096 - 1)"

definition init_reserve :: "boot_env \<Rightarrow> multiboot_info \<Rightarrow> pmm \<Rightarrow> pmm" where
  "init_reserve env mbi s =
     (let s = pmm_used_region 0 0x100000 s;
          s = pmm_used_region (kernel_phys_start env) (kernel_phys_end env - kernel_phys_start env) s;
          s = pmm_used_region (bitmap_storage env - KERNEL_VMA) (bitmap_bytes (pmm_total s)) s;
          s = pmm_used_region (mbi_addr env - KERNEL_VMA) MULTIBOOT_INFO_SIZE s
      in if mb_flags mbi AND 64 \<noteq> 0 then pmm_used_region (mmap_addr mbi) (mmap_length mbi) s else s)"

text \<open>The variables before start-up: the zeroed .bss.\<close>

definition pmm_bss :: pmm where
  "pmm_bss =
     \<lparr>pmm_bitmap = (\<lambda>_. 0), pmm_total = 0, pmm_used = 0, pmm_last_alloc = 0, pmm_last_high = 0,
      pmm_low_total = 0, pmm_high_used = 0, pmm_ram = 0, pmm_high_ram = 0, frame_refcount = (\<lambda>_. 0),
      refcount_frames = 0, pmm_quar = (\<lambda>_. 0), pmm_quar_n = 0, pmm_quar_pos = 0\<rparr>"

definition boot_mmap :: "boot_env \<Rightarrow> multiboot_info \<Rightarrow> mmap_entry list option" where
  "boot_mmap env mbi =
     (if mb_flags mbi AND 64 \<noteq> 0 then
        (let v = mmap_addr mbi + KERNEL_VMA in mmap_walk (entry_at env) v (v + mmap_length mbi))
      else Some [])"

definition pmm_init :: "boot_env \<Rightarrow> multiboot_info \<Rightarrow> pmm option" where
  "pmm_init env mbi =
     (case boot_mmap env mbi of None \<Rightarrow> None
      | Some es \<Rightarrow>
          Some (init_reserve env mbi (init_free mbi es (init_all_used (init_total env mbi es) pmm_bss))))"

section \<open>Allocation\<close>

definition pmm_alloc_uaf_check :: "nat \<Rightarrow> pmm \<Rightarrow> pmm" where
  "pmm_alloc_uaf_check i s =
     (if i < refcount_frames s \<and> frame_refcount s i \<noteq> 0
      then s\<lparr>frame_refcount := (frame_refcount s)(i := 0)\<rparr> else s)"

text \<open>One pass of \<open>pmm_scan\<close>, with the skip of fully used words.\<close>

function scan_pass :: "(nat \<Rightarrow> u32) \<Rightarrow> nat \<Rightarrow> nat \<Rightarrow> nat option" where
  "scan_pass bm idx till =
     (if idx < till then
        if idx mod 32 = 0 \<and> idx + 32 \<le> till \<and> bm (idx div 32) = 0xFFFFFFFF then scan_pass bm (idx + 32) till
        else if \<not> BIT_TEST bm idx then Some idx
        else scan_pass bm (idx + 1) till
      else None)"
  by pat_completeness auto
termination by (relation "measure (\<lambda>(bm, idx, till). till - idx)") auto

declare scan_pass.simps [simp del]

text \<open>The result, the cursor afterwards and the state; the cursor is one of two variables.\<close>

definition pmm_scan :: "nat \<Rightarrow> nat \<Rightarrow> nat \<Rightarrow> pmm \<Rightarrow> nat option \<times> nat \<times> pmm" where
  "pmm_scan lo hi cursor s =
     (let cursor = (if cursor < lo \<or> cursor \<ge> hi then lo else cursor)
      in case (case scan_pass (pmm_bitmap s) cursor hi of Some i \<Rightarrow> Some i
               | None \<Rightarrow> scan_pass (pmm_bitmap s) lo cursor) of
           Some i \<Rightarrow> (Some i, i, pmm_alloc_uaf_check i (pmm_mark_used i s))
         | None \<Rightarrow> (None, cursor, s))"

definition pmm_alloc_frame :: "pmm \<Rightarrow> u32 \<times> pmm" where
  "pmm_alloc_frame s =
     (let (r, c, s) = pmm_scan 0 (pmm_low_total s) (pmm_last_alloc s) s; s = s\<lparr>pmm_last_alloc := c\<rparr>
      in case r of None \<Rightarrow> (0, s) | Some i \<Rightarrow> (of_nat i * 4096, s))"

text \<open>The search of \<open>pmm_alloc_contig\<close>: the first frame of the run.\<close>

function contig_search :: "(nat \<Rightarrow> u32) \<Rightarrow> nat \<Rightarrow> nat \<Rightarrow> nat \<Rightarrow> nat \<Rightarrow> nat option" where
  "contig_search bm n hi idx run =
     (if idx < hi then
        if BIT_TEST bm idx then contig_search bm n hi (idx + 1) 0
        else if run + 1 = n then Some (idx + 1 - n)
        else contig_search bm n hi (idx + 1) (run + 1)
      else None)"
  by pat_completeness auto
termination by (relation "measure (\<lambda>(bm, n, hi, idx, run). hi - idx)") auto

declare contig_search.simps [simp del]

definition take_frame :: "nat \<Rightarrow> pmm \<Rightarrow> pmm" where
  "take_frame i s = pmm_alloc_uaf_check i (pmm_mark_used i s)"

definition pmm_alloc_contig :: "nat \<Rightarrow> nat \<Rightarrow> pmm \<Rightarrow> u32 \<times> pmm" where
  "pmm_alloc_contig n limit s =
     (if n = 0 then (0, s)
      else
        let hi = (if limit < pmm_low_total s then limit else pmm_low_total s)
        in case contig_search (pmm_bitmap s) n hi 1 0 of
             None \<Rightarrow> (0, s)
           | Some found \<Rightarrow> (of_nat found * 4096, fold take_frame [found..<found + n] s))"

definition pmm_alloc_user_frame :: "pmm \<Rightarrow> u64 \<times> pmm" where
  "pmm_alloc_user_frame s =
     (let high =
        (if pmm_total s > pmm_low_total s then
           (let (r, c, s') = pmm_scan (pmm_low_total s) (pmm_total s) (pmm_last_high s) s
            in (r, s'\<lparr>pmm_last_high := c\<rparr>))
         else (None, s))
      in case high of
           (Some i, s') \<Rightarrow> (of_nat i * 4096, s')
         | (None, s') \<Rightarrow> (let (p, s'') = pmm_alloc_frame s' in (ucast p, s'')))"

section \<open>Freeing and the reference counts\<close>

definition frame_of :: "u64 \<Rightarrow> nat" where
  "frame_of phys = unat (ucast (phys div 4096) :: u32)"

definition pmm_free_frame :: "u64 \<Rightarrow> pmm \<Rightarrow> pmm" where
  "pmm_free_frame phys s =
     (let idx = frame_of phys in
      if idx \<ge> pmm_total s then s
      else if pmm_quar_n s < PMM_QUARANTINE then
        s\<lparr>pmm_quar := (pmm_quar s)(pmm_quar_n s := idx), pmm_quar_n := pmm_quar_n s + 1\<rparr>
      else
        (let evict = pmm_quar s (pmm_quar_pos s)
         in pmm_mark_free evict
              (s\<lparr>pmm_quar := (pmm_quar s)(pmm_quar_pos s := idx),
                 pmm_quar_pos := (pmm_quar_pos s + 1) mod PMM_QUARANTINE\<rparr>)))"

definition pmm_free_frames :: "pmm \<Rightarrow> u32" where
  "pmm_free_frames s = of_nat (pmm_total s) - pmm_used s"

definition pmm_high_free_frames :: "pmm \<Rightarrow> u32" where
  "pmm_high_free_frames s = of_nat (pmm_total s) - of_nat (pmm_low_total s) - pmm_high_used s"

text \<open>\<open>mem\<close>: whether kmalloc found room for the counts.\<close>

definition pmm_refcount_init :: "bool \<Rightarrow> pmm \<Rightarrow> pmm" where
  "pmm_refcount_init mem s =
     (if \<not> mem then s
      else s\<lparr>frame_refcount := (\<lambda>i. if i < pmm_total s then 0 else frame_refcount s i),
             refcount_frames := pmm_total s\<rparr>)"

definition pmm_frame_incref :: "u64 \<Rightarrow> pmm \<Rightarrow> pmm" where
  "pmm_frame_incref phys s =
     (let idx = frame_of phys in
      if idx < refcount_frames s \<and> frame_refcount s idx < PMM_REF_SATURATED
      then s\<lparr>frame_refcount := (frame_refcount s)(idx := frame_refcount s idx + 1)\<rparr> else s)"

definition pmm_frame_refcount :: "u64 \<Rightarrow> pmm \<Rightarrow> u16" where
  "pmm_frame_refcount phys s =
     (let idx = frame_of phys in if idx \<ge> refcount_frames s then 0 else frame_refcount s idx)"

definition pmm_frame_decref :: "u64 \<Rightarrow> pmm \<Rightarrow> pmm" where
  "pmm_frame_decref phys s =
     (let idx = frame_of phys in
      if idx \<ge> refcount_frames s then s
      else if frame_refcount s idx > 0 \<and> frame_refcount s idx < PMM_REF_SATURATED then
        (let s' = s\<lparr>frame_refcount := (frame_refcount s)(idx := frame_refcount s idx - 1)\<rparr>
         in if frame_refcount s' idx = 0 then pmm_free_frame phys s' else s')
      else s)"

section \<open>Bits, used frames and the quarantine as sets and lists\<close>

lemma BIT_TEST_bit: "BIT_TEST a b = bit (a (b div 32)) (b mod 32)"
  by (simp add: BIT_TEST_def push_bit_eq_mult and_exp_eq_0_iff_not_bit)

lemma BIT_TEST_SET: "BIT_TEST (BIT_SET a b) c = (c = b \<or> BIT_TEST a c)"
proof -
  have "c = b" if "c div 32 = b div 32" "c mod 32 = b mod 32" using that by (metis div_mult_mod_eq)
  then show ?thesis by (auto simp: BIT_TEST_bit BIT_SET_def bit_simps)
qed

lemma BIT_TEST_CLEAR: "BIT_TEST (BIT_CLEAR a b) c = (c \<noteq> b \<and> BIT_TEST a c)"
proof -
  have "c = b" if "c div 32 = b div 32" "c mod 32 = b mod 32" using that by (metis div_mult_mod_eq)
  then show ?thesis by (auto simp: BIT_TEST_bit BIT_CLEAR_def bit_simps)
qed

definition used_set :: "pmm \<Rightarrow> nat set" where
  "used_set s = {i. i < pmm_total s \<and> BIT_TEST (pmm_bitmap s) i}"

definition quar_list :: "pmm \<Rightarrow> nat list" where
  "quar_list s = map (pmm_quar s) ([pmm_quar_pos s..<pmm_quar_n s] @ [0..<pmm_quar_pos s])"

text \<open>The frames somebody holds: used, and not resting in the quarantine.\<close>

definition live_frames :: "pmm \<Rightarrow> nat set" where
  "live_frames s = used_set s - set (quar_list s)"

definition counts_ok :: "pmm \<Rightarrow> bool" where
  "counts_ok s \<longleftrightarrow> pmm_used s = of_nat (card (used_set s)) \<and>
     pmm_high_used s = of_nat (card {i \<in> used_set s. PMM_LOW_FRAMES \<le> i})"

definition quar_ok :: "pmm \<Rightarrow> bool" where
  "quar_ok s \<longleftrightarrow> pmm_quar_n s \<le> PMM_QUARANTINE \<and> pmm_quar_pos s < PMM_QUARANTINE \<and>
     (pmm_quar_n s < PMM_QUARANTINE \<longrightarrow> pmm_quar_pos s = 0) \<and>
     distinct (quar_list s) \<and> set (quar_list s) \<subseteq> used_set s"

definition pmm_inv :: "pmm \<Rightarrow> bool" where
  "pmm_inv s \<longleftrightarrow> pmm_total s \<le> PMM_MAX_FRAMES \<and> pmm_low_total s = min (pmm_total s) PMM_LOW_FRAMES \<and>
     refcount_frames s \<le> pmm_total s \<and> counts_ok s \<and> quar_ok s"

lemma finite_used [simp]: "finite (used_set s)"
  by (simp add: used_set_def)

subsection \<open>Marking frames\<close>

definition same_frame_state :: "pmm \<Rightarrow> pmm \<Rightarrow> bool" where
  "same_frame_state s t \<longleftrightarrow> pmm_total t = pmm_total s \<and> pmm_low_total t = pmm_low_total s \<and>
     refcount_frames t = refcount_frames s \<and> pmm_quar t = pmm_quar s \<and> pmm_quar_n t = pmm_quar_n s \<and>
     pmm_quar_pos t = pmm_quar_pos s"

lemma same_frame_state_refl [simp]: "same_frame_state s s"
  by (simp add: same_frame_state_def)

lemma same_frame_state_trans: "same_frame_state s t \<Longrightarrow> same_frame_state t u \<Longrightarrow> same_frame_state s u"
  by (simp add: same_frame_state_def)

lemma quar_list_cong: "same_frame_state s t \<Longrightarrow> quar_list t = quar_list s"
  by (simp add: same_frame_state_def quar_list_def)

lemma mark_used_state [simp]: "same_frame_state s (pmm_mark_used i s)"
  and mark_free_state [simp]: "same_frame_state s (pmm_mark_free i s)"
  and mark_used_refs [simp]: "frame_refcount (pmm_mark_used i s) = frame_refcount s"
  and mark_free_refs [simp]: "frame_refcount (pmm_mark_free i s) = frame_refcount s"
  by (simp_all add: same_frame_state_def pmm_mark_used_def pmm_mark_free_def)

lemma used_set_mark_used: "i < pmm_total s \<Longrightarrow> used_set (pmm_mark_used i s) = insert i (used_set s)"
  by (auto simp: used_set_def pmm_mark_used_def BIT_TEST_SET)

lemma used_set_mark_free: "used_set (pmm_mark_free i s) = used_set s - {i}"
  by (auto simp: used_set_def pmm_mark_free_def BIT_TEST_CLEAR)

lemma counts_ok_mark_used: "counts_ok s \<Longrightarrow> i < pmm_total s \<Longrightarrow> counts_ok (pmm_mark_used i s)"
proof -
  assume c: "counts_ok s" and i: "i < pmm_total s"
  have "{j \<in> insert i (used_set s). PMM_LOW_FRAMES \<le> j} =
      (if PMM_LOW_FRAMES \<le> i then insert i {j \<in> used_set s. PMM_LOW_FRAMES \<le> j} else {j \<in> used_set s. PMM_LOW_FRAMES \<le> j})"
    by auto
  moreover have "BIT_TEST (pmm_bitmap s) i = (i \<in> used_set s)" using i by (simp add: used_set_def)
  ultimately show ?thesis
    using c i by (simp add: counts_ok_def used_set_mark_used) (simp add: pmm_mark_used_def insert_absorb)
qed

lemma card_Diff_of_nat: "finite A \<Longrightarrow> i \<in> A \<Longrightarrow> of_nat (card (A - {i})) = of_nat (card A) - (1 :: u32)"
  by (metis card_Suc_Diff1 add_diff_cancel_left' of_nat_Suc)

lemma counts_ok_mark_free: "counts_ok s \<Longrightarrow> i < pmm_total s \<Longrightarrow> counts_ok (pmm_mark_free i s)"
proof -
  assume c: "counts_ok s" and i: "i < pmm_total s"
  have "{j \<in> used_set s - {i}. PMM_LOW_FRAMES \<le> j} =
      (if PMM_LOW_FRAMES \<le> i then {j \<in> used_set s. PMM_LOW_FRAMES \<le> j} - {i} else {j \<in> used_set s. PMM_LOW_FRAMES \<le> j})"
    by auto
  moreover have "BIT_TEST (pmm_bitmap s) i = (i \<in> used_set s)" using i by (simp add: used_set_def)
  ultimately show ?thesis
    using c i by (simp add: counts_ok_def used_set_mark_free) (simp add: pmm_mark_free_def card_Diff_of_nat del: card_Diff_singleton card_Diff_insert)
qed

subsection \<open>Taking frames\<close>

text \<open>What every allocation does to the state: the frames \<open>A\<close>, free before, become used.\<close>

definition took :: "pmm \<Rightarrow> nat set \<Rightarrow> pmm \<Rightarrow> bool" where
  "took s A t \<longleftrightarrow> same_frame_state s t \<and> A \<subseteq> {..<pmm_total s} - used_set s \<and> used_set t = used_set s \<union> A \<and>
     (counts_ok s \<longrightarrow> counts_ok t) \<and>
     frame_refcount t = (\<lambda>i. if i \<in> A \<and> i < refcount_frames s then 0 else frame_refcount s i)"

lemma took_empty [simp]: "took s {} s"
  by (simp add: took_def)

lemma took_trans: "took s A t \<Longrightarrow> took t B u \<Longrightarrow> took s (A \<union> B) u"
  by (auto simp: took_def same_frame_state_def)

lemma took_inv: "took s A t \<Longrightarrow> pmm_inv s \<Longrightarrow> pmm_inv t"
  using quar_list_cong [of s t] by (auto simp: took_def pmm_inv_def quar_ok_def same_frame_state_def)

lemma took_live: "took s A t \<Longrightarrow> pmm_inv s \<Longrightarrow> live_frames t = live_frames s \<union> A"
  using quar_list_cong [of s t] by (auto simp: took_def live_frames_def pmm_inv_def quar_ok_def)

lemma took_fresh: "took s A t \<Longrightarrow> A \<inter> live_frames s = {}"
  by (auto simp: took_def live_frames_def)

lemma uaf_check_simps [simp]:
  "same_frame_state s (pmm_alloc_uaf_check i s)" "pmm_bitmap (pmm_alloc_uaf_check i s) = pmm_bitmap s"
  "pmm_used (pmm_alloc_uaf_check i s) = pmm_used s" "pmm_high_used (pmm_alloc_uaf_check i s) = pmm_high_used s"
  "frame_refcount (pmm_alloc_uaf_check i s) =
     (\<lambda>j. if j = i \<and> i < refcount_frames s then 0 else frame_refcount s j)"
  by (auto simp: pmm_alloc_uaf_check_def same_frame_state_def)

lemma used_set_cong: "pmm_bitmap t = pmm_bitmap s \<Longrightarrow> pmm_total t = pmm_total s \<Longrightarrow> used_set t = used_set s"
  by (simp add: used_set_def)

lemma counts_ok_cong:
  "used_set t = used_set s \<Longrightarrow> pmm_used t = pmm_used s \<Longrightarrow> pmm_high_used t = pmm_high_used s \<Longrightarrow> counts_ok t = counts_ok s"
  by (simp add: counts_ok_def)

lemma took_frame: "i < pmm_total s \<Longrightarrow> i \<notin> used_set s \<Longrightarrow> took s {i} (take_frame i s)"
proof -
  assume i: "i < pmm_total s" "i \<notin> used_set s"
  let ?m = "pmm_mark_used i s"
  have st: "same_frame_state s (take_frame i s)"
    unfolding take_frame_def by (rule same_frame_state_trans [OF mark_used_state uaf_check_simps(1)])
  have us: "used_set (take_frame i s) = used_set ?m"
    using uaf_check_simps(1) [of ?m i] by (intro used_set_cong) (simp_all add: take_frame_def same_frame_state_def)
  have "counts_ok (take_frame i s) = counts_ok ?m"
    by (rule counts_ok_cong [OF us]) (simp_all add: take_frame_def)
  moreover have "refcount_frames ?m = refcount_frames s" using mark_used_state [of s i] by (simp add: same_frame_state_def)
  ultimately show ?thesis
    using i st us used_set_mark_used [OF i(1)] counts_ok_mark_used [OF _ i(1)]
    by (auto simp: took_def take_frame_def)
qed

lemma took_fold: 
  "\<forall>i\<in>set is. i < pmm_total s \<and> i \<notin> used_set s \<Longrightarrow> distinct is \<Longrightarrow> took s (set is) (fold take_frame is s)"
proof (induction "is" arbitrary: s)
  case Nil
  then show ?case by simp
next
  case (Cons i js)
  note t = took_frame [of i s]
  have ti: "took s {i} (take_frame i s)" using Cons.prems by (intro t) auto
  then have "took (take_frame i s) (set js) (fold take_frame js (take_frame i s))"
    using Cons.prems by (intro Cons.IH) (auto simp: took_def same_frame_state_def)
  from took_trans [OF ti this] show ?case by simp
qed

lemma cursor_simps [simp]:
  "used_set (t\<lparr>pmm_last_alloc := c\<rparr>) = used_set t" "used_set (t\<lparr>pmm_last_high := c\<rparr>) = used_set t"
  "counts_ok (t\<lparr>pmm_last_alloc := c\<rparr>) = counts_ok t" "counts_ok (t\<lparr>pmm_last_high := c\<rparr>) = counts_ok t"
  by (simp_all add: used_set_def counts_ok_def)

lemma took_cursor: "took s A t \<Longrightarrow> took s A (t\<lparr>pmm_last_alloc := c\<rparr>)"
  and took_cursor_high: "took s A t \<Longrightarrow> took s A (t\<lparr>pmm_last_high := c\<rparr>)"
  by (simp_all add: took_def same_frame_state_def)

section \<open>The scan\<close>

lemma full_word: "bm (i div 32) = 0xFFFFFFFF \<Longrightarrow> BIT_TEST bm i"
proof -
  assume f: "bm (i div 32) = 0xFFFFFFFF"
  have "(0xFFFFFFFF :: u32) = mask 32" by (simp add: mask_eq_exp_minus_1)
  then show ?thesis unfolding BIT_TEST_bit f by (simp only: bit_mask_iff) simp
qed

lemma scan_pass_find: "scan_pass bm idx till = find (\<lambda>i. \<not> BIT_TEST bm i) [idx..<till]"
proof (induction bm idx till rule: scan_pass.induct)
  case (1 bm idx till)
  show ?case
  proof (cases "idx < till")
    case lt: True
    show ?thesis
    proof (cases "idx mod 32 = 0 \<and> idx + 32 \<le> till \<and> bm (idx div 32) = 0xFFFFFFFF")
      case True
      have "BIT_TEST bm j" if "idx \<le> j" "j < idx + 32" for j
      proof -
        obtain q where "idx = 32 * q" using True by (metis mult.commute mult_div_mod_eq add_0_right)
        then have "j div 32 = idx div 32" using that by (auto intro!: div_nat_eqI)
        then show ?thesis using True full_word [of bm j] by simp
      qed
      then have "find (\<lambda>i. \<not> BIT_TEST bm i) [idx..<till] = find (\<lambda>i. \<not> BIT_TEST bm i) [idx + 32..<till]"
        using True by (intro find_skip) auto
      moreover have "scan_pass bm idx till = scan_pass bm (idx + 32) till"
        using lt True by (subst scan_pass.simps) (simp only: if_True simp_thms)
      ultimately show ?thesis using 1(1) [OF lt True] by (simp only:)
    next
      case False
      have up: "[idx..<till] = idx # [idx + 1..<till]" using lt by (simp add: upt_conv_Cons)
      have e: "scan_pass bm idx till = (if \<not> BIT_TEST bm idx then Some idx else scan_pass bm (idx + 1) till)"
        using lt False by (subst scan_pass.simps) (simp only: if_True if_False)
      show ?thesis
      proof (cases "BIT_TEST bm idx")
        case True
        then show ?thesis using 1(2) [OF lt False] by (simp add: e up)
      next
        case False
        then show ?thesis by (simp add: e up)
      qed
    qed
  next
    case False
    then show ?thesis by (subst scan_pass.simps) simp
  qed
qed

text \<open>The distance from the cursor, going up and around in \<open>[lo, hi)\<close>.\<close>

definition ring_dist :: "nat \<Rightarrow> nat \<Rightarrow> nat \<Rightarrow> nat \<Rightarrow> nat" where
  "ring_dist lo hi c i = (if c \<le> i then i - c else i + (hi - lo) - c)"

definition scan_start :: "nat \<Rightarrow> nat \<Rightarrow> nat \<Rightarrow> nat" where
  "scan_start lo hi c = (if c < lo \<or> c \<ge> hi then lo else c)"

lemma pmm_scan_Some:
  assumes "pmm_scan lo hi c s = (Some i, c', t)" "hi \<le> pmm_total s"
  shows "lo \<le> i \<and> i < hi \<and> i \<notin> used_set s \<and> c' = i \<and> t = take_frame i s \<and>
    (\<forall>j. lo \<le> j \<longrightarrow> j < hi \<longrightarrow> j \<notin> used_set s \<longrightarrow>
         ring_dist lo hi (scan_start lo hi c) i \<le> ring_dist lo hi (scan_start lo hi c) j)"
proof -
  define d where "d = scan_start lo hi c"
  let ?f = "\<lambda>a b. find (\<lambda>i. \<not> BIT_TEST (pmm_bitmap s) i) [a..<b]"
  have r: "(case ?f d hi of Some i \<Rightarrow> Some i | None \<Rightarrow> ?f lo d) = Some i" and t: "t = take_frame i s" "c' = i"
    using assms(1) by (auto simp: pmm_scan_def Let_def scan_start_def scan_pass_find d_def take_frame_def
        split: option.splits)
  have u: "j < pmm_total s \<Longrightarrow> (j \<in> used_set s) = BIT_TEST (pmm_bitmap s) j" for j by (simp add: used_set_def)
  show ?thesis
  proof (cases "?f d hi")
    case None
    then have n: "d \<le> j \<Longrightarrow> j < hi \<Longrightarrow> j \<in> used_set s" for j using u assms(2) by (simp add: find_upt_None)
    from None r have "lo \<le> i \<and> i < d \<and> \<not> BIT_TEST (pmm_bitmap s) i \<and> (\<forall>j. lo \<le> j \<longrightarrow> j < i \<longrightarrow> BIT_TEST (pmm_bitmap s) j)"
      by (simp add: find_upt_Some)
    moreover have "d < hi \<or> d = lo" by (auto simp: d_def scan_start_def)
    ultimately have i: "lo \<le> i" "i < d" "d < hi" "i \<notin> used_set s" "\<And>j. lo \<le> j \<Longrightarrow> j < i \<Longrightarrow> j \<in> used_set s"
      using u assms(2) by auto
    have "ring_dist lo hi d i \<le> ring_dist lo hi d j" if "lo \<le> j" "j < hi" "j \<notin> used_set s" for j
    proof -
      have "j < d" "i \<le> j" using n i that by (meson not_le)+
      then show ?thesis using i by (simp add: ring_dist_def)
    qed
    then show ?thesis using i t by (simp add: d_def)
  next
    case (Some k)
    then have "?f d hi = Some i" using r by simp
    then have "d \<le> i \<and> i < hi \<and> \<not> BIT_TEST (pmm_bitmap s) i \<and> (\<forall>j. d \<le> j \<longrightarrow> j < i \<longrightarrow> BIT_TEST (pmm_bitmap s) j)"
      by (simp add: find_upt_Some)
    moreover have "lo \<le> d" by (auto simp: d_def scan_start_def)
    ultimately have i: "lo \<le> d" "d \<le> i" "i < hi" "i \<notin> used_set s" "\<And>j. d \<le> j \<Longrightarrow> j < i \<Longrightarrow> j \<in> used_set s"
      using u assms(2) by auto
    have "ring_dist lo hi d i \<le> ring_dist lo hi d j" if "lo \<le> j" "j < hi" "j \<notin> used_set s" for j
    proof -
      have "d \<le> j \<longrightarrow> i \<le> j" using i that by (meson not_le)
      then show ?thesis using i(1,2,3) that(1,2) unfolding ring_dist_def by auto
    qed
    then show ?thesis using i t by (simp add: d_def)
  qed
qed

lemma pmm_scan_None:
  assumes "pmm_scan lo hi c s = (None, c', t)" "hi \<le> pmm_total s"
  shows "t = s \<and> (\<forall>j. lo \<le> j \<longrightarrow> j < hi \<longrightarrow> j \<in> used_set s)"
proof -
  let ?d = "scan_start lo hi c"
  let ?f = "\<lambda>a b. find (\<lambda>i. \<not> BIT_TEST (pmm_bitmap s) i) [a..<b]"
  have r: "?f ?d hi = None" "?f lo ?d = None" and t: "t = s"
    using assms(1) by (auto simp: pmm_scan_def Let_def scan_start_def scan_pass_find split: option.splits if_splits)
  have u: "j < pmm_total s \<Longrightarrow> (j \<in> used_set s) = BIT_TEST (pmm_bitmap s) j" for j by (simp add: used_set_def)
  have "j \<in> used_set s" if "lo \<le> j" "j < hi" for j
    using r that u assms(2) by (cases "?d \<le> j") (auto simp: find_upt_None)
  then show ?thesis using t by simp
qed

lemma took_scan: "pmm_scan lo hi c s = (Some i, c', t) \<Longrightarrow> hi \<le> pmm_total s \<Longrightarrow> took s {i} t"
  using pmm_scan_Some [of lo hi c s i c' t] took_frame [of i s] by simp

lemma low_total_le: "pmm_inv s \<Longrightarrow> pmm_low_total s \<le> pmm_total s"
  by (simp add: pmm_inv_def)

lemma frame_addr: "i < PMM_LOW_FRAMES \<Longrightarrow> unat (of_nat i * 4096 :: u32) = i * 4096"
  by (simp add: unat_mult_lem [THEN iffD1] unat_of_nat take_bit_eq_mod)

section \<open>Allocation\<close>

lemma pmm_alloc_frame_cases:
  assumes "pmm_inv s" "pmm_alloc_frame s = (p, t)"
  obtains (oom) "p = 0" "took s {} t" "{..<pmm_low_total s} \<subseteq> used_set s"
  | (ok) i where "p = of_nat i * 4096" "i < pmm_low_total s" "i \<notin> used_set s" "took s {i} t" "pmm_last_alloc t = i"
      "\<And>j. j < pmm_low_total s \<Longrightarrow> j \<notin> used_set s \<Longrightarrow>
        ring_dist 0 (pmm_low_total s) (scan_start 0 (pmm_low_total s) (pmm_last_alloc s)) i
          \<le> ring_dist 0 (pmm_low_total s) (scan_start 0 (pmm_low_total s) (pmm_last_alloc s)) j"
proof -
  obtain r c u where e: "pmm_scan 0 (pmm_low_total s) (pmm_last_alloc s) s = (r, c, u)" by (metis prod_cases3)
  note le = low_total_le [OF assms(1)]
  show thesis
  proof (cases r)
    case None
    then have "u = s" "{..<pmm_low_total s} \<subseteq> used_set s" using pmm_scan_None [OF _ le] e by auto
    moreover have "p = 0" "t = u\<lparr>pmm_last_alloc := c\<rparr>" using assms(2) e None by (auto simp: pmm_alloc_frame_def)
    ultimately show ?thesis using took_cursor [OF took_empty] by (intro oom) auto
  next
    case (Some i)
    note sc = pmm_scan_Some [OF e [unfolded Some] le] and tk = took_scan [OF e [unfolded Some] le]
    have "p = of_nat i * 4096" "t = u\<lparr>pmm_last_alloc := c\<rparr>" using assms(2) e Some by (auto simp: pmm_alloc_frame_def)
    then show ?thesis using sc took_cursor [OF tk] by (intro ok [of i]) auto
  qed
qed

lemma ucast_frame_addr: "i < PMM_LOW_FRAMES \<Longrightarrow> (ucast (of_nat i * 4096 :: u32) :: u64) = of_nat i * 4096"
proof -
  assume i: "i < PMM_LOW_FRAMES"
  have "(ucast (of_nat i * 4096 :: u32) :: u64) = of_nat (unat (of_nat i * 4096 :: u32))"
    by (simp only: of_nat_unat)
  also have "\<dots> = of_nat (i * 4096)" by (simp only: frame_addr [OF i])
  finally show ?thesis by simp
qed

lemma low_frame_neq_0: "0 < i \<Longrightarrow> i < PMM_LOW_FRAMES \<Longrightarrow> (of_nat i * 4096 :: u32) \<noteq> 0"
  using frame_addr [of i] by (metis mult_is_0 neq0_conv unat_0 zero_neq_numeral)

lemma pmm_alloc_user_frame_cases:
  assumes "pmm_inv s" "pmm_alloc_user_frame s = (p, t)"
  obtains (oom) "p = 0" "took s {} t" "{..<pmm_total s} \<subseteq> used_set s"
  | (ok) i where "p = of_nat i * 4096" "i < pmm_total s" "i \<notin> used_set s" "took s {i} t"
      "i < pmm_low_total s \<Longrightarrow> {pmm_low_total s..<pmm_total s} \<subseteq> used_set s"
proof (cases "pmm_total s > pmm_low_total s")
  case True
  obtain r c u where e: "pmm_scan (pmm_low_total s) (pmm_total s) (pmm_last_high s) s = (r, c, u)" by (metis prod_cases3)
  show thesis
  proof (cases r)
    case (Some i)
    have "p = of_nat i * 4096" "t = u\<lparr>pmm_last_high := c\<rparr>"
      using assms(2) e Some True by (auto simp: pmm_alloc_user_frame_def)
    then show ?thesis
      using pmm_scan_Some [OF e [unfolded Some]] took_cursor_high [OF took_scan [OF e [unfolded Some]]]
      by (intro ok [of i]) auto
  next
    case None
    then have u: "u = s" "{pmm_low_total s..<pmm_total s} \<subseteq> used_set s" using pmm_scan_None [of _ _ _ s c u] e by auto
    let ?s = "s\<lparr>pmm_last_high := c\<rparr>"
    obtain q v where q: "pmm_alloc_frame ?s = (q, v)" by (cases "pmm_alloc_frame ?s")
    have pt: "p = ucast q" "t = v" using assms(2) e None True q u by (auto simp: pmm_alloc_user_frame_def)
    have tk: "took s {} ?s" by (rule took_cursor_high) simp
    have i': "pmm_inv ?s" by (rule took_inv [OF tk assms(1)])
    from i' q show ?thesis
    proof (cases rule: pmm_alloc_frame_cases)
      case oom
      have "{..<pmm_total s} \<subseteq> used_set s" using oom(3) u(2) by (auto simp: not_less subset_iff) (meson not_le)
      then show ?thesis using oom(1,2) pt took_trans [OF tk oom(2)] by (intro that(1)) auto
    next
      case (ok i)
      have "i < PMM_LOW_FRAMES" using ok(2) assms(1) by (simp add: pmm_inv_def)
      then have "(ucast q :: u64) = of_nat i * 4096"
        using ok(1) by (simp add: ucast_frame_addr)
      then show ?thesis using ok pt took_trans [OF tk ok(4)] u(2) low_total_le [OF assms(1)] by (intro that(2) [of i]) auto
    qed
  qed
next
  case False
  obtain q v where q: "pmm_alloc_frame s = (q, v)" by (cases "pmm_alloc_frame s")
  have pt: "p = ucast q" "t = v" using assms(2) False q by (auto simp: pmm_alloc_user_frame_def)
  have tt: "pmm_total s = pmm_low_total s" using False low_total_le [OF assms(1)] by simp
  from assms(1) q show thesis
  proof (cases rule: pmm_alloc_frame_cases)
    case oom
    then show ?thesis using pt tt by (intro that(1)) auto
  next
    case (ok i)
    have "i < PMM_LOW_FRAMES" using ok(2) assms(1) by (simp add: pmm_inv_def)
    then have "(ucast q :: u64) = of_nat i * 4096"
      using ok(1) by (simp add: ucast_frame_addr)
    then show ?thesis using ok pt tt by (intro that(2) [of i]) auto
  qed
qed

text \<open>\<open>free_run\<close>: the \<open>n\<close> frames from \<open>i\<close> on are free and below \<open>hi\<close>.\<close>

definition free_run :: "(nat \<Rightarrow> u32) \<Rightarrow> nat \<Rightarrow> nat \<Rightarrow> nat \<Rightarrow> bool" where
  "free_run bm n hi i \<longleftrightarrow> i + n \<le> hi \<and> (\<forall>j. i \<le> j \<longrightarrow> j < i + n \<longrightarrow> \<not> BIT_TEST bm j)"

lemma contig_search_spec:
  assumes "1 \<le> n" "run < n" "run \<le> idx"
    "\<And>j. idx - run \<le> j \<Longrightarrow> j < idx \<Longrightarrow> \<not> BIT_TEST bm j"
    "\<And>i. i0 \<le> i \<Longrightarrow> i < idx - run \<Longrightarrow> \<not> free_run bm n hi i" "i0 \<le> idx - run"
  shows "case contig_search bm n hi idx run of
      None \<Rightarrow> \<forall>i\<ge>i0. \<not> free_run bm n hi i
    | Some f \<Rightarrow> i0 \<le> f \<and> free_run bm n hi f \<and> (\<forall>i. i0 \<le> i \<longrightarrow> i < f \<longrightarrow> \<not> free_run bm n hi i)"
  using assms
proof (induction bm n hi idx run rule: contig_search.induct)
  case (1 bm n hi idx run)
  consider (out) "\<not> idx < hi" | (used) "idx < hi" "BIT_TEST bm idx" | (hit) "idx < hi" "\<not> BIT_TEST bm idx" "run + 1 = n"
    | (more) "idx < hi" "\<not> BIT_TEST bm idx" "run + 1 \<noteq> n" by blast
  then show ?case
  proof cases
    case out
    then have "contig_search bm n hi idx run = None" by (subst contig_search.simps) simp
    moreover have "\<not> free_run bm n hi i" if "i0 \<le> i" for i
    proof (cases "i < idx - run")
      case True
      then show ?thesis using "1.prems"(5) that by blast
    next
      case False
      then have "\<not> i + n \<le> hi" using out "1.prems"(2,3) by linarith
      then show ?thesis by (simp add: free_run_def)
    qed
    ultimately show ?thesis by simp
  next
    case used
    have e: "contig_search bm n hi idx run = contig_search bm n hi (idx + 1) 0"
      using used by (subst contig_search.simps) simp
    have "\<not> free_run bm n hi i" if "i0 \<le> i" "i < idx + 1" for i
    proof (cases "i < idx - run")
      case True
      then show ?thesis using "1.prems"(5) that by blast
    next
      case False
      then have "i \<le> idx" "idx < i + n" using that "1.prems"(2) by auto
      then show ?thesis using used(2) by (auto simp: free_run_def)
    qed
    then show ?thesis unfolding e using used "1.prems"(1,6) by (intro "1.IH"(1)) auto
  next
    case hit
    have e: "contig_search bm n hi idx run = Some (idx - run)"
      using hit by (subst contig_search.simps) (simp add: hit(3) [symmetric])
    have "free_run bm n hi (idx - run)"
      unfolding free_run_def
    proof (intro conjI allI impI)
      show "idx - run + n \<le> hi" using hit "1.prems"(3) by simp
      fix j assume "idx - run \<le> j" "j < idx - run + n"
      then show "\<not> BIT_TEST bm j" using hit "1.prems"(3) "1.prems"(4) [of j] by (cases "j = idx") auto
    qed
    then show ?thesis using "1.prems"(5,6) by (simp add: e)
  next
    case more
    have e: "contig_search bm n hi idx run = contig_search bm n hi (idx + 1) (run + 1)"
      using more by (subst contig_search.simps) simp
    have "\<not> BIT_TEST bm j" if "idx + 1 - (run + 1) \<le> j" "j < idx + 1" for j
      using that more(2) "1.prems"(4) [of j] by (cases "j = idx") auto
    then show ?thesis unfolding e using more "1.prems"(1,2,3,5,6) by (intro "1.IH"(2)) auto
  qed
qed

lemma pmm_alloc_contig_cases:
  assumes "pmm_inv s" "pmm_alloc_contig n limit s = (p, t)" "0 < n"
  obtains (oom) "p = 0" "t = s" "\<And>i. 1 \<le> i \<Longrightarrow> \<not> free_run (pmm_bitmap s) n (min limit (pmm_low_total s)) i"
  | (ok) i where "p = of_nat i * 4096" "1 \<le> i" "free_run (pmm_bitmap s) n (min limit (pmm_low_total s)) i"
      "\<And>j. 1 \<le> j \<Longrightarrow> j < i \<Longrightarrow> \<not> free_run (pmm_bitmap s) n (min limit (pmm_low_total s)) j"
      "took s {i..<i + n} t"
proof -
  let ?hi = "min limit (pmm_low_total s)"
  have hi: "(if limit < pmm_low_total s then limit else pmm_low_total s) = ?hi" by simp
  note spec = contig_search_spec [of n 0 1 "pmm_bitmap s" 1 ?hi]
  show thesis
  proof (cases "contig_search (pmm_bitmap s) n ?hi 1 0")
    case None
    then show ?thesis using assms spec by (intro oom) (auto simp: pmm_alloc_contig_def Let_def hi)
  next
    case (Some i)
    have i: "1 \<le> i" "free_run (pmm_bitmap s) n ?hi i" "\<forall>j. 1 \<le> j \<longrightarrow> j < i \<longrightarrow> \<not> free_run (pmm_bitmap s) n ?hi j"
      using spec Some assms(3) by auto
    have pt: "p = of_nat i * 4096" "t = fold take_frame [i..<i + n] s"
      using assms(2,3) Some by (auto simp: pmm_alloc_contig_def Let_def hi)
    have "\<forall>j\<in>set [i..<i + n]. j < pmm_total s \<and> j \<notin> used_set s"
      using i(2) low_total_le [OF assms(1)] by (auto simp: free_run_def used_set_def)
    then have "took s {i..<i + n} t" using took_fold [of "[i..<i + n]" s] pt by simp
    then show ?thesis using i pt by (intro ok [of i]) auto
  qed
qed

section \<open>Freeing\<close>

lemma quar_list_filling:
  assumes "quar_ok s" "pmm_quar_n s < PMM_QUARANTINE"
  shows "quar_list (s\<lparr>pmm_quar := (pmm_quar s)(pmm_quar_n s := i), pmm_quar_n := pmm_quar_n s + 1\<rparr>) = quar_list s @ [i]"
  using assms by (simp add: quar_ok_def quar_list_def)

lemma quar_list_full:
  assumes "quar_ok s" "\<not> pmm_quar_n s < PMM_QUARANTINE"
  shows "quar_list s = pmm_quar s (pmm_quar_pos s) # tl (quar_list s) \<and>
    quar_list (s\<lparr>pmm_quar := (pmm_quar s)(pmm_quar_pos s := i), pmm_quar_pos := (pmm_quar_pos s + 1) mod PMM_QUARANTINE\<rparr>)
      = tl (quar_list s) @ [i]"
proof -
  define n where "n = PMM_QUARANTINE"
  define p where "p = pmm_quar_pos s"
  have n: "pmm_quar_n s = n" and p: "p < n" using assms by (auto simp: quar_ok_def n_def p_def)
  have ql: "quar_list s = map (pmm_quar s) ([p..<n] @ [0..<p])" by (simp add: quar_list_def n p_def)
  have up: "[p..<n] = p # [Suc p..<n]" using p by (simp add: upt_conv_Cons)
  let ?f = "(pmm_quar s)(p := i)"
  have "map ?f ([(p + 1) mod n..<n] @ [0..<(p + 1) mod n]) = map (pmm_quar s) ([Suc p..<n] @ [0..<p]) @ [i]"
  proof (cases "Suc p < n")
    case True
    then show ?thesis by simp
  next
    case False
    then have e: "n = Suc p" using p by simp
    show ?thesis unfolding e by simp
  qed
  then show ?thesis using up by (simp add: ql quar_list_def n n_def [symmetric] p_def [symmetric])
qed

lemma pmm_free_frame_effect:
  assumes "pmm_inv s" "frame_of p \<in> live_frames s"
  defines "t \<equiv> pmm_free_frame p s"
  shows "pmm_inv t" "live_frames t = live_frames s - {frame_of p}" "frame_refcount t = frame_refcount s"
    "pmm_total t = pmm_total s" "refcount_frames t = refcount_frames s" "pmm_low_total t = pmm_low_total s"
    "quar_list t = (if pmm_quar_n s < PMM_QUARANTINE then quar_list s else tl (quar_list s)) @ [frame_of p]"
    "used_set t = (if pmm_quar_n s < PMM_QUARANTINE then used_set s else used_set s - {hd (quar_list s)})"
proof -
  let ?i = "frame_of p"
  have i: "?i < pmm_total s" "?i \<in> used_set s" "?i \<notin> set (quar_list s)" using assms(2) by (auto simp: live_frames_def used_set_def)
  have q: "quar_ok s" "counts_ok s" using assms(1) by (auto simp: pmm_inv_def)
  have "pmm_inv t \<and> live_frames t = live_frames s - {?i} \<and> frame_refcount t = frame_refcount s \<and>
    pmm_total t = pmm_total s \<and> refcount_frames t = refcount_frames s \<and> pmm_low_total t = pmm_low_total s \<and>
    quar_list t = (if pmm_quar_n s < PMM_QUARANTINE then quar_list s else tl (quar_list s)) @ [?i] \<and>
    used_set t = (if pmm_quar_n s < PMM_QUARANTINE then used_set s else used_set s - {hd (quar_list s)})"
  proof (cases "pmm_quar_n s < PMM_QUARANTINE")
    case True
    let ?t = "s\<lparr>pmm_quar := (pmm_quar s)(pmm_quar_n s := ?i), pmm_quar_n := pmm_quar_n s + 1\<rparr>"
    have t: "t = ?t" using i True by (simp add: t_def pmm_free_frame_def Let_def)
    have ql: "quar_list ?t = quar_list s @ [?i]" by (rule quar_list_filling [OF q(1) True])
    have us: "used_set ?t = used_set s" by (simp add: used_set_def)
    have c: "counts_ok ?t = counts_ok s" by (rule counts_ok_cong [OF us]) simp_all
    have "quar_ok ?t" unfolding quar_ok_def ql us using q(1) i True by (auto simp: quar_ok_def)
    then have "pmm_inv ?t" using assms(1) c q by (simp add: pmm_inv_def)
    moreover have "live_frames ?t = live_frames s - {?i}" unfolding live_frames_def ql us by auto
    ultimately show ?thesis using True ql us unfolding t by simp
  next
    case False
    let ?e = "pmm_quar s (pmm_quar_pos s)"
    let ?u = "s\<lparr>pmm_quar := (pmm_quar s)(pmm_quar_pos s := ?i), pmm_quar_pos := (pmm_quar_pos s + 1) mod PMM_QUARANTINE\<rparr>"
    have t: "t = pmm_mark_free ?e ?u" using i False by (simp add: t_def pmm_free_frame_def Let_def)
    note ql = quar_list_full [OF q(1) False, of ?i]
    have hd: "hd (quar_list s) = ?e" by (metis ql list.sel(1))
    have qt: "quar_list t = tl (quar_list s) @ [?i]" unfolding t using quar_list_cong [OF mark_free_state] ql by simp
    have "used_set ?u = used_set s" by (simp add: used_set_def)
    then have us: "used_set t = used_set s - {?e}" unfolding t by (simp add: used_set_mark_free)
    have e: "?e \<in> used_set s" using ql q(1) by (metis list.set_intros(1) quar_ok_def subsetD)
    have cu: "counts_ok ?u" using q(2) by (subst counts_ok_cong [of ?u s]) (simp_all add: used_set_def)
    have ct: "counts_ok t" unfolding t using e by (intro counts_ok_mark_free [OF cu]) (simp add: used_set_def)
    have st: "same_frame_state ?u t" unfolding t by simp
    have dis: "distinct (quar_list s)" "set (quar_list s) \<subseteq> used_set s" using q(1) by (auto simp: quar_ok_def)
    have sq: "?e \<notin> set (tl (quar_list s))" "set (quar_list s) = insert ?e (set (tl (quar_list s)))"
      using dis(1) ql by (metis distinct.simps(2), metis list.simps(15))
    have "quar_ok t" unfolding quar_ok_def qt us
      using q(1) i False st sq dis by (auto simp: quar_ok_def same_frame_state_def distinct_tl)
    then have "pmm_inv t" using assms(1) ct st by (simp add: pmm_inv_def same_frame_state_def)
    moreover have "live_frames t = live_frames s - {?i}" unfolding live_frames_def qt us using sq by auto
    moreover have "frame_refcount t = frame_refcount s" unfolding t by simp
    ultimately show ?thesis using False qt us st hd by (simp add: same_frame_state_def)
  qed
  then show "pmm_inv t" "live_frames t = live_frames s - {frame_of p}" "frame_refcount t = frame_refcount s"
    "pmm_total t = pmm_total s" "refcount_frames t = refcount_frames s" "pmm_low_total t = pmm_low_total s"
    "quar_list t = (if pmm_quar_n s < PMM_QUARANTINE then quar_list s else tl (quar_list s)) @ [frame_of p]"
    "used_set t = (if pmm_quar_n s < PMM_QUARANTINE then used_set s else used_set s - {hd (quar_list s)})" by simp_all
qed

section \<open>Reserving and the boot-time reservations\<close>

text \<open>Marking a list of frames used, whether they were or not.\<close>

lemma fold_mark_used:
  assumes "\<forall>i\<in>set is. i < pmm_total s"
  shows "same_frame_state s (fold pmm_mark_used is s) \<and> used_set (fold pmm_mark_used is s) = used_set s \<union> set is \<and>
    (counts_ok s \<longrightarrow> counts_ok (fold pmm_mark_used is s)) \<and> frame_refcount (fold pmm_mark_used is s) = frame_refcount s"
  using assms
proof (induction "is" arbitrary: s)
  case Nil
  then show ?case by simp
next
  case (Cons i js)
  let ?m = "pmm_mark_used i s"
  have i: "i < pmm_total s" using Cons.prems by simp
  have tot: "pmm_total ?m = pmm_total s" using mark_used_state [of s i] by (simp add: same_frame_state_def)
  have "\<forall>j\<in>set js. j < pmm_total ?m" using Cons.prems tot by simp
  note IH = Cons.IH [OF this]
  show ?case
    using IH used_set_mark_used [OF i] counts_ok_mark_used [OF _ i] same_frame_state_trans [OF mark_used_state]
    by (auto simp: mark_used_refs)
qed

definition region_frames :: "u32 \<Rightarrow> u32 \<Rightarrow> nat \<Rightarrow> nat set" where
  "region_frames addr len tot = {fst (used_bounds addr len)..<min (snd (used_bounds addr len)) tot}"

lemma used_region_effect:
  "same_frame_state s (pmm_used_region a l s)"
  "used_set (pmm_used_region a l s) = used_set s \<union> region_frames a l (pmm_total s)"
  "counts_ok s \<Longrightarrow> counts_ok (pmm_used_region a l s)"
  "frame_refcount (pmm_used_region a l s) = frame_refcount s"
proof -
  let ?is = "[fst (used_bounds a l)..<min (snd (used_bounds a l)) (pmm_total s)]"
  have e: "pmm_used_region a l s = fold pmm_mark_used ?is s" by (simp add: pmm_used_region_def split: prod.splits)
  have "\<forall>i\<in>set ?is. i < pmm_total s" by simp
  note f = fold_mark_used [OF this]
  show "same_frame_state s (pmm_used_region a l s)"
    "used_set (pmm_used_region a l s) = used_set s \<union> region_frames a l (pmm_total s)"
    "counts_ok s \<Longrightarrow> counts_ok (pmm_used_region a l s)"
    "frame_refcount (pmm_used_region a l s) = frame_refcount s"
    using f unfolding e by (auto simp: region_frames_def)
qed

lemma used_region_inv: "pmm_inv s \<Longrightarrow> pmm_inv (pmm_used_region a l s)"
  using used_region_effect [where s = s and a = a and l = l] quar_list_cong [OF used_region_effect(1) [where s = s and a = a and l = l]]
  by (auto simp: pmm_inv_def quar_ok_def same_frame_state_def)

lemma used_region_live: "live_frames s \<subseteq> live_frames (pmm_used_region a l s)"
  using used_region_effect(2) [where s = s and a = a and l = l] quar_list_cong [OF used_region_effect(1) [where s = s and a = a and l = l]]
  by (auto simp: live_frames_def)

section \<open>The allocator at run time\<close>

text \<open>Frame 0 is never handed out: it is used from start-up on and nobody owns it.\<close>

definition pmm_ok :: "pmm \<Rightarrow> bool" where
  "pmm_ok s \<longleftrightarrow> pmm_inv s \<and> (0 < pmm_total s \<longrightarrow> 0 \<in> live_frames s)"

lemma took_total: "took s A t \<Longrightarrow> pmm_total t = pmm_total s"
  and took_refcount_frames: "took s A t \<Longrightarrow> refcount_frames t = refcount_frames s"
  and took_quar: "took s A t \<Longrightarrow> quar_list t = quar_list s"
  using quar_list_cong [of s t] by (auto simp: took_def same_frame_state_def)

lemma took_ok: "took s A t \<Longrightarrow> pmm_ok s \<Longrightarrow> pmm_ok t"
  using took_inv [of s A t] took_live [of s A t] took_total [of s A t] by (auto simp: pmm_ok_def)

lemma frame_of_index: "i < PMM_MAX_FRAMES \<Longrightarrow> frame_of (of_nat i * 4096) = i"
proof -
  assume i: "i < PMM_MAX_FRAMES"
  then have "unat (of_nat i * 4096 :: u64) = i * 4096"
    by (simp add: unat_mult_lem [THEN iffD1] unat_of_nat take_bit_eq_mod)
  then have "unat ((of_nat i * 4096 :: u64) div 4096) = i" by (simp add: unat_div)
  then show ?thesis using i by (simp add: frame_of_def unsigned_ucast_eq take_bit_nat_eq_self)
qed

datatype frame_req = KernelFrame | UserFrame

text \<open>The two single-frame calls as the client sees them: the frame, or nothing for address 0.\<close>

fun frame_alloc :: "frame_req \<Rightarrow> pmm \<Rightarrow> nat option \<times> pmm" where
  "frame_alloc KernelFrame s = (let (p, t) = pmm_alloc_frame s in (if p = 0 then None else Some (frame_of (ucast p)), t))"
| "frame_alloc UserFrame s = (let (p, t) = pmm_alloc_user_frame s in (if p = 0 then None else Some (frame_of p), t))"

lemma frame_alloc_cases:
  assumes "pmm_ok s" "frame_alloc r s = (res, t)"
  obtains (oom) "res = None" "took s {} t" "{..<pmm_low_total s} \<subseteq> used_set s"
  | (ok) i where "res = Some i" "0 < i" "i < pmm_total s" "took s {i} t"
proof -
  have inv: "pmm_inv s" using assms(1) by (simp add: pmm_ok_def)
  have nz: "0 < i" if "i < pmm_total s" "i \<notin> used_set s" for i
    using assms(1) that by (cases i) (auto simp: pmm_ok_def live_frames_def)
  show thesis
  proof (cases r)
    case KernelFrame
    obtain p where p: "pmm_alloc_frame s = (p, t)" "res = (if p = 0 then None else Some (frame_of (ucast p)))"
      using assms(2) KernelFrame by (auto split: prod.splits)
    from inv p(1) show ?thesis
    proof (cases rule: pmm_alloc_frame_cases)
      case oom
      then show ?thesis using p by (intro that(1)) auto
    next
      case (ok i)
      have i: "i < PMM_LOW_FRAMES" "i < pmm_total s" using ok(2) inv by (auto simp: pmm_inv_def)
      have "p \<noteq> 0" using low_frame_neq_0 [OF nz i(1)] i ok by simp
      moreover have "frame_of (ucast p) = i" unfolding ok(1) ucast_frame_addr [OF i(1)] using i by (intro frame_of_index) simp
      ultimately show ?thesis using p ok i nz by (intro that(2) [of i]) auto
    qed
  next
    case UserFrame
    obtain p where p: "pmm_alloc_user_frame s = (p, t)" "res = (if p = 0 then None else Some (frame_of p))"
      using assms(2) UserFrame by (auto split: prod.splits)
    from inv p(1) show ?thesis
    proof (cases rule: pmm_alloc_user_frame_cases)
      case oom
      then show ?thesis using p low_total_le [OF inv] by (intro that(1)) auto
    next
      case (ok i)
      have i: "i < PMM_MAX_FRAMES" using ok(2) inv by (auto simp: pmm_inv_def)
      have "frame_of p = i" unfolding ok(1) by (rule frame_of_index [OF i])
      moreover have "p \<noteq> 0" using nz [OF ok(2,3)] calculation by (auto simp: frame_of_def)
      ultimately show ?thesis using p ok nz by (intro that(2) [of i]) auto
    qed
  qed
qed

definition frame_free :: "nat \<Rightarrow> pmm \<Rightarrow> pmm" where
  "frame_free i = pmm_free_frame (of_nat i * 4096)"

lemma live_less: "pmm_inv s \<Longrightarrow> i \<in> live_frames s \<Longrightarrow> i < PMM_MAX_FRAMES"
  by (auto simp: pmm_inv_def live_frames_def used_set_def)

lemma frame_free_effect:
  assumes "pmm_ok s" "i \<in> live_frames s" "i \<noteq> 0"
  shows "pmm_ok (frame_free i s)" "live_frames (frame_free i s) = live_frames s - {i}"
proof -
  have inv: "pmm_inv s" using assms(1) by (simp add: pmm_ok_def)
  have f: "frame_of (of_nat i * 4096) = i" by (rule frame_of_index [OF live_less [OF inv assms(2)]])
  note e = pmm_free_frame_effect [of s "of_nat i * 4096", unfolded f, OF inv assms(2)]
  show "live_frames (frame_free i s) = live_frames s - {i}" using e(2) by (simp add: frame_free_def)
  then show "pmm_ok (frame_free i s)" using e(1,4) assms by (auto simp: pmm_ok_def frame_free_def)
qed

interpretation pmm_frames: allocator pmm_ok "\<lambda>s. live_frames s - {0}" "\<lambda>i. {i}" frame_alloc frame_free
proof
  fix s r res t assume a: "pmm_ok s" "frame_alloc r s = (res, t)"
  then show "pmm_ok t" by (cases rule: frame_alloc_cases) (auto intro: took_ok [OF _ a(1)])
next
  fix s r b t assume a: "pmm_ok s" "frame_alloc r s = (Some b, t)"
  have inv: "pmm_inv s" using a(1) by (simp add: pmm_ok_def)
  have tk: "took s {b} t" "0 < b" using a by (cases rule: frame_alloc_cases; simp)+
  show "b \<notin> live_frames s - {0}" using took_fresh [OF tk(1)] by auto
  show "live_frames t - {0} = insert b (live_frames s - {0})" using took_live [OF tk(1) inv] tk(2) by auto
  fix c assume "c \<in> live_frames s - {0}"
  then show "{b} \<inter> {c} = {}" using took_fresh [OF tk(1)] by auto
next
  fix s r t assume a: "pmm_ok s" "frame_alloc r s = (None, t)"
  have "took s {} t" using a by (cases rule: frame_alloc_cases) auto
  then show "live_frames t - {0} = live_frames s - {0}" using took_live a(1) by (auto simp: pmm_ok_def)
next
  fix s b assume a: "pmm_ok s" "b \<in> live_frames s - {0}"
  then show "pmm_ok (frame_free b s)" by (auto intro: frame_free_effect)
  show "live_frames (frame_free b s) - {0} = live_frames s - {0} - {b}" using a frame_free_effect [of s b] by auto
qed

section \<open>References and reuse over time\<close>

text \<open>
  The allocator with its clients: the state and, per frame, the number of references that are
  really held. A client takes a reference to a frame it holds, drops one it has, and frees a
  frame nobody refers to. The label says whether the step frees a frame.
\<close>

type_synonym pmm_sys = "pmm \<times> (nat \<Rightarrow> nat)"

inductive pmm_step :: "bool \<Rightarrow> pmm_sys \<Rightarrow> pmm_sys \<Rightarrow> bool" where
  alloc_frame: "pmm_alloc_frame s = (p, t) \<Longrightarrow> pmm_step False (s, r) (t, r)"
| alloc_user: "pmm_alloc_user_frame s = (q, t) \<Longrightarrow> pmm_step False (s, r) (t, r)"
| alloc_contig: "pmm_alloc_contig n limit s = (p, t) \<Longrightarrow> pmm_step False (s, r) (t, r)"
| free_frame: "frame_of q \<in> live_frames s \<Longrightarrow> frame_of q \<noteq> 0 \<Longrightarrow> r (frame_of q) = 0 \<Longrightarrow>
    pmm_step True (s, r) (pmm_free_frame q s, r)"
| incref: "frame_of q \<in> live_frames s \<Longrightarrow> frame_of q \<noteq> 0 \<Longrightarrow> frame_of q < refcount_frames s \<Longrightarrow>
    pmm_step False (s, r) (pmm_frame_incref q s, r(frame_of q := r (frame_of q) + 1))"
| decref: "0 < r (frame_of q) \<Longrightarrow>
    pmm_step (frame_refcount s (frame_of q) = 1) (s, r) (pmm_frame_decref q s, r(frame_of q := r (frame_of q) - 1))"
| reserve: "pmm_step False (s, r) (pmm_reserve_region p sz s, r)"
| refcounts: "\<forall>i. r i = 0 \<Longrightarrow> pmm_step False (s, r) (pmm_refcount_init mem s, r)"

inductive_cases pmm_stepE: "pmm_step l (s, r) (t, r')"

definition refs_ok :: "pmm \<Rightarrow> (nat \<Rightarrow> nat) \<Rightarrow> bool" where
  "refs_ok s r \<longleftrightarrow> (\<forall>i. 0 < r i \<longrightarrow> i \<in> live_frames s \<and> i \<noteq> 0 \<and> i < refcount_frames s) \<and>
     (\<forall>i<refcount_frames s. unat (frame_refcount s i) = r i \<or> frame_refcount s i = PMM_REF_SATURATED)"

definition sys_ok :: "pmm_sys \<Rightarrow> bool" where
  "sys_ok c \<longleftrightarrow> pmm_ok (fst c) \<and> refs_ok (fst c) (snd c)"

lemma sys_okI: "pmm_ok s \<Longrightarrow> refs_ok s r \<Longrightarrow> sys_ok (s, r)"
  by (simp add: sys_ok_def)

lemma took_sys:
  assumes "took s A t" "sys_ok (s, r)"
  shows "sys_ok (t, r)"
proof -
  have ok: "pmm_ok s" "refs_ok s r" "pmm_inv s" using assms(2) by (auto simp: sys_ok_def pmm_ok_def)
  have "refs_ok t r"
    unfolding refs_ok_def
  proof (intro conjI allI impI)
    fix i assume "0 < r i"
    then show "i \<in> live_frames t" "i \<noteq> 0" "i < refcount_frames t"
      using ok took_live [OF assms(1)] took_refcount_frames [OF assms(1)] by (auto simp: refs_ok_def)
  next
    fix i assume i: "i < refcount_frames t"
    have "r i = 0" if "i \<in> A" using ok(2) took_fresh [OF assms(1)] that by (auto simp: refs_ok_def)
    then show "unat (frame_refcount t i) = r i \<or> frame_refcount t i = PMM_REF_SATURATED"
      using i ok(2) assms(1) by (auto simp: took_def refs_ok_def same_frame_state_def)
  qed
  then show ?thesis using took_ok [OF assms(1) ok(1)] by (intro sys_okI)
qed

lemma refs_ok_cong:
  assumes "refs_ok s r" "frame_refcount t = frame_refcount s" "refcount_frames t = refcount_frames s"
    "\<And>i. 0 < r i \<Longrightarrow> i \<in> live_frames t"
  shows "refs_ok t r"
  using assms by (auto simp: refs_ok_def)

lemma free_sys:
  assumes "sys_ok (s, r)" "frame_of q \<in> live_frames s" "frame_of q \<noteq> 0" "r (frame_of q) = 0"
  shows "sys_ok (pmm_free_frame q s, r)"
proof -
  have ok: "pmm_ok s" "refs_ok s r" "pmm_inv s" using assms(1) by (auto simp: sys_ok_def pmm_ok_def)
  note e = pmm_free_frame_effect [OF ok(3) assms(2)]
  have "pmm_ok (pmm_free_frame q s)" using ok(1) e(1,2,4) assms(3) by (simp add: pmm_ok_def)
  moreover have "i \<in> live_frames (pmm_free_frame q s)" if "0 < r i" for i
    using ok(2) e(2) that assms(4) by (auto simp: refs_ok_def)
  then have "refs_ok (pmm_free_frame q s) r" by (rule refs_ok_cong [OF ok(2) e(3,5)])
  ultimately show ?thesis by (rule sys_okI)
qed

text \<open>Changing one reference count touches nothing else.\<close>

lemma refcount_upd [simp]:
  "live_frames (s\<lparr>frame_refcount := f\<rparr>) = live_frames s" "pmm_ok (s\<lparr>frame_refcount := f\<rparr>) = pmm_ok s"
  "quar_list (s\<lparr>frame_refcount := f\<rparr>) = quar_list s"
proof -
  let ?t = "s\<lparr>frame_refcount := f\<rparr>"
  have u: "used_set ?t = used_set s" by (simp add: used_set_def)
  show q: "quar_list ?t = quar_list s" by (simp add: quar_list_def)
  show l: "live_frames ?t = live_frames s" by (simp add: live_frames_def u q)
  show "pmm_ok ?t = pmm_ok s" unfolding pmm_ok_def pmm_inv_def quar_ok_def counts_ok_def l u q by simp
qed

lemma unat_inc16: "c < 65535 \<Longrightarrow> unat (c + 1 :: u16) = unat c + 1"
  by (simp add: unat_word_ariths word_less_nat_alt)

lemma saturated_max: "\<not> c < 65535 \<Longrightarrow> c = 65535" for c :: u16
proof -
  assume "\<not> c < 65535"
  moreover have "unat c < 2 ^ LENGTH(16)" by (rule unsigned_less)
  ultimately show ?thesis by (simp add: word_less_nat_alt word_unat_eq_iff)
qed

lemma incref_sys:
  assumes "sys_ok (s, r)" "frame_of q \<in> live_frames s" "frame_of q \<noteq> 0" "frame_of q < refcount_frames s"
  shows "sys_ok (pmm_frame_incref q s, r(frame_of q := r (frame_of q) + 1))"
proof (cases "frame_refcount s (frame_of q) < PMM_REF_SATURATED")
  case True
  then show ?thesis
    using assms unat_inc16 [OF True] by (auto simp: sys_ok_def refs_ok_def pmm_frame_incref_def Let_def)
next
  case False
  then have "frame_refcount s (frame_of q) = PMM_REF_SATURATED"
    by (rule saturated_max)
  then show ?thesis using assms False by (auto simp: sys_ok_def refs_ok_def pmm_frame_incref_def Let_def)
qed

lemma decref_sys:
  assumes "sys_ok (s, r)" "0 < r (frame_of q)"
  shows "sys_ok (pmm_frame_decref q s, r(frame_of q := r (frame_of q) - 1))"
proof -
  let ?i = "frame_of q" and ?c = "frame_refcount s (frame_of q)" and ?r = "r(frame_of q := r (frame_of q) - 1)"
  have ok: "pmm_ok s" "refs_ok s r" using assms(1) by (auto simp: sys_ok_def)
  have i: "?i \<in> live_frames s" "?i \<noteq> 0" "?i < refcount_frames s" using ok(2) assms(2) by (auto simp: refs_ok_def)
  show ?thesis
  proof (cases "?c < PMM_REF_SATURATED")
    case True
    then have c: "unat ?c = r ?i" using ok(2) i(3) by (auto simp: refs_ok_def)
    then have pos: "?c > 0" using assms(2) by (simp add: word_less_nat_alt)
    let ?t = "s\<lparr>frame_refcount := (frame_refcount s)(?i := ?c - 1)\<rparr>"
    have "unat (?c - 1) = r ?i - 1" using c pos by (metis unat_minus_one word_neq_0_conv)
    then have t: "sys_ok (?t, ?r)" using ok i by (auto simp: sys_ok_def refs_ok_def)
    show ?thesis
    proof (cases "?c - 1 = 0")
      case True
      then have "?r ?i = 0" using \<open>unat (?c - 1) = r ?i - 1\<close> by simp
      then have "sys_ok (pmm_free_frame q ?t, ?r)" using i by (intro free_sys [OF t]) auto
      then show ?thesis using True \<open>?c < PMM_REF_SATURATED\<close> pos i by (simp add: pmm_frame_decref_def Let_def)
    next
      case False
      then show ?thesis using t \<open>?c < PMM_REF_SATURATED\<close> pos i by (simp add: pmm_frame_decref_def Let_def)
    qed
  next
    case False
    then have "?c = PMM_REF_SATURATED" by (rule saturated_max)
    then show ?thesis using ok i by (auto simp: pmm_frame_decref_def Let_def sys_ok_def refs_ok_def)
  qed
qed

lemma reserve_sys: "sys_ok (s, r) \<Longrightarrow> sys_ok (pmm_reserve_region p sz s, r)"
proof -
  assume "sys_ok (s, r)"
  then have ok: "pmm_ok s" "refs_ok s r" "pmm_inv s" by (auto simp: sys_ok_def pmm_ok_def)
  let ?t = "pmm_used_region p sz s"
  note e = used_region_effect [where s = s and a = p and l = sz] and l = used_region_live [of s p sz]
  have "pmm_ok ?t" using used_region_inv [OF ok(3)] ok(1) l e(1) by (auto simp: pmm_ok_def same_frame_state_def)
  moreover have "refs_ok ?t r"
    by (rule refs_ok_cong [OF ok(2) e(4)]) (use e(1) ok(2) l in \<open>auto simp: same_frame_state_def refs_ok_def\<close>)
  ultimately show ?thesis by (simp add: pmm_reserve_region_def sys_okI)
qed

lemma refcount_init_sys: "sys_ok (s, r) \<Longrightarrow> \<forall>i. r i = 0 \<Longrightarrow> sys_ok (pmm_refcount_init mem s, r)"
proof -
  assume a: "sys_ok (s, r)" "\<forall>i. r i = 0"
  let ?f = "\<lambda>i. if i < pmm_total s then 0 else frame_refcount s i"
  let ?t = "s\<lparr>frame_refcount := ?f, refcount_frames := pmm_total s\<rparr>"
  have u: "used_set ?t = used_set s" by (simp add: used_set_def)
  have q: "quar_list ?t = quar_list s" by (simp add: quar_list_def)
  have l: "live_frames ?t = live_frames s" by (simp add: live_frames_def u q)
  have "pmm_ok ?t" using a(1) unfolding sys_ok_def pmm_ok_def pmm_inv_def quar_ok_def counts_ok_def l u q by simp
  moreover have "refs_ok ?t r" using a(2) by (simp add: refs_ok_def)
  ultimately show ?thesis using a(1) by (simp add: pmm_refcount_init_def sys_okI)
qed

lemma contig_took: "pmm_inv s \<Longrightarrow> pmm_alloc_contig n limit s = (p, t) \<Longrightarrow> \<exists>A. took s A t"
proof (cases "n = 0")
  case True
  assume "pmm_alloc_contig n limit s = (p, t)"
  then have "t = s" using True by (simp add: pmm_alloc_contig_def)
  then show ?thesis using took_empty by metis
next
  case False
  assume a: "pmm_inv s" "pmm_alloc_contig n limit s = (p, t)"
  from a have "0 < n \<Longrightarrow> ?thesis" by (cases rule: pmm_alloc_contig_cases) (auto intro: took_empty)
  then show ?thesis using False by simp
qed

lemma alloc_took: "pmm_inv s \<Longrightarrow> pmm_alloc_frame s = (p, t) \<Longrightarrow> \<exists>A. took s A t"
  by (cases rule: pmm_alloc_frame_cases) auto

lemma alloc_user_took: "pmm_inv s \<Longrightarrow> pmm_alloc_user_frame s = (q, t) \<Longrightarrow> \<exists>A. took s A t"
  by (cases rule: pmm_alloc_user_frame_cases) auto

lemma pmm_step_ok: "pmm_step l c d \<Longrightarrow> sys_ok c \<Longrightarrow> sys_ok d"
proof (induction rule: pmm_step.induct)
  case (alloc_frame s p t r)
  then show ?case using alloc_took took_sys by (metis sys_ok_def pmm_ok_def fst_conv)
next
  case (alloc_user s q t r)
  then show ?case using alloc_user_took took_sys by (metis sys_ok_def pmm_ok_def fst_conv)
next
  case (alloc_contig n limit s p t r)
  then show ?case using contig_took took_sys by (metis sys_ok_def pmm_ok_def fst_conv)
qed (blast intro: free_sys incref_sys decref_sys reserve_sys refcount_init_sys)+

section \<open>Start-up\<close>

definition free_frames :: "u64 \<Rightarrow> u64 \<Rightarrow> nat \<Rightarrow> nat set" where
  "free_frames addr len tot = {fst (free_bounds addr len)..<min (snd (free_bounds addr len)) tot}"

lemma free_region_frame_effect:
  assumes "i < pmm_total s"
  shows "same_frame_state s (free_region_frame i s) \<and> used_set (free_region_frame i s) = used_set s - {i} \<and>
    (counts_ok s \<longrightarrow> counts_ok (free_region_frame i s)) \<and> frame_refcount (free_region_frame i s) = frame_refcount s"
proof -
  let ?u = "if BIT_TEST (pmm_bitmap s) i then s\<lparr>pmm_ram := pmm_ram s + 1,
            pmm_high_ram := (if i \<ge> PMM_LOW_FRAMES then pmm_high_ram s + 1 else pmm_high_ram s)\<rparr> else s"
  have e: "free_region_frame i s = pmm_mark_free i ?u" by (simp add: free_region_frame_def)
  have u: "used_set ?u = used_set s" "same_frame_state s ?u" "frame_refcount ?u = frame_refcount s"
    by (auto simp: used_set_def same_frame_state_def)
  have "counts_ok ?u = counts_ok s" by (rule counts_ok_cong [OF u(1)]) auto
  then show ?thesis unfolding e using u assms used_set_mark_free [of i ?u] counts_ok_mark_free [of ?u i]
      same_frame_state_trans [OF u(2) mark_free_state] by (auto simp: same_frame_state_def)
qed

lemma fold_free_region:
  assumes "\<forall>i\<in>set is. i < pmm_total s"
  shows "same_frame_state s (fold free_region_frame is s) \<and> used_set (fold free_region_frame is s) = used_set s - set is \<and>
    (counts_ok s \<longrightarrow> counts_ok (fold free_region_frame is s)) \<and> frame_refcount (fold free_region_frame is s) = frame_refcount s"
  using assms
proof (induction "is" arbitrary: s)
  case Nil
  then show ?case by simp
next
  case (Cons i js)
  have i: "i < pmm_total s" using Cons.prems by simp
  note f = free_region_frame_effect [OF i]
  have "\<forall>j\<in>set js. j < pmm_total (free_region_frame i s)" using Cons.prems f by (simp add: same_frame_state_def)
  note IH = Cons.IH [OF this]
  show ?case using IH f same_frame_state_trans [of s "free_region_frame i s"] by auto
qed

lemma free_region_effect:
  "same_frame_state s (pmm_free_region a l s) \<and>
   used_set (pmm_free_region a l s) = used_set s - free_frames a l (pmm_total s) \<and>
   (counts_ok s \<longrightarrow> counts_ok (pmm_free_region a l s)) \<and> frame_refcount (pmm_free_region a l s) = frame_refcount s"
proof -
  let ?is = "[fst (free_bounds a l)..<min (snd (free_bounds a l)) (pmm_total s)]"
  have e: "pmm_free_region a l s = fold free_region_frame ?is s" by (simp add: pmm_free_region_def split: prod.splits)
  have "\<forall>i\<in>set ?is. i < pmm_total s" by simp
  from fold_free_region [OF this] show ?thesis unfolding e by (simp add: free_frames_def)
qed

text \<open>The frames the memory map makes free.\<close>

definition entry_frames :: "mmap_entry list \<Rightarrow> nat \<Rightarrow> nat set" where
  "entry_frames es tot = (\<Union>m\<in>{m\<in>set es. me_type m = 1}. free_frames (me_addr m) (me_len m) tot)"

lemma fold_free_entry:
  "same_frame_state s (fold free_entry es s) \<and> used_set (fold free_entry es s) = used_set s - entry_frames es (pmm_total s) \<and>
   (counts_ok s \<longrightarrow> counts_ok (fold free_entry es s)) \<and> frame_refcount (fold free_entry es s) = frame_refcount s"
proof (induction es arbitrary: s)
  case Nil
  then show ?case by (simp add: entry_frames_def)
next
  case (Cons m es)
  have f: "same_frame_state s (free_entry m s) \<and> used_set (free_entry m s) = used_set s - (if me_type m = 1 then free_frames (me_addr m) (me_len m) (pmm_total s) else {}) \<and>
    (counts_ok s \<longrightarrow> counts_ok (free_entry m s)) \<and> frame_refcount (free_entry m s) = frame_refcount s"
    using free_region_effect [of s "me_addr m" "me_len m"] by (auto simp: free_entry_def)
  have ef: "entry_frames (m # es) (pmm_total s) = (if me_type m = 1 then free_frames (me_addr m) (me_len m) (pmm_total s) else {}) \<union> entry_frames es (pmm_total s)"
    by (auto simp: entry_frames_def)
  have t: "pmm_total (free_entry m s) = pmm_total s" using f by (simp add: same_frame_state_def)
  show ?case using f Cons.IH [of "free_entry m s"] same_frame_state_trans [of s "free_entry m s"] unfolding ef t by auto
qed

definition mem_frames :: "multiboot_info \<Rightarrow> mmap_entry list \<Rightarrow> nat \<Rightarrow> nat set" where
  "mem_frames mbi es tot =
     (if mb_flags mbi AND 64 \<noteq> 0 then entry_frames es tot
      else if mb_flags mbi AND 1 \<noteq> 0 then
        free_frames 0x1000 (ucast (mem_lower mbi) * 1024 - 0x1000) tot \<union> free_frames 0x100000 (ucast (mem_upper mbi) * 1024) tot
      else {})"

lemma init_free_effect:
  "same_frame_state s (init_free mbi es s) \<and> used_set (init_free mbi es s) = used_set s - mem_frames mbi es (pmm_total s) \<and>
   (counts_ok s \<longrightarrow> counts_ok (init_free mbi es s)) \<and> frame_refcount (init_free mbi es s) = frame_refcount s"
proof -
  let ?a = "pmm_free_region 0x1000 (ucast (mem_lower mbi) * 1024 - 0x1000) s"
  note a = free_region_effect [of s "0x1000" "ucast (mem_lower mbi) * 1024 - 0x1000"]
    and b = free_region_effect [of ?a "0x100000" "ucast (mem_upper mbi) * 1024"]
  have "pmm_total ?a = pmm_total s" using a by (simp add: same_frame_state_def)
  then show ?thesis
    using a b fold_free_entry [of s es] same_frame_state_trans [of s ?a]
    by (auto simp: init_free_def mem_frames_def)
qed

definition boot_reserved :: "boot_env \<Rightarrow> multiboot_info \<Rightarrow> nat \<Rightarrow> nat set" where
  "boot_reserved env mbi tot =
     region_frames 0 0x100000 tot \<union>
     region_frames (kernel_phys_start env) (kernel_phys_end env - kernel_phys_start env) tot \<union>
     region_frames (bitmap_storage env - KERNEL_VMA) (bitmap_bytes tot) tot \<union>
     region_frames (mbi_addr env - KERNEL_VMA) MULTIBOOT_INFO_SIZE tot \<union>
     (if mb_flags mbi AND 64 \<noteq> 0 then region_frames (mmap_addr mbi) (mmap_length mbi) tot else {})"

lemma used_region_total [simp]: "pmm_total (pmm_used_region a l s) = pmm_total s"
  using used_region_effect(1) [where s = s and a = a and l = l] by (simp add: same_frame_state_def)

lemma init_reserve_effect:
  "same_frame_state s (init_reserve env mbi s) \<and> used_set (init_reserve env mbi s) = used_set s \<union> boot_reserved env mbi (pmm_total s) \<and>
   (counts_ok s \<longrightarrow> counts_ok (init_reserve env mbi s)) \<and> frame_refcount (init_reserve env mbi s) = frame_refcount s"
proof -
  have st: "same_frame_state s u \<Longrightarrow> same_frame_state s (pmm_used_region a l u)" for a l u
    using same_frame_state_trans used_region_effect(1) by blast
  show ?thesis
    by (simp add: init_reserve_def Let_def boot_reserved_def st used_region_effect(2-4) Un_assoc)
qed

lemma init_total_le: "init_total env mbi es \<le> PMM_MAX_FRAMES"
  by (simp add: init_total_def Let_def)

lemma init_all_used_effect:
  assumes "tot \<le> PMM_MAX_FRAMES"
  defines "s \<equiv> init_all_used tot pmm_bss"
  shows "used_set s = {..<tot}" "counts_ok s" "pmm_total s = tot" "pmm_low_total s = min tot PMM_LOW_FRAMES"
    "refcount_frames s = 0" "pmm_quar_n s = 0" "pmm_quar_pos s = 0"
proof -
  have bt: "BIT_TEST (pmm_bitmap s) i" if "i < tot" for i
  proof (rule full_word)
    have "i div 32 < (tot + 31) div 32" using that by simp
    then show "pmm_bitmap s (i div 32) = 0xFFFFFFFF" by (simp add: s_def init_all_used_def Let_def)
  qed
  show t: "pmm_total s = tot" "pmm_low_total s = min tot PMM_LOW_FRAMES"
    "refcount_frames s = 0" "pmm_quar_n s = 0" "pmm_quar_pos s = 0"
    by (simp_all add: s_def init_all_used_def Let_def pmm_bss_def)
  show u: "used_set s = {..<tot}" using bt t by (auto simp: used_set_def)
  have "{i \<in> {..<tot}. PMM_LOW_FRAMES \<le> i} = {PMM_LOW_FRAMES..<tot}" by auto
  then have "card {i \<in> {..<tot}. PMM_LOW_FRAMES \<le> i} = tot - min tot PMM_LOW_FRAMES" by simp
  moreover have "pmm_used s = of_nat tot" "pmm_high_used s = of_nat (tot - min tot PMM_LOW_FRAMES)"
    by (simp_all add: s_def init_all_used_def Let_def min_def)
  ultimately show "counts_ok s" unfolding counts_ok_def u by (simp only: card_lessThan simp_thms)
qed

lemma pmm_init_effect:
  assumes "pmm_init env mbi = Some s" "boot_mmap env mbi = Some es"
  shows "pmm_total s = init_total env mbi es" "pmm_low_total s = min (pmm_total s) PMM_LOW_FRAMES"
    "used_set s = ({..<pmm_total s} - mem_frames mbi es (pmm_total s)) \<union> boot_reserved env mbi (pmm_total s)"
    "counts_ok s" "quar_list s = []" "refcount_frames s = 0" "pmm_quar_n s = 0" "pmm_quar_pos s = 0"
proof -
  let ?a = "init_all_used (init_total env mbi es) pmm_bss"
  let ?b = "init_free mbi es ?a"
  have s: "s = init_reserve env mbi ?b" using assms by (simp add: pmm_init_def)
  note a = init_all_used_effect [OF init_total_le] and b = init_free_effect [of ?a mbi es] and c = init_reserve_effect [of ?b env mbi]
  have st: "same_frame_state ?a s" using same_frame_state_trans [of ?a ?b s] b c unfolding s by blast
  have bt: "pmm_total ?b = pmm_total ?a" using b by (simp add: same_frame_state_def)
  show t: "pmm_total s = init_total env mbi es" using st a(3) by (simp add: same_frame_state_def)
  show "pmm_low_total s = min (pmm_total s) PMM_LOW_FRAMES" using st a(3,4) by (simp add: same_frame_state_def)
  show "refcount_frames s = 0" "pmm_quar_n s = 0" "pmm_quar_pos s = 0" using st a(5-7) by (simp_all add: same_frame_state_def)
  then show "quar_list s = []" by (simp add: quar_list_def)
  show "counts_ok s" using a(2) b c unfolding s by blast
  show "used_set s = ({..<pmm_total s} - mem_frames mbi es (pmm_total s)) \<union> boot_reserved env mbi (pmm_total s)"
    using a(1) b c unfolding t unfolding s bt a(3) by simp
qed

lemma pmm_init_ok:
  assumes "pmm_init env mbi = Some s"
  shows "pmm_ok s" "quar_list s = []" "refcount_frames s = 0"
proof -
  obtain es where es: "boot_mmap env mbi = Some es" using assms by (auto simp: pmm_init_def split: option.splits)
  note e = pmm_init_effect [OF assms es]
  show "quar_list s = []" "refcount_frames s = 0" using e by simp_all
  have "pmm_total s \<le> PMM_MAX_FRAMES" using e(1) init_total_le by simp
  then have inv: "pmm_inv s" using e by (simp add: pmm_inv_def quar_ok_def)
  have "0 \<in> boot_reserved env mbi (pmm_total s)" if "0 < pmm_total s"
    using that by (simp add: boot_reserved_def region_frames_def used_bounds_def)
  then show "pmm_ok s" using inv e(3,5) by (auto simp: pmm_ok_def live_frames_def)
qed

subsection \<open>Regions in bytes\<close>

text \<open>Frame \<open>i\<close> lies wholly inside the region, or has a byte in common with it.\<close>

definition frame_inside :: "nat \<Rightarrow> nat \<Rightarrow> nat \<Rightarrow> bool" where
  "frame_inside addr len i \<longleftrightarrow> addr \<le> 4096 * i \<and> 4096 * (i + 1) \<le> addr + len"

definition frame_touches :: "nat \<Rightarrow> nat \<Rightarrow> nat \<Rightarrow> bool" where
  "frame_touches addr len i \<longleftrightarrow> addr < 4096 * (i + 1) \<and> 4096 * i < addr + len"

lemma free_bounds_nat:
  assumes "unat addr + unat len + 4095 < 2 ^ 44"
  shows "free_bounds addr len = ((unat addr + 4095) div 4096, (unat addr + unat len) div 4096)"
proof -
  have m: "(2 :: nat) ^ 44 < 2 ^ 64" "(2 :: nat) ^ 44 = 4096 * 2 ^ 32" by simp_all
  have a: "unat (4095 + addr) = unat addr + 4095" using assms m(1) by (simp add: unat_word_ariths)
  have b: "unat (addr + len) = unat addr + unat len" using assms m(1) by (simp add: unat_word_ariths)
  have "(unat addr + 4095) div 4096 < 2 ^ 32" "(unat addr + unat len) div 4096 < 2 ^ 32"
    using assms unfolding m(2) by (auto simp: div_less_iff_less_mult)
  then show ?thesis
    unfolding free_bounds_def by (simp add: unsigned_ucast_eq unat_div a b take_bit_nat_eq_self)
qed

lemma free_frames_inside:
  assumes "unat addr + unat len + 4095 < 2 ^ 44"
  shows "i \<in> free_frames addr len tot \<longleftrightarrow> i < tot \<and> frame_inside (unat addr) (unat len) i"
  unfolding free_frames_def free_bounds_nat [OF assms] frame_inside_def by auto

lemma used_bounds_nat:
  assumes "unat addr + unat len + 4095 < 2 ^ 32"
  shows "used_bounds addr len = (unat addr div 4096, (unat addr + unat len + 4095) div 4096)"
proof -
  have "addr + len + 4096 - 1 = addr + len + 4095" by simp
  then have "unat (addr + len + 4096 - 1) = unat addr + unat len + 4095" using assms by (simp add: unat_word_ariths)
  then show ?thesis unfolding used_bounds_def by (simp add: unat_div)
qed

lemma region_frames_touches:
  assumes "unat addr + unat len + 4095 < 2 ^ 32"
  shows "i \<in> region_frames addr len tot \<longleftrightarrow> i < tot \<and> frame_touches (unat addr) (unat len) i"
  unfolding region_frames_def used_bounds_nat [OF assms] frame_touches_def by auto

text \<open>The map walk ends when no entry's size wraps the cursor around.\<close>

lemma mmap_walk_ends:
  assumes "\<And>v. v < e \<Longrightarrow> unat v + unat (me_size (rd v)) + 4 < 2 ^ 32"
  shows "\<exists>es. mmap_walk rd v e = Some es"
proof (induction "unat e - unat v" arbitrary: v rule: less_induct)
  case less
  show ?case
  proof (cases "v < e")
    case True
    let ?w = "v + (me_size (rd v) + 4)"
    have "unat ?w = unat v + unat (me_size (rd v)) + 4" using assms [OF True] by (simp add: unat_word_ariths)
    then have "unat e - unat ?w < unat e - unat v" using True by (simp add: word_less_nat_alt)
    from less [OF this] obtain es where "mmap_walk rd ?w e = Some es" by blast
    then show ?thesis using True by (subst mmap_walk.simps) simp
  next
    case False
    then show ?thesis by (subst mmap_walk.simps) simp
  qed
qed

section \<open>Runs and the quarantine\<close>

inductive pmm_run :: "bool list \<Rightarrow> pmm_sys \<Rightarrow> pmm_sys \<Rightarrow> bool" where
  run_nil: "pmm_run [] c c"
| run_snoc: "pmm_run ls c d \<Longrightarrow> pmm_step l d e \<Longrightarrow> pmm_run (ls @ [l]) c e"

inductive_cases pmm_run_snocE: "pmm_run (ls @ [l]) c e"
inductive_cases pmm_run_nilE: "pmm_run [] c e"

definition pmm_start :: "pmm_sys \<Rightarrow> bool" where
  "pmm_start c \<longleftrightarrow> (\<exists>env mbi. pmm_init env mbi = Some (fst c)) \<and> snd c = (\<lambda>_. 0)"

definition pmm_any_step :: "pmm_sys \<Rightarrow> pmm_sys \<Rightarrow> bool" where
  "pmm_any_step c d \<longleftrightarrow> (\<exists>l. pmm_step l c d)"

interpretation pmm_system: transition_invariant pmm_start pmm_any_step sys_ok
proof
  fix c assume "pmm_start c"
  then show "sys_ok c" using pmm_init_ok by (cases c) (auto simp: pmm_start_def sys_ok_def refs_ok_def)
next
  fix c d assume "sys_ok c" "pmm_any_step c d"
  then show "sys_ok d" unfolding pmm_any_step_def by (blast intro: pmm_step_ok)
qed

lemma pmm_run_ok: "pmm_run ls c d \<Longrightarrow> sys_ok c \<Longrightarrow> sys_ok d"
  by (induction rule: pmm_run.induct) (auto intro: pmm_step_ok)

text \<open>A step leaves the quarantine as it is, or appends one frame and drops the oldest of a full ring.\<close>

lemma pmm_step_quar:
  assumes "pmm_step l c d" "sys_ok c"
  shows "(\<not> l \<longrightarrow> quar_list (fst d) = quar_list (fst c)) \<and>
    (l \<longrightarrow> (\<exists>i. quar_list (fst d) = (if length (quar_list (fst c)) < PMM_QUARANTINE then quar_list (fst c) else tl (quar_list (fst c))) @ [i]))"
proof -
  have len: "length (quar_list s) = pmm_quar_n s" if "pmm_inv s" for s
    using that by (auto simp: pmm_inv_def quar_ok_def quar_list_def)
  from assms show ?thesis
  proof (induction rule: pmm_step.induct)
    case (alloc_frame s p t r)
    then obtain A where "took s A t" using alloc_took by (metis sys_ok_def pmm_ok_def fst_conv)
    then show ?case by (simp add: took_quar)
  next
    case (alloc_user s q t r)
    then obtain A where "took s A t" using alloc_user_took by (metis sys_ok_def pmm_ok_def fst_conv)
    then show ?case by (simp add: took_quar)
  next
    case (alloc_contig n limit s p t r)
    then obtain A where "took s A t" using contig_took by (metis sys_ok_def pmm_ok_def fst_conv)
    then show ?case by (simp add: took_quar)
  next
    case (free_frame q s r)
    then have inv: "pmm_inv s" by (simp add: sys_ok_def pmm_ok_def)
    show ?case using pmm_free_frame_effect(7) [OF inv free_frame(1)] len [OF inv] by auto
  next
    case (incref q s r)
    then show ?case by (simp add: pmm_frame_incref_def Let_def)
  next
    case (decref r q s)
    let ?i = "frame_of q" and ?c = "frame_refcount s (frame_of q)"
    have ok: "pmm_ok s" "refs_ok s r" using decref by (auto simp: sys_ok_def)
    have i: "?i \<in> live_frames s" "?i < refcount_frames s" using ok(2) decref(1) by (auto simp: refs_ok_def)
    show ?case
    proof (cases "?c = 1")
      case True
      let ?t = "s\<lparr>frame_refcount := (frame_refcount s)(?i := ?c - 1)\<rparr>"
      have t: "pmm_inv ?t" using ok(1) refcount_upd(2) [where s = s] by (simp add: pmm_ok_def del: refcount_upd(2))
      have "pmm_frame_decref q s = pmm_free_frame q ?t" using True i by (simp add: pmm_frame_decref_def Let_def)
      moreover have "length (quar_list s) = pmm_quar_n s" using ok(1) by (intro len) (simp add: pmm_ok_def)
      moreover have "?i \<in> live_frames ?t" using i by simp
      ultimately show ?thesis using True pmm_free_frame_effect(7) [of ?t q, OF t] by auto
    next
      case False
      then have "?c - 1 \<noteq> 0" by simp
      then show ?thesis using False by (auto simp: pmm_frame_decref_def Let_def)
    qed
  next
    case (reserve s r p sz)
    then show ?case using quar_list_cong [OF used_region_effect(1)] by (simp add: pmm_reserve_region_def)
  next
    case (refcounts r s mem)
    then show ?case by (simp add: pmm_refcount_init_def quar_list_def)
  qed
qed

text \<open>Among the last \<open>k + 1\<close> entries of the quarantine for \<open>k\<close> frees, as long as the ring holds that many.\<close>

lemma recent_quar:
  assumes "pmm_run ls c d" "sys_ok c" "i = last (quar_list (fst c))" "quar_list (fst c) \<noteq> []"
    "count_list ls True < PMM_QUARANTINE"
  shows "i \<in> set (take (count_list ls True + 1) (rev (quar_list (fst d))))"
  using assms
proof (induction rule: pmm_run.induct)
  case (run_nil c)
  then show ?case by (cases "quar_list (fst c)" rule: rev_cases) auto
next
  case (run_snoc ls c d l e)
  let ?k = "count_list ls True"
  have ok: "sys_ok d" using pmm_run_ok run_snoc by blast
  have k: "?k < PMM_QUARANTINE" using run_snoc.prems(4) by (cases l) auto
  note IH = run_snoc.IH [OF run_snoc.prems(1-3) k] and q = pmm_step_quar [OF run_snoc.hyps(2) ok]
  show ?case
  proof (cases l)
    case False
    then show ?thesis using IH q by simp
  next
    case True
    let ?Q = "quar_list (fst d)"
    obtain j where e: "quar_list (fst e) = (if length ?Q < PMM_QUARANTINE then ?Q else tl ?Q) @ [j]" using q True by blast
    have k1: "?k + 1 < PMM_QUARANTINE" using run_snoc.prems(4) True by simp
    have "take (?k + 1) (rev (if length ?Q < PMM_QUARANTINE then ?Q else tl ?Q)) = take (?k + 1) (rev ?Q)"
    proof (cases "length ?Q < PMM_QUARANTINE")
      case False
      then obtain x xs where "?Q = x # xs" by (cases ?Q) auto
      then show ?thesis using False k1 by simp
    qed simp
    then show ?thesis using IH e True by auto
  qed
qed

lemma pmm_inv_free_count:
  assumes "pmm_inv s"
  shows "unat (pmm_free_frames s) = card ({..<pmm_total s} - used_set s)"
    "unat (pmm_high_free_frames s) = card ({pmm_low_total s..<pmm_total s} - used_set s)"
proof -
  let ?hu = "{i \<in> used_set s. PMM_LOW_FRAMES \<le> i}"
  have c: "pmm_used s = of_nat (card (used_set s))" "pmm_high_used s = of_nat (card ?hu)"
    and lo: "pmm_low_total s = min (pmm_total s) PMM_LOW_FRAMES" and m: "pmm_total s \<le> PMM_MAX_FRAMES"
    using assms by (auto simp: pmm_inv_def counts_ok_def)
  have sub: "used_set s \<subseteq> {..<pmm_total s}" by (auto simp: used_set_def)
  then have le: "card (used_set s) \<le> pmm_total s" using card_mono [of "{..<pmm_total s}"] by fastforce
  have "card ({..<pmm_total s} - used_set s) = pmm_total s - card (used_set s)" using sub by (simp add: card_Diff_subset)
  moreover have "pmm_free_frames s = of_nat (pmm_total s - card (used_set s))" using le c(1) by (simp add: pmm_free_frames_def)
  ultimately show "unat (pmm_free_frames s) = card ({..<pmm_total s} - used_set s)"
    using m by (simp add: unat_of_nat take_bit_nat_eq_self)
  let ?R = "{pmm_low_total s..<pmm_total s}"
  have hsub: "?hu \<subseteq> ?R" using sub lo by auto
  have hle: "card ?hu \<le> pmm_total s - pmm_low_total s" using card_mono [OF _ hsub] by simp
  have "?R - used_set s = ?R - ?hu" using lo by auto
  then have "card (?R - used_set s) = pmm_total s - pmm_low_total s - card ?hu" using hsub by (simp add: card_Diff_subset)
  moreover have "pmm_high_free_frames s = of_nat (pmm_total s - pmm_low_total s - card ?hu)"
    using hle c(2) low_total_le [OF assms] by (simp add: pmm_high_free_frames_def)
  ultimately show "unat (pmm_high_free_frames s) = card (?R - used_set s)"
    using m by (simp add: unat_of_nat take_bit_nat_eq_self)
qed

section \<open>Properties\<close>

lemma reachable_ok: "pmm_start c \<Longrightarrow> pmm_any_step\<^sup>*\<^sup>* c (s, r) \<Longrightarrow> pmm_ok s \<and> pmm_inv s \<and> refs_ok s r"
  using pmm_system.inv_reachable [of c "(s, r)"] by (auto simp: sys_ok_def pmm_ok_def)

lemma frame_alloc_not_live: "pmm_ok s \<Longrightarrow> i \<in> used_set s \<Longrightarrow> fst (frame_alloc q s) \<noteq> Some i"
proof
  assume a: "pmm_ok s" "i \<in> used_set s" "fst (frame_alloc q s) = Some i"
  obtain t where t: "frame_alloc q s = (Some i, t)" using a(3) by (cases "frame_alloc q s") auto
  from a(1) t show False by (cases rule: frame_alloc_cases) (use a(2) in \<open>auto simp: took_def\<close>)
qed

text \<open>C7: In every state the physical memory manager can reach from start-up, a frame somebody
  holds a reference to is in use, is not waiting in the quarantine and is not handed out again,
  whatever the number of references (a count that reached 65535 sticks there); a count below
  that is the exact number of references.\<close>

theorem referenced_frame_stays:
  assumes "pmm_start c" "pmm_any_step\<^sup>*\<^sup>* c (s, r)"
  shows "(0 < r i \<longrightarrow> BIT_TEST (pmm_bitmap s) i \<and> i \<notin> set (quar_list s) \<and> fst (frame_alloc q s) \<noteq> Some i) \<and>
    (i < refcount_frames s \<longrightarrow> frame_refcount s i < PMM_REF_SATURATED \<longrightarrow> unat (frame_refcount s i) = r i)"
proof -
  note ok = reachable_ok [OF assms]
  have "i \<in> used_set s \<and> i \<notin> set (quar_list s)" if "0 < r i" using ok that by (auto simp: refs_ok_def live_frames_def)
  then have "0 < r i \<longrightarrow> BIT_TEST (pmm_bitmap s) i \<and> i \<notin> set (quar_list s) \<and> fst (frame_alloc q s) \<noteq> Some i"
    using frame_alloc_not_live ok by (auto simp: used_set_def)
  then show ?thesis using ok by (auto simp: refs_ok_def)
qed

text \<open>C9: A frame given back to the physical memory manager rests: during the next 511 frees it is
  still marked used and neither allocation call returns it, whatever else happens.\<close>

theorem freed_frame_rests:
  assumes "pmm_start c" "pmm_any_step\<^sup>*\<^sup>* c (s, r)" "frame_of p \<in> live_frames s" "frame_of p \<noteq> 0" "r (frame_of p) = 0"
    and "pmm_run ls (pmm_free_frame p s, r) (t, r')" "count_list ls True < PMM_QUARANTINE"
  shows "BIT_TEST (pmm_bitmap t) (frame_of p) \<and> fst (frame_alloc q t) \<noteq> Some (frame_of p)"
proof -
  have ok: "sys_ok (s, r)" using pmm_system.inv_reachable assms(1,2) by blast
  then have inv: "pmm_inv s" by (simp add: sys_ok_def pmm_ok_def)
  have fok: "sys_ok (pmm_free_frame p s, r)" by (rule free_sys [OF ok assms(3-5)])
  have ql: "quar_list (pmm_free_frame p s) \<noteq> []" "frame_of p = last (quar_list (pmm_free_frame p s))"
    using pmm_free_frame_effect(7) [OF inv assms(3)] by simp_all
  have "frame_of p \<in> set (take (count_list ls True + 1) (rev (quar_list t)))"
    by (rule recent_quar [OF assms(6) fok, unfolded fst_conv, OF ql(2) ql(1) assms(7)])
  then have q: "frame_of p \<in> set (quar_list t)" by (metis in_set_takeD set_rev)
  have tok: "pmm_ok t" using pmm_run_ok [OF assms(6) fok] by (simp add: sys_ok_def)
  then have "frame_of p \<in> used_set t" using q by (auto simp: pmm_ok_def pmm_inv_def quar_ok_def)
  then show ?thesis using frame_alloc_not_live [OF tok] by (simp add: used_set_def)
qed

text \<open>C8: The kernel's frame allocation returns the next free frame below 4 GiB, counting up from
  where the last search ended and around, marks exactly that frame used and clears a stale
  reference count; it returns 0 exactly when no frame below 4 GiB is free, and changes nothing then.\<close>

theorem pmm_alloc_next_free:
  assumes "pmm_start c" "pmm_any_step\<^sup>*\<^sup>* c (s, r)" "pmm_alloc_frame s = (p, t)"
  shows "if {..<pmm_low_total s} \<subseteq> used_set s then p = 0 \<and> used_set t = used_set s
    else \<exists>i. p = of_nat (i * 4096) \<and> unat p = i * 4096 \<and> 0 < i \<and> i < pmm_low_total s \<and> i \<notin> used_set s \<and>
      used_set t = insert i (used_set s) \<and> quar_list t = quar_list s \<and> (i < refcount_frames t \<longrightarrow> frame_refcount t i = 0) \<and>
      (\<forall>j. j < pmm_low_total s \<longrightarrow> j \<notin> used_set s \<longrightarrow>
         ring_dist 0 (pmm_low_total s) (scan_start 0 (pmm_low_total s) (pmm_last_alloc s)) i
           \<le> ring_dist 0 (pmm_low_total s) (scan_start 0 (pmm_low_total s) (pmm_last_alloc s)) j)"
proof -
  have ok: "pmm_ok s" "pmm_inv s" using reachable_ok [OF assms(1,2)] by auto
  from ok(2) assms(3) show ?thesis
  proof (cases rule: pmm_alloc_frame_cases)
    case oom
    then show ?thesis by (simp add: took_def)
  next
    case (ok i)
    have i: "i < PMM_LOW_FRAMES" "i < pmm_total s" using ok(2) \<open>pmm_inv s\<close> by (auto simp: pmm_inv_def)
    have "0 < i" using \<open>pmm_ok s\<close> i(2) ok(3) by (cases i) (auto simp: pmm_ok_def live_frames_def)
    moreover have "\<not> {..<pmm_low_total s} \<subseteq> used_set s" using ok(2,3) by auto
    ultimately show ?thesis
      using ok frame_addr [OF i(1)] took_quar [OF ok(4)] took_refcount_frames [OF ok(4)]
      by (simp only: if_False) (intro exI [of _ i], auto simp: took_def)
  qed
qed

text \<open>C19: A contiguous allocation is first fit: it returns the lowest run of \<open>n\<close> free frames that
  lies below the limit and below 4 GiB and does not start at frame 0, marks exactly that run used, and
  returns 0 exactly when there is no such run.\<close>

theorem pmm_contig_first_fit:
  assumes "pmm_start c" "pmm_any_step\<^sup>*\<^sup>* c (s, r)" "0 < n" "pmm_alloc_contig n limit s = (p, t)"
  shows "if \<exists>i\<ge>1. free_run (pmm_bitmap s) n (min limit (pmm_low_total s)) i
    then \<exists>i\<ge>1. unat p = i * 4096 \<and> free_run (pmm_bitmap s) n (min limit (pmm_low_total s)) i \<and>
      (\<forall>j. 1 \<le> j \<longrightarrow> j < i \<longrightarrow> \<not> free_run (pmm_bitmap s) n (min limit (pmm_low_total s)) j) \<and>
      used_set t = used_set s \<union> {i..<i + n} \<and> used_set s \<inter> {i..<i + n} = {}
    else p = 0 \<and> t = s"
proof -
  have inv: "pmm_inv s" using reachable_ok [OF assms(1,2)] by auto
  from inv assms(4,3) show ?thesis
  proof (cases rule: pmm_alloc_contig_cases)
    case oom
    then show ?thesis by auto
  next
    case (ok i)
    have "i < PMM_LOW_FRAMES" using ok(3) assms(3) inv by (auto simp: free_run_def pmm_inv_def)
    then have "unat p = i * 4096" unfolding ok(1) by (rule frame_addr)
    then show ?thesis using ok by (auto simp: took_def)
  qed
qed

text \<open>C28: In every reachable state the counters are exact: what \<open>pmm_free_frames\<close> and
  \<open>pmm_high_free_frames\<close> report is the number of clear bits of the bitmap, in all and above 4 GiB.\<close>

theorem pmm_counters_exact:
  assumes "pmm_start c" "pmm_any_step\<^sup>*\<^sup>* c (s, r)"
  shows "unat (pmm_free_frames s) = card {i. i < pmm_total s \<and> \<not> BIT_TEST (pmm_bitmap s) i} \<and>
    unat (pmm_high_free_frames s) = card {i. pmm_low_total s \<le> i \<and> i < pmm_total s \<and> \<not> BIT_TEST (pmm_bitmap s) i}"
proof -
  have inv: "pmm_inv s" using reachable_ok [OF assms] by simp
  have "{..<pmm_total s} - used_set s = {i. i < pmm_total s \<and> \<not> BIT_TEST (pmm_bitmap s) i}"
    "{pmm_low_total s..<pmm_total s} - used_set s = {i. pmm_low_total s \<le> i \<and> i < pmm_total s \<and> \<not> BIT_TEST (pmm_bitmap s) i}"
    by (auto simp: used_set_def)
  then show ?thesis using pmm_inv_free_count [OF inv] by simp
qed

text \<open>C29: Frames are handed out exclusively: over any sequence of kernel and user frame requests and
  frees by one client, it ends up with frames that were nobody's, and all frames held by others
  stay as they were.\<close>

theorem pmm_clients_exclusive:
  assumes "pmm_start c" "pmm_any_step\<^sup>*\<^sup>* c (s, r)" "pmm_frames.alloc_run cs {} s = (h, t)"
  shows "h \<subseteq> live_frames t - {0} \<and> live_frames t - {0} - h = live_frames s - {0}"
  using pmm_frames.run_others [OF _ _ assms(3)] reachable_ok [OF assms(1,2)] by auto

text \<open>C18: Start-up builds the bitmap the memory map asks for: a frame is free exactly when it lies
  wholly inside a region the boot loader calls available, below the supported total, and shares no byte with
  the first MiB, the kernel image, the bitmap, the multiboot structure or the memory map.\<close>

theorem pmm_init_exact:
  assumes "pmm_init env mbi = Some s" "boot_mmap env mbi = Some es" "mb_flags mbi AND 64 \<noteq> 0"
    and "\<forall>m\<in>set es. unat (me_addr m) + unat (me_len m) + 4095 < 2 ^ 44"
    and "unat (kernel_phys_start env) + unat (kernel_phys_end env - kernel_phys_start env) + 4095 < 2 ^ 32"
    and "unat (bitmap_storage env - KERNEL_VMA) + unat (bitmap_bytes (pmm_total s)) + 4095 < 2 ^ 32"
    and "unat (mbi_addr env - KERNEL_VMA) + 110 + 4095 < 2 ^ 32"
    and "unat (mmap_addr mbi) + unat (mmap_length mbi) + 4095 < 2 ^ 32" and "i < pmm_total s"
  shows "\<not> BIT_TEST (pmm_bitmap s) i \<longleftrightarrow>
    (\<exists>m\<in>set es. me_type m = 1 \<and> frame_inside (unat (me_addr m)) (unat (me_len m)) i) \<and>
    \<not> frame_touches 0 0x100000 i \<and>
    \<not> frame_touches (unat (kernel_phys_start env)) (unat (kernel_phys_end env - kernel_phys_start env)) i \<and>
    \<not> frame_touches (unat (bitmap_storage env - KERNEL_VMA)) (unat (bitmap_bytes (pmm_total s))) i \<and>
    \<not> frame_touches (unat (mbi_addr env - KERNEL_VMA)) 110 i \<and>
    \<not> frame_touches (unat (mmap_addr mbi)) (unat (mmap_length mbi)) i"
proof -
  have u: "BIT_TEST (pmm_bitmap s) i \<longleftrightarrow> i \<in> used_set s" using assms(9) by (simp add: used_set_def)
  have m: "i \<in> mem_frames mbi es (pmm_total s) \<longleftrightarrow>
      (\<exists>m\<in>set es. me_type m = 1 \<and> frame_inside (unat (me_addr m)) (unat (me_len m)) i)"
    using assms(3,4,9) free_frames_inside by (auto simp: mem_frames_def entry_frames_def)
  have r: "i \<in> region_frames a l (pmm_total s) \<longleftrightarrow> frame_touches (unat a) (unat l) i"
    if "unat a + unat l + 4095 < 2 ^ 32" for a l
    using region_frames_touches [OF that] assms(9) by simp
  have z: "unat (0 :: u32) + unat (0x100000 :: u32) + 4095 < 2 ^ 32" "unat (mbi_addr env - KERNEL_VMA) + unat (110 :: u32) + 4095 < 2 ^ 32"
    using assms(7) by simp_all
  show ?thesis
    unfolding u pmm_init_effect(3) [OF assms(1,2)] boot_reserved_def
    using assms(3,9) m r [OF z(1)] r [OF assms(5)] r [OF assms(6)] r [OF z(2)] r [OF assms(8)] by simp
qed


subsection \<open>Witnesses\<close>

text \<open>A machine with 64 KiB of RAM above 1 MiB; the kernel and its tables take the first four frames there.\<close>

definition mmap_example :: mmap_entry where
  "mmap_example = \<lparr>me_size = 20, me_addr = 0x100000, me_len = 0x10000, me_type = 1\<rparr>"

definition env_example :: boot_env where
  "env_example = \<lparr>kernel_phys_start = 0x100000, kernel_phys_end = 0x101000, bitmap_storage = 0xC0101000,
     mbi_addr = 0xC0102000, paging_pae = False, entry_at = (\<lambda>v. if v = 0xC0103000 then mmap_example else mmap_example\<lparr>me_size := 0\<rparr>)\<rparr>"

definition mbi_example :: multiboot_info where
  "mbi_example = \<lparr>mb_flags = 64, mem_lower = 0, mem_upper = 0, mmap_length = 24, mmap_addr = 0x103000\<rparr>"

lemma boot_mmap_example: "boot_mmap env_example mbi_example = Some [mmap_example]"
proof -
  have w: "mmap_walk rd v v = Some []" for rd v by (subst mmap_walk.simps) simp
  have "mmap_walk (entry_at env_example) 0xC0103000 0xC0103018 = Some [mmap_example]"
    by (subst mmap_walk.simps) (simp add: env_example_def mmap_example_def w)
  then show ?thesis by (simp add: boot_mmap_def mbi_example_def)
qed

lemma init_example: "\<exists>s. pmm_init env_example mbi_example = Some s \<and> pmm_total s = 272 \<and> pmm_low_total s = 272 \<and>
    used_set s = {..<260} \<and> quar_list s = [] \<and> refcount_frames s = 0"
proof -
  obtain s where s: "pmm_init env_example mbi_example = Some s" by (simp add: pmm_init_def boot_mmap_example)
  note e = pmm_init_effect [OF s boot_mmap_example]
  have t: "pmm_total s = 272"
    unfolding e(1) by (simp add: init_total_def total_step_def mmap_example_def mbi_example_def env_example_def Let_def)
  have bb: "bitmap_bytes 272 = 4096" by (simp add: bitmap_bytes_def)
  have "mem_frames mbi_example [mmap_example] 272 = {256..<272}"
    by (auto simp: mem_frames_def mbi_example_def entry_frames_def mmap_example_def free_frames_def free_bounds_def)
  moreover have "boot_reserved env_example mbi_example 272 = {..<260}"
    by (auto simp: boot_reserved_def region_frames_def used_bounds_def env_example_def mbi_example_def bb)
  ultimately have "used_set s = {..<260}" using e(3) t by auto
  then show ?thesis using s e t by auto
qed

lemma start_example:
  obtains s where "pmm_start (s, \<lambda>_. 0)" "pmm_init env_example mbi_example = Some s" "pmm_total s = 272" "pmm_low_total s = 272"
    "used_set s = {..<260}" "quar_list s = []" "refcount_frames s = 0"
  using init_example by (auto simp: pmm_start_def)

lemma refs_example:
  "\<exists>c s r. pmm_start c \<and> pmm_any_step\<^sup>*\<^sup>* c (s, r) \<and> r 5 = 1 \<and> refcount_frames s = 272"
proof -
  obtain s where s: "pmm_start (s, \<lambda>_. 0)" "pmm_total s = 272" "used_set s = {..<260}" "quar_list s = []"
    by (metis start_example)
  let ?t = "pmm_refcount_init True s"
  have "used_set ?t = used_set s" "quar_list ?t = quar_list s"
    by (simp_all add: pmm_refcount_init_def used_set_def quar_list_def)
  then have l: "live_frames ?t = {..<260}" using s by (simp add: live_frames_def)
  have f: "frame_of 0x5000 = 5" by (simp add: frame_of_def)
  have rf: "refcount_frames ?t = 272" using s by (simp add: pmm_refcount_init_def)
  have "pmm_any_step (s, \<lambda>_. 0) (?t, \<lambda>_. 0)" unfolding pmm_any_step_def by (blast intro: pmm_step.refcounts)
  moreover have "pmm_any_step (?t, \<lambda>_. 0) (pmm_frame_incref 0x5000 ?t, (\<lambda>_. 0)(5 := 1))"
    unfolding pmm_any_step_def using pmm_step.incref [of "0x5000" ?t "\<lambda>_. 0"] l rf by (auto simp: f)
  ultimately have "pmm_any_step\<^sup>*\<^sup>* (s, \<lambda>_. 0) (pmm_frame_incref 0x5000 ?t, (\<lambda>_. 0)(5 := 1))" by auto
  moreover have "refcount_frames (pmm_frame_incref 0x5000 ?t) = 272" using rf by (simp add: pmm_frame_incref_def Let_def)
  ultimately show ?thesis using s(1) by (metis fun_upd_same)
qed

theorem referenced_frame_stays_witness:
  "\<exists>c s r. pmm_start c \<and> pmm_any_step\<^sup>*\<^sup>* c (s, r) \<and> 0 < r 5 \<and> BIT_TEST (pmm_bitmap s) 5 \<and> fst (frame_alloc UserFrame s) \<noteq> Some 5"
proof -
  obtain c s r where a: "pmm_start c" "pmm_any_step\<^sup>*\<^sup>* c (s, r)" "r 5 = 1" using refs_example by blast
  show ?thesis using referenced_frame_stays [OF a(1,2), of 5 UserFrame] a by (intro exI [of _ c] exI [of _ s] exI [of _ r]) auto
qed

theorem freed_frame_rests_witness:
  "\<exists>s. pmm_init env_example mbi_example = Some s \<and>
    fst (frame_alloc KernelFrame (pmm_free_frame 0x5000 s)) \<noteq> Some 5"
proof -
  obtain s where s: "pmm_start (s, \<lambda>_. 0)" "pmm_init env_example mbi_example = Some s" "used_set s = {..<260}" "quar_list s = []"
    by (metis start_example)
  have f: "frame_of 0x5000 = 5" by (simp add: frame_of_def)
  have "frame_of 0x5000 \<in> live_frames s" using s by (simp add: live_frames_def f)
  then show ?thesis
    using freed_frame_rests [OF s(1) rtranclp.rtrancl_refl, of "0x5000" "[]" "pmm_free_frame 0x5000 s" "\<lambda>_. 0" KernelFrame]
      s(2) pmm_run.run_nil by (auto simp: f)
qed

theorem pmm_alloc_next_free_witness:
  "\<exists>s p t i. pmm_init env_example mbi_example = Some s \<and> pmm_alloc_frame s = (p, t) \<and> unat p = i * 4096 \<and> 260 \<le> i \<and> i < 272"
proof -
  obtain s where s: "pmm_start (s, \<lambda>_. 0)" "pmm_init env_example mbi_example = Some s" "pmm_low_total s = 272" "used_set s = {..<260}"
    by (metis start_example)
  obtain p t where p: "pmm_alloc_frame s = (p, t)" by (cases "pmm_alloc_frame s")
  have "\<not> {..<272 :: nat} \<subseteq> {..<260}" by simp
  then obtain i where "unat p = i * 4096" "i < 272" "i \<notin> {..<260}"
    using pmm_alloc_next_free [OF s(1) rtranclp.rtrancl_refl p] unfolding s(3,4) by (auto simp only: if_False)
  then show ?thesis using s(2) p by (intro exI [of _ s] exI [of _ p] exI [of _ t] exI [of _ i]) auto
qed

theorem pmm_contig_first_fit_witness:
  "\<exists>s. pmm_init env_example mbi_example = Some s \<and> unat (fst (pmm_alloc_contig 2 300 s)) = 260 * 4096"
proof -
  obtain s where s: "pmm_start (s, \<lambda>_. 0)" "pmm_init env_example mbi_example = Some s" "pmm_total s = 272" "pmm_low_total s = 272" "used_set s = {..<260}"
    by (metis start_example)
  obtain p t where p: "pmm_alloc_contig 2 300 s = (p, t)" by (cases "pmm_alloc_contig 2 300 s")
  have b: "BIT_TEST (pmm_bitmap s) j \<longleftrightarrow> j < 260" if "j < 272" for j
    using s(3,5) that by (metis (mono_tags, lifting) lessThan_iff mem_Collect_eq used_set_def)
  have fr: "free_run (pmm_bitmap s) 2 272 i \<longleftrightarrow> 260 \<le> i \<and> i + 2 \<le> 272" for i
  proof
    assume a: "free_run (pmm_bitmap s) 2 272 i"
    then have "\<not> BIT_TEST (pmm_bitmap s) i" "i + 2 \<le> 272" by (auto simp: free_run_def)
    then show "260 \<le> i \<and> i + 2 \<le> 272" using b [of i] by auto
  qed (use b in \<open>auto simp: free_run_def\<close>)
  have m: "min 300 272 = (272 :: nat)" by simp
  have ex: "\<exists>i\<ge>1. free_run (pmm_bitmap s) 2 272 i" unfolding fr by (intro exI [of _ 260]) simp
  obtain i where "unat p = i * 4096" "260 \<le> i" "\<forall>j. 1 \<le> j \<longrightarrow> j < i \<longrightarrow> \<not> (260 \<le> j \<and> j + 2 \<le> 272)"
    using pmm_contig_first_fit [OF s(1) rtranclp.rtrancl_refl _ p] unfolding s(4) m if_P [OF ex] unfolding fr by auto
  moreover from this(3) have "\<not> 260 < i" by (auto dest: spec [of _ 260])
  ultimately show ?thesis using s(2) p by (intro exI [of _ s]) auto
qed

theorem pmm_counters_exact_witness:
  "\<exists>s. pmm_init env_example mbi_example = Some s \<and> unat (pmm_free_frames s) = 12"
proof -
  obtain s where s: "pmm_start (s, \<lambda>_. 0)" "pmm_init env_example mbi_example = Some s" "pmm_total s = 272" "used_set s = {..<260}"
    by (metis start_example)
  have "{i. i < pmm_total s \<and> \<not> BIT_TEST (pmm_bitmap s) i} = {..<272} - used_set s" using s(3) by (auto simp: used_set_def)
  then have "card {i. i < pmm_total s \<and> \<not> BIT_TEST (pmm_bitmap s) i} = 12" unfolding s(4)
    by (simp add: card_Diff_subset)
  then show ?thesis using pmm_counters_exact [OF s(1) rtranclp.rtrancl_refl] s(2) by auto
qed

theorem pmm_clients_exclusive_witness:
  "\<exists>s h t. pmm_init env_example mbi_example = Some s \<and>
    pmm_frames.alloc_run [Alloc KernelFrame, Alloc UserFrame] {} s = (h, t) \<and> h \<inter> {..<260} = {}"
proof -
  obtain s where s: "pmm_start (s, \<lambda>_. 0)" "pmm_init env_example mbi_example = Some s" "used_set s = {..<260}" "quar_list s = []"
    by (metis start_example)
  obtain h t where h: "pmm_frames.alloc_run [Alloc KernelFrame, Alloc UserFrame] {} s = (h, t)"
    by (cases "pmm_frames.alloc_run [Alloc KernelFrame, Alloc UserFrame] {} s")
  have "live_frames s = {..<260}" using s by (simp add: live_frames_def)
  then have "h \<inter> {..<260} = {}" using pmm_clients_exclusive [OF s(1) rtranclp.rtrancl_refl h] by auto
  then show ?thesis using s(2) h by blast
qed

theorem pmm_init_exact_witness:
  "\<exists>s. pmm_init env_example mbi_example = Some s \<and> \<not> BIT_TEST (pmm_bitmap s) 260 \<and> BIT_TEST (pmm_bitmap s) 259"
proof -
  obtain s where s: "pmm_init env_example mbi_example = Some s" "pmm_total s = 272"
    by (metis start_example)
  have bb: "bitmap_bytes 272 = 4096" by (simp add: bitmap_bytes_def)
  note ex = pmm_init_exact [OF s(1) boot_mmap_example, unfolded s(2) bb]
  have "\<not> BIT_TEST (pmm_bitmap s) i \<longleftrightarrow> 260 \<le> i" if "i < 272" for i
    using ex [of i] that by (auto simp: env_example_def mbi_example_def mmap_example_def frame_inside_def frame_touches_def)
  from this [of 260] this [of 259] show ?thesis using s by auto
qed


end
