(* ===== verification/Ipc.thy ===== *)
theory Ipc
  imports Usermem
begin

text \<open>
  What the three kinds of System V IPC objects share (proc/sysvipc.c): the permission record and
  its check, ownership, the user-visible permission structure, ids made of a slot and a sequence
  number, and the sleep. C's \<open>int\<close> flags are 32-bit words: only bits below the ninth of a shifted
  value are looked at, where the arithmetic and the logical shift agree. The interface \<open>ipc_ids\<close>
  is what the lookup of an id promises; the shared memory, semaphore and message tables provide it.
\<close>

section \<open>Credentials and permissions\<close>

abbreviation (input) IPC_CREAT :: u32 where "IPC_CREAT \<equiv> 0x200"
abbreviation (input) IPC_EXCL :: u32 where "IPC_EXCL \<equiv> 0x400"
abbreviation (input) IPC_NOWAIT :: u32 where "IPC_NOWAIT \<equiv> 0x800"
abbreviation (input) IPC_RMID :: u32 where "IPC_RMID \<equiv> 0"
abbreviation (input) IPC_SET :: u32 where "IPC_SET \<equiv> 1"
abbreviation (input) IPC_STAT :: u32 where "IPC_STAT \<equiv> 2"
abbreviation (input) IPC_INFO :: u32 where "IPC_INFO \<equiv> 3"
abbreviation (input) IPC_64 :: u32 where "IPC_64 \<equiv> 0x100"
abbreviation (input) PROC_NGROUPS_MAX :: nat where "PROC_NGROUPS_MAX \<equiv> 32"

record cred =
  c_euid :: u32
  c_egid :: u32
  c_ngroups :: nat
  c_groups :: "u32 list"
  c_tgid :: int
  c_mm :: u32

record ipc_perm =
  p_key :: int
  p_uid :: u32
  p_gid :: u32
  p_cuid :: u32
  p_cgid :: u32
  p_mode :: u32
  p_seq :: u16

definition in_group :: "cred \<Rightarrow> u32 \<Rightarrow> bool" where
  "in_group c gid = (c_egid c = gid \<or> list_ex (\<lambda>g. g = gid) (take (min (c_ngroups c) PROC_NGROUPS_MAX) (c_groups c)))"

definition ipcperms :: "cred \<Rightarrow> ipc_perm \<Rightarrow> u32 \<Rightarrow> int" where
  "ipcperms c p flag =
     (let requested = drop_bit 6 flag OR drop_bit 3 flag OR flag;
          granted = (if c_euid c = p_cuid p \<or> c_euid c = p_uid p then drop_bit 6 (p_mode p)
                     else if in_group c (p_cgid p) \<or> in_group c (p_gid p) then drop_bit 3 (p_mode p)
                     else p_mode p)
      in if requested AND NOT granted AND 7 \<noteq> 0 \<and> c_euid c \<noteq> 0 then - EACCES else 0)"

definition ipc_owner :: "cred \<Rightarrow> ipc_perm \<Rightarrow> bool" where
  "ipc_owner c p = (c_euid c = 0 \<or> c_euid c = p_uid p \<or> c_euid c = p_cuid p)"

text \<open>The sequence number is set by the caller; before that the memory is zeroed.\<close>

definition perm_init :: "cred \<Rightarrow> int \<Rightarrow> u32 \<Rightarrow> u16 \<Rightarrow> ipc_perm" where
  "perm_init c key flag sq =
     \<lparr>p_key = key, p_uid = c_euid c, p_gid = c_egid c, p_cuid = c_euid c, p_cgid = c_egid c,
      p_mode = flag AND 0x1FF, p_seq = sq\<rparr>"

definition perm_zero :: ipc_perm where
  "perm_zero = \<lparr>p_key = 0, p_uid = 0, p_gid = 0, p_cuid = 0, p_cgid = 0, p_mode = 0, p_seq = 0\<rparr>"

text \<open>The user-visible structure, 36 bytes: key, uid, gid, cuid, cgid, mode and padding, seq and padding, unused.\<close>

definition perm_out :: "ipc_perm \<Rightarrow> u8 list" where
  "perm_out p =
     le_enc 4 (p_key p) @ le_enc 4 (uint (p_uid p)) @ le_enc 4 (uint (p_gid p)) @ le_enc 4 (uint (p_cuid p)) @
     le_enc 4 (uint (p_cgid p)) @ le_enc 2 (uint (p_mode p)) @ le_enc 2 0 @ le_enc 2 (uint (p_seq p)) @ le_enc 2 0 @
     le_enc 8 0"

definition perm_set :: "ipc_perm \<Rightarrow> u8 list \<Rightarrow> ipc_perm" where
  "perm_set p d =
     p\<lparr>p_uid := le_bytes (take 4 (drop 4 d)), p_gid := le_bytes (take 4 (drop 8 d)),
       p_mode := (p_mode p AND NOT 0x1FF) OR (ucast (le_bytes (take 2 (drop 20 d)) :: u16) AND 0x1FF)\<rparr>"

section \<open>Ids\<close>

definition ID_OF :: "nat \<Rightarrow> u16 \<Rightarrow> nat \<Rightarrow> int" where
  "ID_OF slot sq n = sint (ucast sq * of_nat n + of_nat slot :: u32)"

text \<open>The counter of the next sequence number: from 1 to 0x7FFE and around.\<close>

definition seq_advance :: "u16 \<Rightarrow> u16" where
  "seq_advance sq = (if sq + 1 \<ge> 0x7FFF then 1 else sq + 1)"

section \<open>Sleeping\<close>

text \<open>
  \<open>intr0\<close>, \<open>intr1\<close>: whether a signal is pending before and after; \<open>passed\<close>: whether a deadline
  is set and reached; \<open>to\<close>: what \<open>sleep_on\<close> answered.
\<close>

definition ipc_sleep :: "bool \<Rightarrow> bool \<Rightarrow> bool \<Rightarrow> bool \<Rightarrow> int" where
  "ipc_sleep intr0 passed to intr1 =
     (if intr0 then - EINTR else if passed then - EAGAIN else if to then - EAGAIN
      else if intr1 then - EINTR else 0)"

section \<open>Lemmas\<close>

lemma ipcperms_cases: "ipcperms c p flag = 0 \<or> ipcperms c p flag = - EACCES"
  by (simp add: ipcperms_def Let_def)

lemma seq_advance_range:
  assumes "1 \<le> sq" "sq < 0x7FFF"
  shows "1 \<le> seq_advance sq \<and> seq_advance sq < 0x7FFF"
  using assms by (auto simp: seq_advance_def word_le_nat_alt word_less_nat_alt unat_word_ariths)

lemma ID_OF_nat:
  assumes "slot < n" "n \<le> 128" "sq < 0x7FFF"
  shows "ID_OF slot sq n = int (unat sq * n + slot)"
proof -
  have q: "unat sq < 0x7FFF" using assms(3) by (simp add: word_less_nat_alt)
  have "unat sq * n \<le> 0x7FFF * 128" using q assms(2) by (intro mult_le_mono) auto
  then have "unat sq * n + slot < 0x7FFF * 128 + 128" using assms(1,2) by linarith
  moreover have "(ucast sq * of_nat n + of_nat slot :: u32) = of_nat (unat sq * n + slot)" by simp
  ultimately show ?thesis unfolding ID_OF_def by (simp add: signed_take_bit_int_eq_self signed_of_nat del: of_nat_add of_nat_mult)
qed

lemma perm_set_key [simp]: "p_key (perm_set p d) = p_key p" "p_seq (perm_set p d) = p_seq p"
  by (simp_all add: perm_set_def)

text \<open>The superuser passes every check; the examples use it.\<close>

definition root_cred :: cred where
  "root_cred = \<lparr>c_euid = 0, c_egid = 0, c_ngroups = 0, c_groups = [], c_tgid = 1, c_mm = 1\<rparr>"

lemma root_perms [simp]: "ipcperms root_cred p flag = 0"
  by (simp add: ipcperms_def root_cred_def Let_def)

section \<open>The id interface\<close>

text \<open>
  \<open>seq_at\<close>: the sequence number of the object in a slot, if there is one. An id names the object
  that was given it and nothing else, so an id outlives its object without naming the next one.
\<close>

locale ipc_ids =
  fixes n :: nat and seq_at :: "'s \<Rightarrow> nat \<Rightarrow> u16 option" and by_id :: "'s \<Rightarrow> int \<Rightarrow> nat option"
  assumes table_size: "0 < n" "n \<le> 128"
    and by_id_neg: "x < 0 \<Longrightarrow> by_id s x = None"
    and by_id_nonneg: "0 \<le> x \<Longrightarrow>
      by_id s x = (case seq_at s (nat x mod n) of None \<Rightarrow> None
        | Some sq \<Rightarrow> if unat sq = nat x div n then Some (nat x mod n) else None)"
begin

lemma by_id_less: "by_id s x = Some slot \<Longrightarrow> slot < n"
  using table_size(1) by (cases "x < 0") (auto simp: by_id_neg by_id_nonneg split: option.splits if_splits)

lemma by_id_ID_OF:
  assumes "slot < n" "sq < 0x7FFF"
  shows "by_id s (ID_OF slot sq n) = Some k \<longleftrightarrow> k = slot \<and> seq_at s slot = Some sq"
proof -
  note e = ID_OF_nat [OF assms(1) table_size(2) assms(2)]
  have "nat (ID_OF slot sq n) mod n = slot" "nat (ID_OF slot sq n) div n = unat sq"
    using assms(1) unfolding e by (simp_all only: nat_int) simp_all
  then show ?thesis using e by (auto simp: by_id_nonneg word_unat_eq_iff split: option.splits)
qed

lemma by_id_only:
  assumes "by_id s x = Some slot" "seq_at s slot = Some sq" "sq < 0x7FFF"
  shows "x = ID_OF slot sq n"
proof -
  have slot: "slot < n" by (rule by_id_less [OF assms(1)])
  have "0 \<le> x" using assms(1) by_id_neg [of x s] by (cases "x < 0") auto
  then have "nat x mod n = slot" "nat x div n = unat sq"
    using assms(1,2) by (auto simp: by_id_nonneg split: option.splits if_splits)
  then have "nat x = unat sq * n + slot" by (metis div_mult_mod_eq)
  then show ?thesis using ID_OF_nat [OF slot table_size(2) assms(3)] \<open>0 \<le> x\<close> by linarith
qed

text \<open>An x whose object is gone names nothing as long as its slot's sequence number differs.\<close>

lemma by_id_stale:
  assumes "slot < n" "sq < 0x7FFF" "seq_at s slot \<noteq> Some sq"
  shows "by_id s (ID_OF slot sq n) = None"
  using by_id_ID_OF [OF assms(1,2), of s] assms(3) by (cases "by_id s (ID_OF slot sq n)") auto

end

end
