(* ===== verification/Ipc_Msg.thy ===== *)
theory Ipc_Msg
  imports Ipc
begin

text \<open>
  System V message queues (proc/sysvipc.c, the msg part). The linked list of a queue is a HOL
  list from head to tail. A call that has to wait is given its wakeups: the table it finds each
  time and what the sleep answered. \<open>now\<close> is the clock and \<open>mem\<close> what kmalloc answers.
\<close>

section \<open>State\<close>

abbreviation (input) SYSV_MSGMNI :: nat where "SYSV_MSGMNI \<equiv> 64"
abbreviation (input) SYSV_MSGMAX :: u32 where "SYSV_MSGMAX \<equiv> 8192"
abbreviation (input) SYSV_MSGMNB :: u32 where "SYSV_MSGMNB \<equiv> 16384"
abbreviation (input) SYSV_MSG_PER_QUEUE :: u32 where "SYSV_MSG_PER_QUEUE \<equiv> 1024"
abbreviation (input) MSG_STAT :: u32 where "MSG_STAT \<equiv> 11"
abbreviation (input) MSG_INFO :: u32 where "MSG_INFO \<equiv> 12"
abbreviation (input) MSG_STAT_ANY :: u32 where "MSG_STAT_ANY \<equiv> 13"
abbreviation (input) MSG_NOERROR :: u32 where "MSG_NOERROR \<equiv> 0x1000"
abbreviation (input) MSG_EXCEPT :: u32 where "MSG_EXCEPT \<equiv> 0x2000"
abbreviation (input) MSG_COPY :: u32 where "MSG_COPY \<equiv> 0x4000"

record sysv_msg =
  m_type :: int
  m_data :: "u8 list"

record sysv_msq =
  q_used :: bool
  q_perm :: ipc_perm
  q_msgs :: "sysv_msg list"
  q_cbytes :: u32
  q_qnum :: u32
  q_qbytes :: u32
  q_lspid :: int
  q_lrpid :: int
  q_stime :: u32
  q_rtime :: u32
  q_ctime :: u32

record msg_state =
  msqs :: "sysv_msq list"
  msg_seq_next :: u16

definition msq_zero :: sysv_msq where
  "msq_zero = \<lparr>q_used = False, q_perm = perm_zero, q_msgs = [], q_cbytes = 0, q_qnum = 0, q_qbytes = 0,
     q_lspid = 0, q_lrpid = 0, q_stime = 0, q_rtime = 0, q_ctime = 0\<rparr>"

definition msg_boot :: msg_state where
  "msg_boot = \<lparr>msqs = replicate SYSV_MSGMNI msq_zero, msg_seq_next = 1\<rparr>"

definition set_q :: "nat \<Rightarrow> sysv_msq \<Rightarrow> msg_state \<Rightarrow> msg_state" where
  "set_q slot q s = s\<lparr>msqs := (msqs s)[slot := q]\<rparr>"

section \<open>Lookup, creation, removal\<close>

definition msq_by_id :: "msg_state \<Rightarrow> int \<Rightarrow> nat option" where
  "msq_by_id s x =
     (if x < 0 then None
      else let slot = nat x mod SYSV_MSGMNI; sq = nat x div SYSV_MSGMNI; q = msqs s ! slot
           in if \<not> q_used q \<or> unat (p_seq (q_perm q)) \<noteq> sq then None else Some slot)"

definition do_msgget :: "cred \<Rightarrow> u32 \<Rightarrow> msg_state \<Rightarrow> int \<Rightarrow> u32 \<Rightarrow> int \<times> msg_state" where
  "do_msgget c now s key flag =
     (let hit = (if key \<noteq> 0 then find (\<lambda>i. q_used (msqs s ! i) \<and> p_key (q_perm (msqs s ! i)) = key) [0..<SYSV_MSGMNI]
                 else None)
      in case hit of
           Some i \<Rightarrow>
             if flag AND IPC_CREAT \<noteq> 0 \<and> flag AND IPC_EXCL \<noteq> 0 then (- EEXIST, s)
             else if ipcperms c (q_perm (msqs s ! i)) flag \<noteq> 0 then (- EACCES, s)
             else (ID_OF i (p_seq (q_perm (msqs s ! i))) SYSV_MSGMNI, s)
         | None \<Rightarrow>
             if key \<noteq> 0 \<and> flag AND IPC_CREAT = 0 then (- ENOENT, s)
             else
               case find (\<lambda>i. \<not> q_used (msqs s ! i)) [0..<SYSV_MSGMNI] of
                 None \<Rightarrow> (- ENOSPC, s)
               | Some slot \<Rightarrow>
                   let sq = msg_seq_next s;
                       q = msq_zero\<lparr>q_used := True, q_perm := perm_init c key flag sq, q_qbytes := SYSV_MSGMNB, q_ctime := now\<rparr>
                   in (ID_OF slot sq SYSV_MSGMNI, (set_q slot q s)\<lparr>msg_seq_next := seq_advance sq\<rparr>))"

definition msq_remove :: "nat \<Rightarrow> msg_state \<Rightarrow> msg_state" where
  "msq_remove slot s = set_q slot ((msqs s ! slot)\<lparr>q_msgs := [], q_used := False\<rparr>) s"

section \<open>Sending\<close>

definition msq_full :: "sysv_msq \<Rightarrow> u32 \<Rightarrow> bool" where
  "msq_full q sz = (q_cbytes q + sz > q_qbytes q \<or> q_qnum q + 1 > q_qbytes q \<or> q_qnum q \<ge> SYSV_MSG_PER_QUEUE)"

definition msq_append :: "cred \<Rightarrow> u32 \<Rightarrow> sysv_msg \<Rightarrow> sysv_msq \<Rightarrow> sysv_msq" where
  "msq_append c now m q =
     q\<lparr>q_msgs := q_msgs q @ [m], q_cbytes := q_cbytes q + of_nat (length (m_data m)), q_qnum := q_qnum q + 1,
       q_lspid := c_tgid c, q_stime := now\<rparr>"

text \<open>The wait loop: \<open>None\<close> while it still sleeps, else the result and the table it saw last.\<close>

fun msgsnd_loop ::
  "(msg_state \<times> int) list \<Rightarrow> cred \<Rightarrow> u32 \<Rightarrow> sysv_msg \<Rightarrow> u32 \<Rightarrow> nat \<Rightarrow> u16 \<Rightarrow> msg_state \<Rightarrow> (int \<times> msg_state) option" where
  "msgsnd_loop ws c now m flag slot sq s =
     (let q = msqs s ! slot in
      if msq_full q (of_nat (length (m_data m))) then
        if flag AND IPC_NOWAIT \<noteq> 0 then Some (- EAGAIN, s)
        else
          case ws of [] \<Rightarrow> None
          | (s', w) # ws' \<Rightarrow>
              if \<not> q_used (msqs s' ! slot) \<or> p_seq (q_perm (msqs s' ! slot)) \<noteq> sq then Some (- EIDRM, s')
              else if w \<noteq> 0 then Some (w, s')
              else msgsnd_loop ws' c now m flag slot sq s'
      else Some (0, set_q slot (msq_append c now m q) s))"

declare msgsnd_loop.simps [simp del]

definition do_msgsnd ::
  "(msg_state \<times> int) list \<Rightarrow> bool \<Rightarrow> cred \<Rightarrow> u32 \<Rightarrow> umem \<Rightarrow> msg_state \<Rightarrow> int \<Rightarrow> u32 \<Rightarrow> u32 \<Rightarrow> u32 \<Rightarrow> (int \<times> msg_state) option" where
  "do_msgsnd ws mem c now um s x umsg sz flag =
     (if sint sz < 0 \<or> sz > SYSV_MSGMAX then Some (- EINVAL, s)
      else
        let (r, bs) = copy_from_user um umsg 4; type = sint (le_bytes bs :: u32) in
        if r < 0 then Some (- EFAULT, s)
        else if type < 1 then Some (- EINVAL, s)
        else if \<not> mem then Some (- ENOMEM, s)
        else
          let (r2, data) = (if sz \<noteq> 0 then copy_from_user um (umsg + 4) (unat sz) else (0, [])) in
          if r2 < 0 then Some (- EFAULT, s)
          else
            case msq_by_id s x of None \<Rightarrow> Some (- EINVAL, s)
            | Some slot \<Rightarrow>
                if ipcperms c (q_perm (msqs s ! slot)) 0x92 \<noteq> 0 then Some (- EACCES, s)
                else msgsnd_loop ws c now \<lparr>m_type = type, m_data = data\<rparr> flag slot (p_seq (q_perm (msqs s ! slot))) s)"

section \<open>Receiving\<close>

text \<open>The search: \<open>i\<close> is the position of the head, \<open>m\<close> what was found so far.\<close>

fun msgrcv_pick :: "int \<Rightarrow> bool \<Rightarrow> nat \<Rightarrow> (nat \<times> sysv_msg) option \<Rightarrow> sysv_msg list \<Rightarrow> (nat \<times> sysv_msg) option" where
  "msgrcv_pick type except i m [] = m"
| "msgrcv_pick type except i m (it # its) =
     (let ok = (if type = 0 then True
                else if type > 0 then (if except then m_type it \<noteq> type else m_type it = type)
                else m_type it \<le> - type \<and> (case m of None \<Rightarrow> True | Some (_, b) \<Rightarrow> m_type it < m_type b))
      in if \<not> ok then msgrcv_pick type except (i + 1) m its
         else if type \<ge> 0 then Some (i, it)
         else msgrcv_pick type except (i + 1) (Some (i, it)) its)"

definition remove_at :: "nat \<Rightarrow> 'a list \<Rightarrow> 'a list" where
  "remove_at i xs = take i xs @ drop (Suc i) xs"

definition msq_take :: "cred \<Rightarrow> u32 \<Rightarrow> nat \<Rightarrow> sysv_msg \<Rightarrow> sysv_msq \<Rightarrow> sysv_msq" where
  "msq_take c now i m q =
     q\<lparr>q_msgs := remove_at i (q_msgs q), q_cbytes := q_cbytes q - of_nat (length (m_data m)), q_qnum := q_qnum q - 1,
       q_lrpid := c_tgid c, q_rtime := now\<rparr>"

text \<open>A message was found: copy it out and unlink it.\<close>

definition msgrcv_deliver ::
  "cred \<Rightarrow> u32 \<Rightarrow> umem \<Rightarrow> u32 \<Rightarrow> u32 \<Rightarrow> u32 \<Rightarrow> nat \<Rightarrow> nat \<Rightarrow> sysv_msg \<Rightarrow> msg_state \<Rightarrow> int \<times> umem \<times> msg_state" where
  "msgrcv_deliver c now um umsg sz flag slot i m s =
     (if length (m_data m) > unat sz \<and> flag AND MSG_NOERROR = 0 then (- E2BIG, um, s)
      else
        let n = min (length (m_data m)) (unat sz);
            (r1, um1) = copy_to_user um umsg (le_enc 4 (m_type m))
        in if r1 < 0 then (- EFAULT, um1, s)
           else
             let (r2, um2) = (if n \<noteq> 0 then copy_to_user um1 (umsg + 4) (take n (m_data m)) else (0, um1)) in
             if r2 < 0 then (- EFAULT, um2, s)
             else (int n, um2, set_q slot (msq_take c now i m (msqs s ! slot)) s))"

fun msgrcv_loop ::
  "(msg_state \<times> int) list \<Rightarrow> cred \<Rightarrow> u32 \<Rightarrow> umem \<Rightarrow> u32 \<Rightarrow> u32 \<Rightarrow> int \<Rightarrow> u32 \<Rightarrow> nat \<Rightarrow> u16 \<Rightarrow> msg_state \<Rightarrow>
   (int \<times> umem \<times> msg_state) option" where
  "msgrcv_loop ws c now um umsg sz type flag slot sq s =
     (case msgrcv_pick type (flag AND MSG_EXCEPT \<noteq> 0) 0 None (q_msgs (msqs s ! slot)) of
        Some (i, m) \<Rightarrow> Some (msgrcv_deliver c now um umsg sz flag slot i m s)
      | None \<Rightarrow>
          if flag AND IPC_NOWAIT \<noteq> 0 then Some (- ENOMSG, um, s)
          else
            case ws of [] \<Rightarrow> None
            | (s', w) # ws' \<Rightarrow>
                if \<not> q_used (msqs s' ! slot) \<or> p_seq (q_perm (msqs s' ! slot)) \<noteq> sq then Some (- EIDRM, um, s')
                else if w \<noteq> 0 then Some (w, um, s')
                else msgrcv_loop ws' c now um umsg sz type flag slot sq s')"

declare msgrcv_loop.simps [simp del]

definition do_msgrcv ::
  "(msg_state \<times> int) list \<Rightarrow> cred \<Rightarrow> u32 \<Rightarrow> umem \<Rightarrow> msg_state \<Rightarrow> int \<Rightarrow> u32 \<Rightarrow> u32 \<Rightarrow> int \<Rightarrow> u32 \<Rightarrow> (int \<times> umem \<times> msg_state) option" where
  "do_msgrcv ws c now um s x umsg sz type flag =
     (if sint sz < 0 then Some (- EINVAL, um, s)
      else if flag AND MSG_COPY \<noteq> 0 then Some (- ENOSYS, um, s)
      else
        case msq_by_id s x of None \<Rightarrow> Some (- EINVAL, um, s)
        | Some slot \<Rightarrow>
            if ipcperms c (q_perm (msqs s ! slot)) 0x124 \<noteq> 0 then Some (- EACCES, um, s)
            else msgrcv_loop ws c now um umsg sz type flag slot (p_seq (q_perm (msqs s ! slot))) s)"

section \<open>Control\<close>

definition used_queues :: "msg_state \<Rightarrow> nat list" where
  "used_queues s = filter (\<lambda>i. q_used (msqs s ! i)) [0..<SYSV_MSGMNI]"

text \<open>The information calls: eight 32-bit values, of which 30 bytes are copied.\<close>

definition msg_info :: "msg_state \<Rightarrow> bool \<Rightarrow> u8 list" where
  "msg_info s usage =
     (let us = used_queues s;
          info = [1024, 16384, 8192, 16384, 64, 16, 16384, 0xFFFF :: int];
          info = (if usage then info[0 := int (length us), 1 := sint (sum_list (map (\<lambda>i. q_qnum (msqs s ! i)) us)),
                                     6 := sint (sum_list (map (\<lambda>i. q_cbytes (msqs s ! i)) us))]
                  else info)
      in take 30 (concat (map (le_enc 4) info)))"

text \<open>struct msqid64_ds, 88 bytes: the permissions, three 64-bit times, the counts, the two pids and two unused words.\<close>

definition msqid_ds :: "sysv_msq \<Rightarrow> u8 list" where
  "msqid_ds q =
     perm_out (q_perm q) @ le_enc 4 (uint (q_stime q)) @ le_enc 4 0 @ le_enc 4 (uint (q_rtime q)) @ le_enc 4 0 @
     le_enc 4 (uint (q_ctime q)) @ le_enc 4 0 @ le_enc 4 (uint (q_cbytes q)) @ le_enc 4 (uint (q_qnum q)) @
     le_enc 4 (uint (q_qbytes q)) @ le_enc 4 (q_lspid q) @ le_enc 4 (q_lrpid q) @ le_enc 8 0"

definition msgctl_slot :: "cred \<Rightarrow> u32 \<Rightarrow> umem \<Rightarrow> msg_state \<Rightarrow> u32 \<Rightarrow> u32 \<Rightarrow> int \<Rightarrow> nat \<Rightarrow> int \<times> umem \<times> msg_state" where
  "msgctl_slot c now um s cmd ubuf ret slot =
     (let q = msqs s ! slot in
      if cmd = IPC_STAT \<or> cmd = MSG_STAT \<or> cmd = MSG_STAT_ANY then
        if cmd \<noteq> MSG_STAT_ANY \<and> ipcperms c (q_perm q) 0x124 \<noteq> 0 then (- EACCES, um, s)
        else let (r, um') = copy_to_user um ubuf (msqid_ds q) in (if r < 0 then - EFAULT else ret, um', s)
      else if cmd = IPC_SET then
        let (r, d) = copy_from_user um ubuf 88; qbytes = (le_bytes (take 4 (drop 68 d)) :: u32) in
        if r < 0 then (- EFAULT, um, s)
        else if \<not> ipc_owner c (q_perm q) then (- EPERM, um, s)
        else if qbytes > SYSV_MSGMNB \<and> c_euid c \<noteq> 0 then (- EPERM, um, s)
        else (0, um, set_q slot (q\<lparr>q_perm := perm_set (q_perm q) d, q_qbytes := qbytes, q_ctime := now\<rparr>) s)
      else if cmd = IPC_RMID then
        if \<not> ipc_owner c (q_perm q) then (- EPERM, um, s) else (0, um, msq_remove slot s)
      else (- EINVAL, um, s))"

definition do_msgctl :: "cred \<Rightarrow> u32 \<Rightarrow> umem \<Rightarrow> msg_state \<Rightarrow> int \<Rightarrow> u32 \<Rightarrow> u32 \<Rightarrow> int \<times> umem \<times> msg_state" where
  "do_msgctl c now um s x cmd0 ubuf =
     (let cmd = cmd0 AND NOT IPC_64 in
      if cmd = IPC_INFO \<or> cmd = MSG_INFO then
        let (r, um') = copy_to_user um ubuf (msg_info s (cmd = MSG_INFO)) in
        (if r < 0 then - EFAULT else if used_queues s = [] then 0 else int (last (used_queues s)), um', s)
      else if cmd = MSG_STAT \<or> cmd = MSG_STAT_ANY then
        if x < 0 \<or> x \<ge> int SYSV_MSGMNI \<or> \<not> q_used (msqs s ! nat x) then (- EINVAL, um, s)
        else msgctl_slot c now um s cmd ubuf (ID_OF (nat x) (p_seq (q_perm (msqs s ! nat x))) SYSV_MSGMNI) (nat x)
      else
        case msq_by_id s x of None \<Rightarrow> (- EINVAL, um, s) | Some slot \<Rightarrow> msgctl_slot c now um s cmd ubuf 0 slot)"

section \<open>Ids\<close>

definition msg_seq_at :: "msg_state \<Rightarrow> nat \<Rightarrow> u16 option" where
  "msg_seq_at s i = (if q_used (msqs s ! i) then Some (p_seq (q_perm (msqs s ! i))) else None)"

interpretation msg_ids: ipc_ids SYSV_MSGMNI msg_seq_at msq_by_id
  by unfold_locales (auto simp: msq_by_id_def msg_seq_at_def Let_def)

section \<open>The invariant\<close>

definition msg_bytes :: "sysv_msg list \<Rightarrow> nat" where
  "msg_bytes ms = sum_list (map (\<lambda>m. length (m_data m)) ms)"

definition msg_ok :: "sysv_msg \<Rightarrow> bool" where
  "msg_ok m \<longleftrightarrow> 1 \<le> m_type m \<and> length (m_data m) \<le> 8192"

definition msq_ok :: "sysv_msq \<Rightarrow> bool" where
  "msq_ok q \<longleftrightarrow> (q_used q \<longrightarrow> (\<forall>m\<in>set (q_msgs q). msg_ok m) \<and> length (q_msgs q) \<le> 1024 \<and>
     q_cbytes q = of_nat (msg_bytes (q_msgs q)) \<and> q_qnum q = of_nat (length (q_msgs q)) \<and>
     1 \<le> p_seq (q_perm q) \<and> p_seq (q_perm q) < 0x7FFF)"

definition keys_unique :: "sysv_msq list \<Rightarrow> bool" where
  "keys_unique qs \<longleftrightarrow> (\<forall>i<length qs. \<forall>j<length qs. q_used (qs ! i) \<and> q_used (qs ! j) \<and>
     p_key (q_perm (qs ! i)) = p_key (q_perm (qs ! j)) \<and> p_key (q_perm (qs ! i)) \<noteq> 0 \<longrightarrow> i = j)"

definition msg_inv :: "msg_state \<Rightarrow> bool" where
  "msg_inv s \<longleftrightarrow> length (msqs s) = SYSV_MSGMNI \<and> (\<forall>i<SYSV_MSGMNI. msq_ok (msqs s ! i)) \<and> keys_unique (msqs s) \<and>
     1 \<le> msg_seq_next s \<and> msg_seq_next s < 0x7FFF"

lemma msg_invD: "msg_inv s \<Longrightarrow> i < SYSV_MSGMNI \<Longrightarrow> msq_ok (msqs s ! i)"
  by (simp add: msg_inv_def)

lemma msg_bytes_le: "\<forall>m\<in>set ms. msg_ok m \<Longrightarrow> msg_bytes ms \<le> 8192 * length ms"
  by (induction ms) (auto simp: msg_bytes_def msg_ok_def)

lemma unat_cbytes: "msq_ok q \<Longrightarrow> q_used q \<Longrightarrow> unat (q_cbytes q) = msg_bytes (q_msgs q)"
  and unat_qnum: "msq_ok q \<Longrightarrow> q_used q \<Longrightarrow> unat (q_qnum q) = length (q_msgs q)"
  using msg_bytes_le [of "q_msgs q"] by (auto simp: msq_ok_def unat_of_nat take_bit_nat_eq_self)

lemma set_q_inv:
  assumes "msg_inv s" "slot < SYSV_MSGMNI" "msq_ok q"
    and "q_used q \<Longrightarrow> q_used (msqs s ! slot) \<and> p_key (q_perm q) = p_key (q_perm (msqs s ! slot))"
  shows "msg_inv (set_q slot q s)"
proof -
  have len: "length (msqs s) = SYSV_MSGMNI" using assms(1) by (simp add: msg_inv_def)
  have ok: "\<forall>i<SYSV_MSGMNI. msq_ok ((msqs s)[slot := q] ! i)" using assms(1-3) len by (auto simp: msg_inv_def nth_list_update)
  have "keys_unique ((msqs s)[slot := q])"
    unfolding keys_unique_def length_list_update
  proof (intro allI impI)
    fix i j
    let ?q = "\<lambda>k. (msqs s)[slot := q] ! k"
    assume ij: "i < length (msqs s)" "j < length (msqs s)"
      and a: "q_used (?q i) \<and> q_used (?q j) \<and> p_key (q_perm (?q i)) = p_key (q_perm (?q j)) \<and> p_key (q_perm (?q i)) \<noteq> 0"
    have k: "q_used (msqs s ! k) \<and> p_key (q_perm (?q k)) = p_key (q_perm (msqs s ! k))" if "k < length (msqs s)" "q_used (?q k)" for k
      using assms(4) that by (cases "k = slot") auto
    show "i = j" using assms(1) ij a k [OF ij(1)] k [OF ij(2)] by (simp add: msg_inv_def keys_unique_def)
  qed
  then show ?thesis using assms(1) ok len by (simp add: msg_inv_def set_q_def)
qed

lemma msq_append_ok:
  assumes "msq_ok q" "q_used q" "msg_ok m" "\<not> msq_full q (of_nat (length (m_data m)))"
  shows "msq_ok (msq_append c now m q)"
proof -
  have "q_qnum q < SYSV_MSG_PER_QUEUE" using assms(4) by (simp add: msq_full_def not_le)
  then have "length (q_msgs q) < 1024" using unat_qnum [OF assms(1,2)] by (simp add: word_less_nat_alt)
  then show ?thesis using assms by (auto simp: msq_ok_def msq_append_def msg_bytes_def)
qed

lemma msgsnd_loop_inv:
  assumes "msgsnd_loop ws c now m flag slot sq s = Some (r, t)" "msg_inv s" "q_used (msqs s ! slot)" "slot < SYSV_MSGMNI" "msg_ok m"
    "\<forall>(s', w)\<in>set ws. msg_inv s'"
  shows "msg_inv t"
  using assms
proof (induction ws c now m flag slot sq s rule: msgsnd_loop.induct)
  case (1 ws c now m flag slot sq s)
  let ?q = "msqs s ! slot"
  show ?case
  proof (cases "msq_full ?q (of_nat (length (m_data m)))")
    case False
    then have "t = set_q slot (msq_append c now m ?q) s" using "1.prems"(1) by (subst (asm) msgsnd_loop.simps) (simp add: Let_def)
    then show ?thesis
      using set_q_inv [OF "1.prems"(2,4) msq_append_ok [OF msg_invD [OF "1.prems"(2,4)] "1.prems"(3,5) False]] "1.prems"(3)
      by (simp add: msq_append_def)
  next
    case full: True
    show ?thesis
    proof (cases "flag AND IPC_NOWAIT \<noteq> 0 \<or> ws = []")
      case True
      then show ?thesis using "1.prems"(1,2) full by (subst (asm) msgsnd_loop.simps) (auto simp: Let_def split: if_splits)
    next
      case False
      then obtain s' w ws' where ws: "ws = (s', w) # ws'" by (cases ws) auto
      have e: "(if \<not> q_used (msqs s' ! slot) \<or> p_seq (q_perm (msqs s' ! slot)) \<noteq> sq then Some (- EIDRM, s')
          else if w \<noteq> 0 then Some (w, s') else msgsnd_loop ws' c now m flag slot sq s') = Some (r, t)"
        using "1.prems"(1) full False unfolding ws by (subst (asm) msgsnd_loop.simps) (simp add: Let_def)
      have i: "msg_inv s'" using "1.prems"(6) ws by simp
      show ?thesis
      proof (cases "q_used (msqs s' ! slot) \<and> p_seq (q_perm (msqs s' ! slot)) = sq \<and> w = 0")
        case True
        then have "msgsnd_loop ws' c now m flag slot sq s' = Some (r, t)" using e by simp
        then show ?thesis using "1.IH" [OF refl full _ ws refl] False True i "1.prems" ws by auto
      next
        case False
        then show ?thesis using e i by (auto split: if_splits)
      qed
    qed
  qed
qed

text \<open>What the search finds.\<close>

definition rcv_choice :: "int \<Rightarrow> bool \<Rightarrow> sysv_msg list \<Rightarrow> nat \<Rightarrow> bool" where
  "rcv_choice type except ms i \<longleftrightarrow> i < length ms \<and>
     (if type = 0 then i = 0
      else if type > 0 then (m_type (ms ! i) \<noteq> type) = except \<and> (\<forall>j<i. (m_type (ms ! j) \<noteq> type) \<noteq> except)
      else m_type (ms ! i) \<le> - type \<and> (\<forall>j<length ms. m_type (ms ! i) \<le> m_type (ms ! j) \<or> m_type (ms ! j) > - type) \<and>
           (\<forall>j<i. m_type (ms ! j) \<noteq> m_type (ms ! i)))"

definition rcv_matches :: "int \<Rightarrow> bool \<Rightarrow> sysv_msg \<Rightarrow> bool" where
  "rcv_matches type except m =
     (if type = 0 then True else if type > 0 then (m_type m \<noteq> type) = except else m_type m \<le> - type)"

lemma pick_nonneg:
  assumes "0 \<le> type"
  shows "msgrcv_pick type except k None ms =
    (case find (\<lambda>i. rcv_matches type except (ms ! i)) [0..<length ms] of None \<Rightarrow> None | Some i \<Rightarrow> Some (k + i, ms ! i))"
  using assms
proof (induction ms arbitrary: k)
  case Nil
  then show ?case by simp
next
  case (Cons it its)
  have up: "[0..<length (it # its)] = 0 # map Suc [0..<length its]" by (simp add: upt_conv_Cons map_Suc_upt del: upt_Suc)
  have mf: "find P (map f xs) = map_option f (find (P \<circ> f) xs)" for P :: "nat \<Rightarrow> bool" and f xs by (induction xs) auto
  show ?case
  proof (cases "rcv_matches type except it")
    case True
    then show ?thesis using Cons.prems unfolding up by (auto simp: rcv_matches_def)
  next
    case False
    then have "msgrcv_pick type except k None (it # its) = msgrcv_pick type except (k + 1) None its"
      using Cons.prems by (auto simp: rcv_matches_def split: if_splits)
    then show ?thesis unfolding up using False Cons.IH [OF Cons.prems, of "k + 1"] by (auto simp: mf o_def split: option.splits)
  qed
qed

text \<open>The search for the lowest type: \<open>b\<close> is the best of the messages before position \<open>k\<close>.\<close>

definition best_at :: "int \<Rightarrow> sysv_msg list \<Rightarrow> nat \<Rightarrow> nat \<Rightarrow> sysv_msg \<Rightarrow> bool" where
  "best_at type ms k i m \<longleftrightarrow> i < k \<and> m = ms ! i \<and> m_type m \<le> - type \<and>
     (\<forall>j<k. m_type m \<le> m_type (ms ! j) \<or> m_type (ms ! j) > - type) \<and> (\<forall>j<i. m_type (ms ! j) \<noteq> m_type m)"

definition best_of :: "int \<Rightarrow> sysv_msg list \<Rightarrow> nat \<Rightarrow> (nat \<times> sysv_msg) option \<Rightarrow> bool" where
  "best_of type ms k b \<longleftrightarrow>
     (case b of None \<Rightarrow> \<forall>j<k. m_type (ms ! j) > - type | Some (i, m) \<Rightarrow> best_at type ms k i m)"

definition better :: "int \<Rightarrow> (nat \<times> sysv_msg) option \<Rightarrow> sysv_msg \<Rightarrow> bool" where
  "better type b it \<longleftrightarrow> m_type it \<le> - type \<and> (case b of None \<Rightarrow> True | Some (_, m) \<Rightarrow> m_type it < m_type m)"

lemma best_of_better:
  assumes "best_of type ms k b" "better type b (ms ! k)"
  shows "best_of type ms (Suc k) (Some (k, ms ! k))"
proof -
  have "m_type (ms ! k) < m_type (ms ! j) \<or> m_type (ms ! j) > - type" if "j < k" for j
  proof (cases b)
    case None
    then show ?thesis using assms(1) that by (auto simp: best_of_def)
  next
    case (Some im)
    then show ?thesis using assms that by (cases im) (force simp: best_of_def best_at_def better_def)
  qed
  then show ?thesis using assms(2) by (force simp: best_of_def best_at_def better_def less_Suc_eq)
qed

lemma best_of_keep:
  assumes "best_of type ms k b" "\<not> better type b (ms ! k)"
  shows "best_of type ms (Suc k) b"
proof (cases b)
  case None
  then show ?thesis using assms by (auto simp: best_of_def better_def less_Suc_eq)
next
  case (Some im)
  then show ?thesis using assms by (cases im) (auto simp: best_of_def best_at_def better_def less_Suc_eq)
qed

lemma pick_neg:
  assumes "type < 0" "best_of type ms k b" "k \<le> length ms"
  shows "best_of type ms (length ms) (msgrcv_pick type except k b (drop k ms))"
  using assms
proof (induction "length ms - k" arbitrary: k b)
  case 0
  then show ?case by simp
next
  case (Suc n)
  let ?it = "ms ! k"
  have d: "drop k ms = ?it # drop (Suc k) ms" using Suc.hyps(2) by (intro Cons_nth_drop_Suc [symmetric]) simp
  have e: "msgrcv_pick type except k b (drop k ms) =
      msgrcv_pick type except (Suc k) (if better type b ?it then Some (k, ?it) else b) (drop (Suc k) ms)"
    unfolding d using Suc.prems(1) by (simp add: better_def)
  have k: "n = length ms - Suc k" "Suc k \<le> length ms" using Suc.hyps(2) by simp_all
  have "best_of type ms (Suc k) (if better type b ?it then Some (k, ?it) else b)"
    using best_of_better [OF Suc.prems(2)] best_of_keep [OF Suc.prems(2)] by simp
  then show ?case unfolding e by (rule Suc.hyps(1) [OF k(1) Suc.prems(1) _ k(2)])
qed

lemma msgrcv_pick_spec:
  "case msgrcv_pick type except 0 None ms of None \<Rightarrow> \<forall>m\<in>set ms. \<not> rcv_matches type except m
    | Some (i, m) \<Rightarrow> m = ms ! i \<and> rcv_choice type except ms i"
proof (cases "type < 0")
  case True
  have "best_of type ms (length ms) (msgrcv_pick type except 0 None (drop 0 ms))"
    using True by (intro pick_neg) (auto simp: best_of_def)
  then show ?thesis
    using True by (auto simp: best_of_def best_at_def rcv_choice_def rcv_matches_def all_set_conv_all_nth split: option.splits)
next
  case False
  let ?f = "find (\<lambda>i. rcv_matches type except (ms ! i)) [0..<length ms]"
  show ?thesis
  proof (cases ?f)
    case None
    then have "\<forall>i<length ms. \<not> rcv_matches type except (ms ! i)" by (simp only: find_upt0_None)
    moreover have "msgrcv_pick type except 0 None ms = None" using pick_nonneg [of type except 0 ms] False None by simp
    ultimately show ?thesis by (simp add: all_set_conv_all_nth)
  next
    case (Some i)
    then have i: "i < length ms" "rcv_matches type except (ms ! i)" "\<forall>j<i. \<not> rcv_matches type except (ms ! j)"
      by (auto simp: find_upt_Some)
    have "rcv_choice type except ms i" unfolding rcv_choice_def using i False by (cases "type = 0") (auto simp: rcv_matches_def)
    moreover have "msgrcv_pick type except 0 None ms = Some (i, ms ! i)" using pick_nonneg [of type except 0 ms] False Some by simp
    ultimately show ?thesis by simp
  qed
qed

lemma remove_at_split: "i < length xs \<Longrightarrow> xs = take i xs @ xs ! i # drop (Suc i) xs"
  by (simp add: id_take_nth_drop)

lemma length_remove_at: "i < length xs \<Longrightarrow> length (remove_at i xs) = length xs - 1"
  by (simp add: remove_at_def)

lemma msg_bytes_remove: "i < length ms \<Longrightarrow> msg_bytes ms = msg_bytes (remove_at i ms) + length (m_data (ms ! i))"
  by (subst remove_at_split, assumption) (simp add: msg_bytes_def remove_at_def)

lemma set_remove_at: "set (remove_at i xs) \<subseteq> set xs"
  by (auto simp: remove_at_def dest: in_set_takeD in_set_dropD)

lemma msq_take_ok:
  assumes "msq_ok q" "q_used q" "i < length (q_msgs q)"
  shows "msq_ok (msq_take c now i (q_msgs q ! i) q)"
proof -
  have "q_cbytes q - of_nat (length (m_data (q_msgs q ! i))) = of_nat (msg_bytes (remove_at i (q_msgs q)))"
    using assms(1,2) msg_bytes_remove [OF assms(3)] by (simp add: msq_ok_def)
  moreover have "q_qnum q - 1 = of_nat (length (remove_at i (q_msgs q)))"
    using assms by (simp add: msq_ok_def length_remove_at of_nat_diff)
  ultimately show ?thesis
    using assms set_remove_at [of i "q_msgs q"] by (auto simp: msq_ok_def msq_take_def length_remove_at)
qed

lemma msgrcv_deliver_cases:
  assumes "msgrcv_deliver c now um umsg sz flag slot i m s = (r, um', t)" "msg_ok m"
  obtains (err) "r < 0" "t = s" "r = - E2BIG \<longleftrightarrow> length (m_data m) > unat sz \<and> flag AND MSG_NOERROR = 0" "r = - E2BIG \<or> r = - EFAULT"
  | (ok) "r = int (min (length (m_data m)) (unat sz))" "t = set_q slot (msq_take c now i m (msqs s ! slot)) s"
      "length (m_data m) \<le> unat sz \<or> flag AND MSG_NOERROR \<noteq> 0"
      "user_bytes um' umsg (4 + nat r) = le_enc 4 (m_type m) @ take (nat r) (m_data m)"
proof -
  let ?n = "min (length (m_data m)) (unat sz)"
  show thesis
  proof (cases "length (m_data m) > unat sz \<and> flag AND MSG_NOERROR = 0")
    case True
    then show ?thesis using assms(1) by (intro err) (auto simp: msgrcv_deliver_def)
  next
    case nb: False
    obtain r1 um1 where c1: "copy_to_user um umsg (le_enc 4 (m_type m)) = (r1, um1)" by fastforce
    show ?thesis
    proof (cases "r1 < 0")
      case True
      then show ?thesis using assms(1) nb c1 by (intro err) (auto simp: msgrcv_deliver_def Let_def split: if_splits)
    next
      case r1: False
      then have z1: "r1 = 0" using copy_to_user_cases [OF c1] by auto
      have small: "unat sz < 2 ^ 32" using unsigned_less [of sz] by simp
      show ?thesis
      proof (cases "?n = 0")
        case True
        then have "r = 0" "um' = um1" "t = set_q slot (msq_take c now i m (msqs s ! slot)) s"
          using assms(1) nb c1 r1 by (auto simp: msgrcv_deliver_def Let_def split: if_splits)
        then show ?thesis using True nb copy_to_user_bytes [OF c1 [unfolded z1]] by (intro ok) auto
      next
        case False
        obtain r2 um2 where c2: "copy_to_user um1 (umsg + 4) (take ?n (m_data m)) = (r2, um2)" by fastforce
        have e: "(r, um', t) = (if r2 < 0 then (- EFAULT, um2, s) else (int ?n, um2, set_q slot (msq_take c now i m (msqs s ! slot)) s))"
          using assms(1) nb c1 r1 c2 False unfolding msgrcv_deliver_def Let_def by (auto simp del: copy_to_user_def)
        show ?thesis
        proof (cases "r2 < 0")
          case True
          then show ?thesis using e nb by (intro err) auto
        next
          case False
          then have z2: "r2 = 0" using copy_to_user_cases [OF c2] by auto
          have "user_bytes um2 umsg (length (le_enc 4 (m_type m)) + length (take ?n (m_data m))) = le_enc 4 (m_type m) @ take ?n (m_data m)"
            by (rule copy_to_user_bytes2 [OF c1 [unfolded z1]]) (use c2 z2 assms(2) in \<open>auto simp: msg_ok_def\<close>)
          then show ?thesis using e False nb by (intro ok) (auto simp: min_def)
        qed
      qed
    qed
  qed
qed

lemma msgrcv_deliver_inv:
  assumes "msgrcv_deliver c now um umsg sz flag slot i m s = (r, um', t)" "msg_inv s" "slot < SYSV_MSGMNI"
    "q_used (msqs s ! slot)" "msgrcv_pick type ex 0 None (q_msgs (msqs s ! slot)) = Some (i, m)"
  shows "msg_inv t"
proof -
  have im: "m = q_msgs (msqs s ! slot) ! i" "i < length (q_msgs (msqs s ! slot))"
    using msgrcv_pick_spec [where type = type and except = ex and ms = "q_msgs (msqs s ! slot)"] assms(5) by (auto simp: rcv_choice_def)
  have "msg_ok m" using msg_invD [OF assms(2,3)] assms(4) im by (auto simp: msq_ok_def)
  from assms(1) this show ?thesis
  proof (cases rule: msgrcv_deliver_cases)
    case err
    then show ?thesis using assms(2) by simp
  next
    case ok
    show ?thesis unfolding ok(2) im(1)
      by (rule set_q_inv [OF assms(2,3) msq_take_ok [OF msg_invD [OF assms(2,3)] assms(4) im(2)]]) (simp_all add: msq_take_def assms(4))
  qed
qed

lemma msgrcv_loop_inv:
  assumes "msgrcv_loop ws c now um umsg sz type flag slot sq s = Some (r, um', t)" "msg_inv s" "q_used (msqs s ! slot)" "slot < SYSV_MSGMNI"
    "\<forall>(s', w)\<in>set ws. msg_inv s'"
  shows "msg_inv t"
  using assms
proof (induction ws c now um umsg sz type flag slot sq s rule: msgrcv_loop.induct)
  case (1 ws c now um umsg sz type flag slot sq s)
  let ?p = "msgrcv_pick type (flag AND MSG_EXCEPT \<noteq> 0) 0 None (q_msgs (msqs s ! slot))"
  show ?case
  proof (cases ?p)
    case (Some im)
    obtain i m where im: "im = (i, m)" by (cases im)
    then have "msgrcv_deliver c now um umsg sz flag slot i m s = (r, um', t)"
      using "1.prems"(1) Some by (subst (asm) msgrcv_loop.simps) simp
    then show ?thesis using msgrcv_deliver_inv "1.prems"(2,3,4) Some im by blast
  next
    case none: None
    show ?thesis
    proof (cases "flag AND IPC_NOWAIT \<noteq> 0 \<or> ws = []")
      case True
      then show ?thesis using "1.prems"(1,2) none by (subst (asm) msgrcv_loop.simps) (auto split: if_splits)
    next
      case False
      then obtain s' w ws' where ws: "ws = (s', w) # ws'" by (cases ws) auto
      have e: "(if \<not> q_used (msqs s' ! slot) \<or> p_seq (q_perm (msqs s' ! slot)) \<noteq> sq then Some (- EIDRM, um, s')
          else if w \<noteq> 0 then Some (w, um, s') else msgrcv_loop ws' c now um umsg sz type flag slot sq s') = Some (r, um', t)"
        using "1.prems"(1) none False unfolding ws by (subst (asm) msgrcv_loop.simps) simp
      have i: "msg_inv s'" using "1.prems"(5) ws by simp
      show ?thesis
      proof (cases "q_used (msqs s' ! slot) \<and> p_seq (q_perm (msqs s' ! slot)) = sq \<and> w = 0")
        case True
        then have "msgrcv_loop ws' c now um umsg sz type flag slot sq s' = Some (r, um', t)" using e by simp
        then show ?thesis using "1.IH" [OF none _ ws refl] False True i "1.prems" ws by auto
      next
        case False
        then show ?thesis using e i by (auto split: if_splits)
      qed
    qed
  qed
qed

lemma do_msgget_inv:
  assumes "msg_inv s" "do_msgget c now s key flag = (r, t)"
  shows "msg_inv t"
proof -
  let ?P = "\<lambda>i. q_used (msqs s ! i) \<and> p_key (q_perm (msqs s ! i)) = key"
  consider (same) "t = s"
    | (new) slot where "find (\<lambda>i. \<not> q_used (msqs s ! i)) [0..<SYSV_MSGMNI] = Some slot" "key \<noteq> 0 \<longrightarrow> find ?P [0..<SYSV_MSGMNI] = None"
      "t = (set_q slot (msq_zero\<lparr>q_used := True, q_perm := perm_init c key flag (msg_seq_next s), q_qbytes := SYSV_MSGMNB, q_ctime := now\<rparr>) s)
        \<lparr>msg_seq_next := seq_advance (msg_seq_next s)\<rparr>"
    using assms(2) unfolding do_msgget_def Let_def by (auto split: option.splits if_splits)
  then show ?thesis
  proof cases
    case same
    then show ?thesis using assms(1) by simp
  next
    case new
    let ?q = "msq_zero\<lparr>q_used := True, q_perm := perm_init c key flag (msg_seq_next s), q_qbytes := SYSV_MSGMNB, q_ctime := now\<rparr>"
    have slot: "slot < SYSV_MSGMNI" "\<not> q_used (msqs s ! slot)" using find_upt0_Some [OF new(1)] by auto
    have len: "length (msqs s) = SYSV_MSGMNI" and sq: "1 \<le> msg_seq_next s" "msg_seq_next s < 0x7FFF"
      and ok: "\<forall>i<SYSV_MSGMNI. msq_ok (msqs s ! i)" and ku: "keys_unique (msqs s)"
      using assms(1) by (auto simp: msg_inv_def)
    have nk: "key = 0 \<or> (\<forall>i<SYSV_MSGMNI. \<not> ?P i)" using new(2) by (auto simp: find_upt0_None)
    have q: "msq_ok ?q" using sq by (simp add: msq_ok_def msq_zero_def perm_init_def msg_bytes_def)
    have "keys_unique ((msqs s)[slot := ?q])"
      unfolding keys_unique_def length_list_update len
    proof (intro allI impI)
      fix i j
      let ?Q = "\<lambda>k. (msqs s)[slot := ?q] ! k"
      assume ij: "i < SYSV_MSGMNI" "j < SYSV_MSGMNI"
        and a: "q_used (?Q i) \<and> q_used (?Q j) \<and> p_key (q_perm (?Q i)) = p_key (q_perm (?Q j)) \<and> p_key (q_perm (?Q i)) \<noteq> 0"
      have new_key: "?Q slot = ?q" "p_key (q_perm ?q) = key" using slot len by (simp_all add: perm_init_def)
      have old: "?Q k = msqs s ! k" if "k \<noteq> slot" for k using that by simp
      show "i = j"
      proof (rule ccontr)
        assume ne: "i \<noteq> j"
        have "i \<noteq> slot" "j \<noteq> slot" using a ne nk ij new_key old by metis+
        then show False using a ne ku ij len old unfolding keys_unique_def by metis
      qed
    qed
    moreover have "\<forall>i<SYSV_MSGMNI. msq_ok ((msqs s)[slot := ?q] ! i)"
    proof (intro allI impI)
      fix i assume "i < SYSV_MSGMNI"
      then show "msq_ok ((msqs s)[slot := ?q] ! i)" using ok q len slot(1) by (cases "i = slot") simp_all
    qed
    ultimately show ?thesis using seq_advance_range [OF sq] len unfolding new(3) by (simp add: msg_inv_def set_q_def)
  qed
qed

lemma msgctl_slot_inv:
  assumes "msg_inv s" "slot < SYSV_MSGMNI" "q_used (msqs s ! slot)" "msgctl_slot c now um s cmd ubuf ret slot = (r, um', t)"
  shows "msg_inv t"
proof -
  have ok: "msq_ok (msqs s ! slot)" by (rule msg_invD [OF assms(1,2)])
  consider "t = s" | d qb where "t = set_q slot ((msqs s ! slot)\<lparr>q_perm := perm_set (q_perm (msqs s ! slot)) d, q_qbytes := qb, q_ctime := now\<rparr>) s"
    | "t = msq_remove slot s"
    using assms(4) unfolding msgctl_slot_def Let_def by (auto split: if_splits prod.splits)
  then show ?thesis
  proof cases
    case 2
    show ?thesis unfolding 2 by (rule set_q_inv [OF assms(1,2)]) (use ok assms(3) in \<open>auto simp: msq_ok_def\<close>)
  next
    case 3
    show ?thesis unfolding 3 msq_remove_def by (rule set_q_inv [OF assms(1,2)]) (auto simp: msq_ok_def)
  qed (simp add: assms(1))
qed

lemma msq_by_id_used: "msq_by_id s x = Some slot \<Longrightarrow> slot < SYSV_MSGMNI \<and> q_used (msqs s ! slot)"
  by (auto simp: msq_by_id_def Let_def split: if_splits)

lemma msgctl_nat_inv:
  "msg_inv s \<Longrightarrow> \<not> x < 0 \<Longrightarrow> \<not> 64 \<le> x \<Longrightarrow> q_used (msqs s ! nat x) \<Longrightarrow>
    msgctl_slot c now um s cmd ubuf ret (nat x) = (r, um', t) \<Longrightarrow> msg_inv t"
  by (rule msgctl_slot_inv [of s "nat x"]) auto

lemma do_msgctl_inv: "msg_inv s \<Longrightarrow> do_msgctl c now um s x cmd ubuf = (r, um', t) \<Longrightarrow> msg_inv t"
  unfolding do_msgctl_def Let_def
  by (auto split: if_splits option.splits prod.splits dest!: msq_by_id_used intro: msgctl_slot_inv msgctl_nat_inv)

text \<open>A call that got as far as its wait loop has built a good message.\<close>

lemma do_msgsnd_loop:
  assumes "do_msgsnd ws mem c now um s x umsg sz flag = Some (r, t)"
  obtains (early) "r < 0" "t = s"
  | (loop) slot m where "msq_by_id s x = Some slot" "msg_ok m" "m_type m = sint (le_bytes (user_bytes um umsg 4) :: u32)"
      "m_data m = user_bytes um (umsg + 4) (unat sz)" "ipcperms c (q_perm (msqs s ! slot)) 0x92 = 0"
      "msgsnd_loop ws c now m flag slot (p_seq (q_perm (msqs s ! slot))) s = Some (r, t)"
proof -
  obtain r1 bs where c1: "copy_from_user um umsg 4 = (r1, bs)" by fastforce
  obtain r2 data where c2: "(if sz \<noteq> 0 then copy_from_user um (umsg + 4) (unat sz) else (0, [])) = (r2, data)" by fastforce
  let ?type = "sint (le_bytes bs :: u32)"
  show thesis
  proof (cases "sint sz < 0 \<or> sz > SYSV_MSGMAX \<or> r1 < 0 \<or> ?type < 1 \<or> \<not> mem \<or> r2 < 0 \<or> msq_by_id s x = None")
    case True
    then show ?thesis using assms c1 c2 by (intro early) (auto simp: do_msgsnd_def Let_def split: if_splits)
  next
    case False
    then obtain slot where slot: "msq_by_id s x = Some slot" by auto
    have r1: "r1 = 0 \<and> bs = user_bytes um umsg 4" using copy_from_user_result [OF c1] False by auto
    have r2: "data = user_bytes um (umsg + 4) (unat sz)"
      using c2 copy_from_user_result [of um "umsg + 4" "unat sz" r2 data] False by (auto simp: user_bytes_def split: if_splits)
    have len: "unat sz \<le> 8192" using False by (simp add: word_le_nat_alt not_less)
    show ?thesis
    proof (cases "ipcperms c (q_perm (msqs s ! slot)) 0x92 = 0")
      case True
      then have "msgsnd_loop ws c now \<lparr>m_type = ?type, m_data = data\<rparr> flag slot (p_seq (q_perm (msqs s ! slot))) s = Some (r, t)"
        using assms c1 c2 False slot by (auto simp: do_msgsnd_def Let_def split: if_splits)
      then show ?thesis using slot r1 r2 len False True
        by (intro loop [of slot "\<lparr>m_type = ?type, m_data = data\<rparr>"]) (auto simp: msg_ok_def)
    next
      case False
      then show ?thesis using assms c1 c2 slot \<open>\<not> (sint sz < 0 \<or> _)\<close> by (intro early) (auto simp: do_msgsnd_def Let_def split: if_splits)
    qed
  qed
qed

section \<open>The calls as steps\<close>

text \<open>
  Each call is one atomic section from its entry to its return or first sleep, and one more after
  every wakeup. A woken call finds the table \<open>s\<close>; it had blocked on some earlier table \<open>s0\<close>.
\<close>

inductive msg_step :: "msg_state \<Rightarrow> msg_state \<Rightarrow> bool" where
  get: "do_msgget c now s key flag = (r, t) \<Longrightarrow> msg_step s t"
| ctl: "do_msgctl c now um s x cmd ubuf = (r, um', t) \<Longrightarrow> msg_step s t"
| snd: "do_msgsnd [] mem c now um s x umsg sz flag = Some (r, t) \<Longrightarrow> msg_step s t"
| snd_wake: "slot < SYSV_MSGMNI \<Longrightarrow> msg_ok m \<Longrightarrow> msgsnd_loop [] c now m flag slot sq s0 = None \<Longrightarrow>
    msgsnd_loop [(s, w)] c now m flag slot sq s0 = Some (r, t) \<Longrightarrow> msg_step s t"
| rcv: "do_msgrcv [] c now um s x umsg sz type flag = Some (r, um', t) \<Longrightarrow> msg_step s t"
| rcv_wake: "slot < SYSV_MSGMNI \<Longrightarrow> msgrcv_loop [] c now um umsg sz type flag slot sq s0 = None \<Longrightarrow>
    msgrcv_loop [(s, w)] c now um umsg sz type flag slot sq s0 = Some (r, um', t) \<Longrightarrow> msg_step s t"

lemma msgsnd_loop_blocked:
  assumes "msgsnd_loop [] c now m flag slot sq s0 = None"
  shows "msgsnd_loop ((s, w) # ws) c now m flag slot sq s0 =
    (if \<not> q_used (msqs s ! slot) \<or> p_seq (q_perm (msqs s ! slot)) \<noteq> sq then Some (- EIDRM, s)
     else if w \<noteq> 0 then Some (w, s) else msgsnd_loop ws c now m flag slot sq s)"
proof -
  have "msq_full (msqs s0 ! slot) (of_nat (length (m_data m)))" "flag AND IPC_NOWAIT = 0"
    using assms by (subst (asm) msgsnd_loop.simps, simp add: Let_def split: if_splits)+
  then show ?thesis by (subst msgsnd_loop.simps) (simp add: Let_def)
qed

lemma msgrcv_loop_blocked:
  assumes "msgrcv_loop [] c now um umsg sz type flag slot sq s0 = None"
  shows "msgrcv_loop ((s, w) # ws) c now um umsg sz type flag slot sq s0 =
    (if \<not> q_used (msqs s ! slot) \<or> p_seq (q_perm (msqs s ! slot)) \<noteq> sq then Some (- EIDRM, um, s)
     else if w \<noteq> 0 then Some (w, um, s) else msgrcv_loop ws c now um umsg sz type flag slot sq s)"
proof -
  have "msgrcv_pick type (flag AND MSG_EXCEPT \<noteq> 0) 0 None (q_msgs (msqs s0 ! slot)) = None" "flag AND IPC_NOWAIT = 0"
    using assms by (subst (asm) msgrcv_loop.simps, simp split: if_splits option.splits prod.splits)+
  then show ?thesis by (subst msgrcv_loop.simps) simp
qed

lemma do_msgsnd_inv:
  assumes "msg_inv s" "do_msgsnd ws mem c now um s x umsg sz flag = Some (r, t)" "\<forall>(s', w)\<in>set ws. msg_inv s'"
  shows "msg_inv t"
  using assms(2)
proof (cases rule: do_msgsnd_loop)
  case early
  then show ?thesis using assms(1) by simp
next
  case (loop slot m)
  then show ?thesis using msgsnd_loop_inv [OF loop(6) assms(1) _ _ loop(2) assms(3)] msq_by_id_used [OF loop(1)] by simp
qed

lemma do_msgrcv_inv:
  assumes "msg_inv s" "do_msgrcv ws c now um s x umsg sz type flag = Some (r, um', t)" "\<forall>(s', w)\<in>set ws. msg_inv s'"
  shows "msg_inv t"
proof -
  consider "t = s" | slot where "msq_by_id s x = Some slot"
      "msgrcv_loop ws c now um umsg sz type flag slot (p_seq (q_perm (msqs s ! slot))) s = Some (r, um', t)"
    using assms(2) by (auto simp: do_msgrcv_def split: if_splits option.splits)
  then show ?thesis
  proof cases
    case 2
    then show ?thesis using msgrcv_loop_inv [OF 2(2) assms(1) _ _ assms(3)] msq_by_id_used [OF 2(1)] by simp
  qed (simp add: assms(1))
qed

lemma msg_step_inv: "msg_step s t \<Longrightarrow> msg_inv s \<Longrightarrow> msg_inv t"
proof (induction rule: msg_step.induct)
  case (snd_wake slot m c now flag sq s0 s w r t)
  have e: "(if \<not> q_used (msqs s ! slot) \<or> p_seq (q_perm (msqs s ! slot)) \<noteq> sq then Some (- EIDRM, s)
     else if w \<noteq> 0 then Some (w, s) else msgsnd_loop [] c now m flag slot sq s) = Some (r, t)"
    using msgsnd_loop_blocked [OF snd_wake(3)] snd_wake(4) by simp
  show ?case
  proof (cases "q_used (msqs s ! slot) \<and> p_seq (q_perm (msqs s ! slot)) = sq \<and> w = 0")
    case True
    then show ?thesis using e msgsnd_loop_inv [of "[]"] snd_wake(1,2,5) by simp
  next
    case False
    then show ?thesis using e snd_wake(5) by (auto split: if_splits)
  qed
next
  case (rcv_wake slot c now um umsg sz type flag sq s0 s w r um' t)
  have e: "(if \<not> q_used (msqs s ! slot) \<or> p_seq (q_perm (msqs s ! slot)) \<noteq> sq then Some (- EIDRM, um, s)
     else if w \<noteq> 0 then Some (w, um, s) else msgrcv_loop [] c now um umsg sz type flag slot sq s) = Some (r, um', t)"
    using msgrcv_loop_blocked [OF rcv_wake(2)] rcv_wake(3) by simp
  show ?case
  proof (cases "q_used (msqs s ! slot) \<and> p_seq (q_perm (msqs s ! slot)) = sq \<and> w = 0")
    case True
    then have "msgrcv_loop [] c now um umsg sz type flag slot sq s = Some (r, um', t)" using e by simp
    then show ?thesis using msgrcv_loop_inv [of "[]"] rcv_wake(1,4) True by simp
  next
    case False
    then show ?thesis using e rcv_wake(4) by (auto split: if_splits)
  qed
qed (auto intro: do_msgget_inv do_msgctl_inv do_msgsnd_inv do_msgrcv_inv)

interpretation msg_system: transition_invariant "\<lambda>s. s = msg_boot" msg_step msg_inv
proof
  fix s assume "s = msg_boot"
  then show "msg_inv s" by (auto simp: msg_boot_def msg_inv_def msq_ok_def msq_zero_def keys_unique_def)
next
  fix s t assume "msg_inv s" "msg_step s t"
  then show "msg_inv t" by (rule msg_step_inv [rotated])
qed

section \<open>Properties\<close>

lemma msg_reach: "msg_step\<^sup>*\<^sup>* msg_boot s \<Longrightarrow> msg_inv s"
  by (rule msg_system.inv_reachable [OF refl])

lemma msgrcv_pick_found:
  assumes "msg_inv s" "slot < SYSV_MSGMNI" "q_used (msqs s ! slot)"
    "msgrcv_pick type ex 0 None (q_msgs (msqs s ! slot)) = Some (i, m)"
  shows "rcv_choice type ex (q_msgs (msqs s ! slot)) i" "m = q_msgs (msqs s ! slot) ! i" "msg_ok m"
proof -
  show c: "rcv_choice type ex (q_msgs (msqs s ! slot)) i" and m: "m = q_msgs (msqs s ! slot) ! i"
    using msgrcv_pick_spec [where type = type and except = ex and ms = "q_msgs (msqs s ! slot)"] assms(4) by auto
  show "msg_ok m" using msg_invD [OF assms(1,2)] assms(3) c m by (auto simp: msq_ok_def rcv_choice_def)
qed

text \<open>What one receiving section does to the table it runs on.\<close>

definition rcv_effect :: "u32 \<Rightarrow> u32 \<Rightarrow> int \<Rightarrow> u32 \<Rightarrow> nat \<Rightarrow> msg_state \<Rightarrow> int \<Rightarrow> umem \<Rightarrow> msg_state \<Rightarrow> bool" where
  "rcv_effect umsg sz type flag slot u r um' t \<longleftrightarrow>
     (if r < 0 then t = u
      else \<exists>i. let ms = q_msgs (msqs u ! slot); m = ms ! i in
        rcv_choice type (flag AND MSG_EXCEPT \<noteq> 0) ms i \<and> r = int (min (length (m_data m)) (unat sz)) \<and>
        user_bytes um' umsg (4 + nat r) = le_enc 4 (m_type m) @ take (nat r) (m_data m) \<and>
        q_msgs (msqs t ! slot) = take i ms @ drop (Suc i) ms \<and> (\<forall>k. k \<noteq> slot \<longrightarrow> msqs t ! k = msqs u ! k))"

lemma deliver_effect:
  assumes "msg_inv u" "slot < SYSV_MSGMNI" "q_used (msqs u ! slot)"
    "msgrcv_pick type (flag AND MSG_EXCEPT \<noteq> 0) 0 None (q_msgs (msqs u ! slot)) = Some (i, m)"
    "msgrcv_deliver c now um umsg sz flag slot i m u = (r, um', t)"
  shows "rcv_effect umsg sz type flag slot u r um' t"
proof -
  note f = msgrcv_pick_found [OF assms(1-4)]
  have len: "length (msqs u) = SYSV_MSGMNI" using assms(1) by (simp add: msg_inv_def)
  from assms(5) f(3) show ?thesis
  proof (cases rule: msgrcv_deliver_cases)
    case err
    then show ?thesis by (simp add: rcv_effect_def)
  next
    case ok
    have "\<not> r < 0" using ok(1) by simp
    then show ?thesis using ok f(1,2) assms(2) len unfolding rcv_effect_def Let_def
      by (simp only: if_False) (intro exI [of _ i], auto simp: set_q_def msq_take_def remove_at_def)
  qed
qed

lemma rcv_section:
  assumes "msgrcv_loop ws c now um umsg sz type flag slot sq s = Some (r, um', t)" "msg_inv s" "q_used (msqs s ! slot)" "slot < SYSV_MSGMNI"
    and "rcv_effect umsg sz type flag slot s r um' t \<Longrightarrow> P"
    and "\<And>s' w ws'. ws = (s', w) # ws' \<Longrightarrow>
      (if \<not> q_used (msqs s' ! slot) \<or> p_seq (q_perm (msqs s' ! slot)) \<noteq> sq then Some (- EIDRM, um, s')
       else if w \<noteq> 0 then Some (w, um, s') else msgrcv_loop ws' c now um umsg sz type flag slot sq s') = Some (r, um', t) \<Longrightarrow> P"
  shows P
proof (cases "msgrcv_pick type (flag AND MSG_EXCEPT \<noteq> 0) 0 None (q_msgs (msqs s ! slot))")
  case (Some im)
  obtain i m where im: "im = (i, m)" by (cases im)
  then have "msgrcv_deliver c now um umsg sz flag slot i m s = (r, um', t)"
    using assms(1) Some by (subst (asm) msgrcv_loop.simps) simp
  then show ?thesis using deliver_effect [OF assms(2,4,3)] Some im assms(5) by blast
next
  case none: None
  show ?thesis
  proof (cases "flag AND IPC_NOWAIT \<noteq> 0")
    case True
    then have "r = - ENOMSG" "t = s" using assms(1) none by (subst (asm) msgrcv_loop.simps, simp)+
    then show ?thesis using assms(5) by (simp add: rcv_effect_def)
  next
    case False
    show ?thesis
    proof (cases ws)
      case Nil
      then show ?thesis using assms(1) none False by (subst (asm) msgrcv_loop.simps) simp
    next
      case (Cons a ws')
      obtain s' w where a: "a = (s', w)" by (cases a)
      show ?thesis using assms(1) none False unfolding Cons a by (intro assms(6) [unfolded Cons a, OF refl]) (subst (asm) msgrcv_loop.simps, simp)
    qed
  qed
qed

lemma msgrcv_loop_effect:
  assumes "msgrcv_loop ws c now um umsg sz type flag slot sq s = Some (r, um', t)" "msg_inv s" "q_used (msqs s ! slot)" "slot < SYSV_MSGMNI"
    "\<forall>(s', w)\<in>set ws. msg_inv s' \<and> w \<le> 0"
  shows "\<exists>u\<in>insert s (fst ` set ws). rcv_effect umsg sz type flag slot u r um' t"
  using assms
proof (induction ws arbitrary: s)
  case Nil
  from Nil.prems(1-4) show ?case by (rule rcv_section) auto
next
  case (Cons a ws)
  obtain s' w where a: "a = (s', w)" by (cases a)
  from Cons.prems(1-4) show ?case
  proof (rule rcv_section)
    fix s2 w2 ws2
    assume b: "a # ws = (s2, w2) # ws2" "(if \<not> q_used (msqs s2 ! slot) \<or> p_seq (q_perm (msqs s2 ! slot)) \<noteq> sq then Some (- EIDRM, um, s2)
          else if w2 \<noteq> 0 then Some (w2, um, s2) else msgrcv_loop ws2 c now um umsg sz type flag slot sq s2) = Some (r, um', t)"
    have i: "msg_inv s2" "w2 \<le> 0" using Cons.prems(5) b(1) by auto
    show ?thesis
    proof (cases "q_used (msqs s2 ! slot) \<and> p_seq (q_perm (msqs s2 ! slot)) = sq \<and> w2 = 0")
      case True
      then have "\<exists>u\<in>insert s2 (fst ` set ws). rcv_effect umsg sz type flag slot u r um' t"
        using b Cons.prems(4,5) i by (intro Cons.IH) auto
      then show ?thesis using b(1) by auto
    next
      case False
      then have "t = s2" "r < 0" using b(2) i by (auto split: if_splits)
      then show ?thesis using b(1) by (auto simp: rcv_effect_def)
    qed
  qed auto
qed



text \<open>C31: What is sent is received: when a send of \<open>sz\<close> bytes returns 0 the message is the last of its
  queue, with exactly the bytes at the sender's address, and when the queue was empty a successful
  receive of any type with the same size leaves the same type and data bytes at the receiver's
  address.\<close>

theorem msg_round_trip:
  assumes "msg_step\<^sup>*\<^sup>* msg_boot s" "do_msgsnd [] mem c now um s x src sz flag = Some (0, t)" "msq_by_id s x = Some slot"
  shows "q_msgs (msqs t ! slot) = q_msgs (msqs s ! slot) @
      [\<lparr>m_type = sint (le_bytes (user_bytes um src 4) :: u32), m_data = user_bytes um (src + 4) (unat sz)\<rparr>] \<and>
    (q_msgs (msqs s ! slot) = [] \<longrightarrow> do_msgrcv [] c2 now2 um2 t x dst sz 0 flag2 = Some (r, um3, t2) \<longrightarrow> 0 \<le> r \<longrightarrow>
       r = int (unat sz) \<and> user_bytes um3 dst (4 + unat sz) = user_bytes um src (4 + unat sz) \<and> q_msgs (msqs t2 ! slot) = [])"
  using assms(2)
proof (cases rule: do_msgsnd_loop)
  case early
  then show ?thesis by simp
next
  case (loop slot' m)
  have inv: "msg_inv s" by (rule msg_reach [OF assms(1)])
  have sl: "slot' = slot" using loop(1) assms(3) by simp
  have lt: "slot < SYSV_MSGMNI" "slot < length (msqs s)" using msq_by_id_used [OF assms(3)] inv by (simp_all add: msg_inv_def)
  let ?q = "msqs s ! slot"
  have t: "t = set_q slot (msq_append c now m ?q) s"
    using loop(6) unfolding sl by (subst (asm) msgsnd_loop.simps) (auto simp: Let_def split: if_splits)
  have m: "m = \<lparr>m_type = sint (le_bytes (user_bytes um src 4) :: u32), m_data = user_bytes um (src + 4) (unat sz)\<rparr>"
    using loop(3,4) by simp
  have q: "q_msgs (msqs t ! slot) = q_msgs ?q @ [m]" using lt by (simp add: t set_q_def msq_append_def)
  have idt: "msq_by_id t x = Some slot"
    using assms(3) lt msq_by_id_used [OF assms(3)] by (auto simp: msq_by_id_def Let_def t set_q_def msq_append_def nth_list_update split: if_splits)
  have "msg_step\<^sup>*\<^sup>* msg_boot t" using assms(1,2) msg_step.snd by (meson rtranclp.rtrancl_into_rtrancl)
  then have tinv: "msg_inv t" by (rule msg_reach)
  have "r = int (unat sz) \<and> user_bytes um3 dst (4 + unat sz) = user_bytes um src (4 + unat sz) \<and> q_msgs (msqs t2 ! slot) = []"
    if "q_msgs ?q = []" "do_msgrcv [] c2 now2 um2 t x dst sz 0 flag2 = Some (r, um3, t2)" "0 \<le> r"
  proof -
    have l: "msgrcv_loop [] c2 now2 um2 dst sz 0 flag2 slot (p_seq (q_perm (msqs t ! slot))) t = Some (r, um3, t2)"
      using that(2,3) idt by (auto simp: do_msgrcv_def split: if_splits)
    have "rcv_effect dst sz 0 flag2 slot t r um3 t2"
      using msgrcv_loop_effect [OF l tinv] msq_by_id_used [OF idt] by simp
    then have e: "r = int (length (m_data m))" "user_bytes um3 dst (4 + nat r) = le_enc 4 (m_type m) @ m_data m" "q_msgs (msqs t2 ! slot) = []"
      using that(1,3) q m by (auto simp: rcv_effect_def rcv_choice_def Let_def)
    have "le_enc (length (user_bytes um src 4)) (m_type m) = user_bytes um src 4"
      unfolding m by (simp only: sysv_msg.simps) (rule le_enc_sint, simp)
    then show ?thesis using e m user_bytes_add [of um src 4 "unat sz"] by simp
  qed
  then show ?thesis using q m by simp
qed

subsection \<open>Witnesses\<close>

definition msg_example :: msg_state where
  "msg_example = snd (do_msgget root_cred 0 msg_boot 0 0x1FF)"

lemma msg_example_eq:
  "msqs msg_example = (replicate 64 msq_zero)[0 := msq_zero\<lparr>q_used := True, q_perm := perm_init root_cred 0 0x1FF 1, q_qbytes := 16384\<rparr>]"
  "msg_step\<^sup>*\<^sup>* msg_boot msg_example" "msq_by_id msg_example 64 = Some 0"
proof -
  have f: "find (\<lambda>i. \<not> q_used (msqs msg_boot ! i)) [0..<SYSV_MSGMNI] = Some 0"
    by (simp add: find_upt_Some msg_boot_def msq_zero_def)
  show q: "msqs msg_example = (replicate 64 msq_zero)[0 := msq_zero\<lparr>q_used := True, q_perm := perm_init root_cred 0 0x1FF 1, q_qbytes := 16384\<rparr>]"
    by (simp add: msg_example_def do_msgget_def f set_q_def Let_def) (simp add: msg_boot_def msq_zero_def)
  show "msg_step\<^sup>*\<^sup>* msg_boot msg_example"
    unfolding msg_example_def by (intro r_into_rtranclp) (metis msg_step.get prod.collapse)
  show "msq_by_id msg_example 64 = Some 0"
    by (simp add: msq_by_id_def q perm_init_def)
qed



definition msg_um :: umem where
  "msg_um = um_all\<lparr>ubyte := (\<lambda>_. 0)(0x10000 := 7, 0x10004 := 42)\<rparr>"

theorem msg_round_trip_witness:
  "\<exists>t. do_msgsnd [] True root_cred 0 msg_um msg_example 64 0x10000 1 0 = Some (0, t) \<and>
     q_msgs (msqs t ! 0) = [\<lparr>m_type = 7, m_data = [42]\<rparr>]"
proof -
  have a: "access_ok msg_um a n = access_ok um_all a n" for a n
    by (rule access_ok_cong) (simp_all add: msg_um_def)
  have c1: "copy_from_user msg_um 0x10000 4 = (0, [7, 0, 0, 0])"
  proof -
    have "movsb_from msg_um 0x10000 (Suc (Suc (Suc (Suc 0)))) = (0, [7, 0, 0, 0])" by (simp add: msg_um_def um_all_def)
    moreover have "(4 :: nat) = Suc (Suc (Suc (Suc 0)))" by simp
    ultimately have "movsb_from msg_um 0x10000 4 = (0, [7, 0, 0, 0])" by (simp only:)
    then show ?thesis using access_ok_um_all [of "0x10000" 4] by (simp add: copy_from_user_def a)
  qed
  have c2: "copy_from_user msg_um 0x10004 1 = (0, [42])"
    using access_ok_um_all [of "0x10004" 1] by (simp add: copy_from_user_def a) (simp add: msg_um_def um_all_def)
  have t: "(le_bytes [7, 0, 0, 0] :: u32) = 7" by (simp add: le_bytes_def)
  have nf: "\<not> msq_full (msqs msg_example ! 0) 1" by (simp add: msg_example_eq(1) msq_full_def msq_zero_def)
  obtain t where snd: "do_msgsnd [] True root_cred 0 msg_um msg_example 64 0x10000 1 0 = Some (0, t)"
    using nf by (simp add: do_msgsnd_def c1 c2 [unfolded One_nat_def] t msg_example_eq(3) msgsnd_loop.simps)
  have b: "user_bytes msg_um 0x10000 4 = [7, 0, 0, 0]" "user_bytes msg_um 0x10004 1 = [42]"
    using copy_from_user_result [OF c1] copy_from_user_result [OF c2] by auto
  show ?thesis
    using msg_round_trip [OF msg_example_eq(2) snd msg_example_eq(3)] snd b t
    by (intro exI [of _ t]) (simp add: msg_example_eq(1) msq_zero_def)
qed

end
