(* ===== verification/Ipc_Sem.thy ===== *)
theory Ipc_Sem
  imports Ipc
begin

text \<open>
  System V semaphores (proc/sysvipc.c, the sem part): semaphore sets, atomic lists of operations,
  SEM_UNDO adjustments and their application at exit. \<open>nsems\<close> of a set is the length of its array.
  A call that has to wait is given its wakeups: the table it finds each time and what the sleep
  answered. \<open>now\<close> is the clock and \<open>mem\<close> what kmalloc answers.
\<close>

section \<open>State\<close>

abbreviation (input) SYSV_SEMMNI :: nat where "SYSV_SEMMNI \<equiv> 128"
abbreviation (input) SYSV_SEMMSL :: int where "SYSV_SEMMSL \<equiv> 250"
abbreviation (input) SYSV_SEMMNS :: u32 where "SYSV_SEMMNS \<equiv> 8192"
abbreviation (input) SYSV_SEMOPM :: u32 where "SYSV_SEMOPM \<equiv> 100"
abbreviation (input) SYSV_SEMVMX :: int where "SYSV_SEMVMX \<equiv> 32767"
abbreviation (input) SEM_UNDO_MAX :: nat where "SEM_UNDO_MAX \<equiv> 1024"
abbreviation (input) SEM_UNDO :: u16 where "SEM_UNDO \<equiv> 0x1000"

record sem_val =
  sv_val :: u16
  sv_pid :: int
  sv_ncnt :: u16
  sv_zcnt :: u16

record sysv_semset =
  ss_used :: bool
  ss_perm :: ipc_perm
  ss_sems :: "sem_val list"
  ss_otime :: u32
  ss_ctime :: u32

record sysv_undo =
  u_tgid :: int
  u_slot :: nat
  u_seq :: u16
  u_num :: u16
  u_adj :: int

record sem_state =
  semsets :: "sysv_semset list"
  undos :: "sysv_undo list"
  sem_seq_next :: u16
  sem_total :: u32

record sembuf =
  sb_num :: u16
  sb_op :: int
  sb_flg :: u16

definition semset_zero :: sysv_semset where
  "semset_zero = \<lparr>ss_used = False, ss_perm = perm_zero, ss_sems = [], ss_otime = 0, ss_ctime = 0\<rparr>"

definition sem_zero :: sem_val where
  "sem_zero = \<lparr>sv_val = 0, sv_pid = 0, sv_ncnt = 0, sv_zcnt = 0\<rparr>"

definition undo_free :: sysv_undo where
  "undo_free = \<lparr>u_tgid = 0, u_slot = 0, u_seq = 0, u_num = 0, u_adj = 0\<rparr>"

definition sem_boot :: sem_state where
  "sem_boot = \<lparr>semsets = replicate SYSV_SEMMNI semset_zero, undos = replicate SEM_UNDO_MAX undo_free,
     sem_seq_next = 1, sem_total = 0\<rparr>"

definition set_ss :: "nat \<Rightarrow> sysv_semset \<Rightarrow> sem_state \<Rightarrow> sem_state" where
  "set_ss slot q s = s\<lparr>semsets := (semsets s)[slot := q]\<rparr>"

section \<open>Lookup, creation, removal\<close>

definition sem_by_id :: "sem_state \<Rightarrow> int \<Rightarrow> nat option" where
  "sem_by_id s x =
     (if x < 0 then None
      else let slot = nat x mod SYSV_SEMMNI; sq = nat x div SYSV_SEMMNI; q = semsets s ! slot
           in if \<not> ss_used q \<or> unat (p_seq (ss_perm q)) \<noteq> sq then None else Some slot)"

text \<open>\<open>num\<close> is \<open>None\<close> for the whole set.\<close>

definition undo_clear :: "nat \<Rightarrow> nat option \<Rightarrow> sysv_undo list \<Rightarrow> sysv_undo list" where
  "undo_clear slot num us =
     map (\<lambda>u. if u_tgid u \<noteq> 0 \<and> u_slot u = slot \<and> (case num of None \<Rightarrow> True | Some n \<Rightarrow> unat (u_num u) = n)
              then u\<lparr>u_tgid := 0\<rparr> else u) us"

definition do_semget :: "bool \<Rightarrow> cred \<Rightarrow> u32 \<Rightarrow> sem_state \<Rightarrow> int \<Rightarrow> int \<Rightarrow> u32 \<Rightarrow> int \<times> sem_state" where
  "do_semget mem c now s key nsems flag =
     (let hit = (if key \<noteq> 0 then find (\<lambda>i. ss_used (semsets s ! i) \<and> p_key (ss_perm (semsets s ! i)) = key) [0..<SYSV_SEMMNI]
                 else None)
      in case hit of
           Some i \<Rightarrow>
             if flag AND IPC_CREAT \<noteq> 0 \<and> flag AND IPC_EXCL \<noteq> 0 then (- EEXIST, s)
             else if ipcperms c (ss_perm (semsets s ! i)) flag \<noteq> 0 then (- EACCES, s)
             else if nsems > int (length (ss_sems (semsets s ! i))) then (- EINVAL, s)
             else (ID_OF i (p_seq (ss_perm (semsets s ! i))) SYSV_SEMMNI, s)
         | None \<Rightarrow>
             if key \<noteq> 0 \<and> flag AND IPC_CREAT = 0 then (- ENOENT, s)
             else if nsems \<le> 0 \<or> nsems > SYSV_SEMMSL then (- EINVAL, s)
             else if sem_total s + word_of_int nsems > SYSV_SEMMNS then (- ENOSPC, s)
             else
               case find (\<lambda>i. \<not> ss_used (semsets s ! i)) [0..<SYSV_SEMMNI] of
                 None \<Rightarrow> (- ENOSPC, s)
               | Some slot \<Rightarrow>
                   if \<not> mem then (- ENOMEM, s)
                   else
                     let sq = sem_seq_next s;
                         q = semset_zero\<lparr>ss_used := True, ss_perm := perm_init c key flag sq,
                               ss_sems := replicate (nat nsems) sem_zero, ss_ctime := now\<rparr>
                     in (ID_OF slot sq SYSV_SEMMNI,
                         (set_ss slot q s)\<lparr>sem_seq_next := seq_advance sq, sem_total := sem_total s + word_of_int nsems,
                           undos := undo_clear slot None (undos s)\<rparr>))"

definition sem_remove :: "nat \<Rightarrow> sem_state \<Rightarrow> sem_state" where
  "sem_remove slot s =
     (set_ss slot ((semsets s ! slot)\<lparr>ss_sems := [], ss_used := False\<rparr>) s)
       \<lparr>undos := undo_clear slot None (undos s), sem_total := sem_total s - of_nat (length (ss_sems (semsets s ! slot)))\<rparr>"

section \<open>Operations\<close>

datatype try_result = TryOk | TryBlock nat | TryRange

text \<open>\<open>pre\<close>: the operations before the current one, which count on the same semaphore.\<close>

fun sem_try :: "sem_val list \<Rightarrow> sembuf list \<Rightarrow> sembuf list \<Rightarrow> try_result" where
  "sem_try sems pre [] = TryOk"
| "sem_try sems pre (b # ops) =
     (let v = uint (sv_val (sems ! unat (sb_num b))) + sum_list (map sb_op (filter (\<lambda>a. sb_num a = sb_num b) pre))
      in if sb_op b > 0 then
           if v + sb_op b > SYSV_SEMVMX then TryRange else sem_try sems (pre @ [b]) ops
         else if sb_op b = 0 then
           if v \<noteq> 0 then TryBlock (length pre) else sem_try sems (pre @ [b]) ops
         else if v + sb_op b < 0 then TryBlock (length pre)
         else sem_try sems (pre @ [b]) ops)"

definition undo_is :: "int \<Rightarrow> nat \<Rightarrow> u16 \<Rightarrow> u16 \<Rightarrow> sysv_undo \<Rightarrow> bool" where
  "undo_is tgid slot sq num u = (u_tgid u = tgid \<and> u_slot u = slot \<and> u_seq u = sq \<and> u_num u = num)"

definition undo_add :: "int \<Rightarrow> nat \<Rightarrow> u16 \<Rightarrow> u16 \<Rightarrow> int \<Rightarrow> sysv_undo list \<Rightarrow> int \<times> sysv_undo list" where
  "undo_add tgid slot sq num delta us =
     (case find (\<lambda>i. undo_is tgid slot sq num (us ! i)) [0..<SEM_UNDO_MAX] of
        Some i \<Rightarrow>
          let adj = u_adj (us ! i) + delta in
          if adj > SYSV_SEMVMX \<or> adj < - SYSV_SEMVMX then (- ERANGE, us)
          else (0, us[i := (us ! i)\<lparr>u_adj := adj, u_tgid := if adj = 0 then 0 else tgid\<rparr>])
      | None \<Rightarrow>
          if delta = 0 then (0, us)
          else case find (\<lambda>i. u_tgid (us ! i) = 0) [0..<SEM_UNDO_MAX] of
                 None \<Rightarrow> (- ENOSPC, us)
               | Some i \<Rightarrow> (0, us[i := \<lparr>u_tgid = tgid, u_slot = slot, u_seq = sq, u_num = num, u_adj = delta\<rparr>]))"

text \<open>Undoing the adjustments made so far, first to last.\<close>

fun undo_rollback :: "int \<Rightarrow> nat \<Rightarrow> u16 \<Rightarrow> sembuf list \<Rightarrow> sysv_undo list \<Rightarrow> sysv_undo list" where
  "undo_rollback tgid slot sq [] us = us"
| "undo_rollback tgid slot sq (b # pre) us =
     undo_rollback tgid slot sq pre
       (if sb_flg b AND SEM_UNDO \<noteq> 0 then snd (undo_add tgid slot sq (sb_num b) (sb_op b) us) else us)"

fun undo_record :: "int \<Rightarrow> nat \<Rightarrow> u16 \<Rightarrow> sembuf list \<Rightarrow> sembuf list \<Rightarrow> sysv_undo list \<Rightarrow> int \<times> sysv_undo list" where
  "undo_record tgid slot sq pre [] us = (0, us)"
| "undo_record tgid slot sq pre (b # ops) us =
     (if sb_flg b AND SEM_UNDO \<noteq> 0 then
        (let (ur, us') = undo_add tgid slot sq (sb_num b) (- sb_op b) us
         in if ur < 0 then (ur, undo_rollback tgid slot sq pre us')
            else undo_record tgid slot sq (pre @ [b]) ops us')
      else undo_record tgid slot sq (pre @ [b]) ops us)"

definition sem_apply :: "int \<Rightarrow> sembuf \<Rightarrow> sem_val list \<Rightarrow> sem_val list" where
  "sem_apply tgid b sems =
     (let i = unat (sb_num b) in
      sems[i := (sems ! i)\<lparr>sv_val := sv_val (sems ! i) + word_of_int (sb_op b), sv_pid := tgid\<rparr>])"

text \<open>One attempt under the lock: a result, or the operation that blocks with its waiter counted.\<close>

datatype sem_outcome = SemDone int sem_state | SemSleep nat sem_state

definition count_waiter :: "bool \<Rightarrow> nat \<Rightarrow> sem_val list \<Rightarrow> sem_val list" where
  "count_waiter zero i sems =
     sems[i := if zero then (sems ! i)\<lparr>sv_zcnt := sv_zcnt (sems ! i) + 1\<rparr>
               else (sems ! i)\<lparr>sv_ncnt := sv_ncnt (sems ! i) + 1\<rparr>]"

definition uncount_waiter :: "bool \<Rightarrow> nat \<Rightarrow> sem_val list \<Rightarrow> sem_val list" where
  "uncount_waiter zero i sems =
     sems[i := if zero then (if sv_zcnt (sems ! i) \<noteq> 0 then (sems ! i)\<lparr>sv_zcnt := sv_zcnt (sems ! i) - 1\<rparr> else sems ! i)
               else (if sv_ncnt (sems ! i) \<noteq> 0 then (sems ! i)\<lparr>sv_ncnt := sv_ncnt (sems ! i) - 1\<rparr> else sems ! i)]"

definition sem_attempt :: "cred \<Rightarrow> u32 \<Rightarrow> sembuf list \<Rightarrow> nat \<Rightarrow> u16 \<Rightarrow> sem_state \<Rightarrow> sem_outcome" where
  "sem_attempt c now ops slot sq s =
     (let q = semsets s ! slot in
      case sem_try (ss_sems q) [] ops of
        TryRange \<Rightarrow> SemDone (- ERANGE) s
      | TryOk \<Rightarrow>
          (let (ur, us) = undo_record (c_tgid c) slot sq [] ops (undos s)
           in if ur < 0 then SemDone ur (s\<lparr>undos := us\<rparr>)
              else SemDone 0 ((set_ss slot (q\<lparr>ss_sems := fold (sem_apply (c_tgid c)) ops (ss_sems q), ss_otime := now\<rparr>) s)
                     \<lparr>undos := us\<rparr>))
      | TryBlock blk \<Rightarrow>
          if sb_flg (ops ! blk) AND ucast IPC_NOWAIT \<noteq> 0 then SemDone (- EAGAIN) s
          else SemSleep blk (set_ss slot (q\<lparr>ss_sems :=
                 count_waiter (sb_op (ops ! blk) = 0) (unat (sb_num (ops ! blk))) (ss_sems q)\<rparr>) s))"

text \<open>After the sleep: the set may be gone, the waiter is no longer counted, the sleep may have failed.\<close>

definition sem_wake :: "sembuf list \<Rightarrow> nat \<Rightarrow> u16 \<Rightarrow> nat \<Rightarrow> sem_state \<Rightarrow> int \<Rightarrow> sem_outcome + sem_state" where
  "sem_wake ops slot sq blk s w =
     (let q = semsets s ! slot in
      if \<not> ss_used q \<or> p_seq (ss_perm q) \<noteq> sq then Inl (SemDone (- EIDRM) s)
      else
        let s' = set_ss slot (q\<lparr>ss_sems := uncount_waiter (sb_op (ops ! blk) = 0) (unat (sb_num (ops ! blk))) (ss_sems q)\<rparr>) s
        in if w \<noteq> 0 then Inl (SemDone w s') else Inr s')"

fun semop_loop ::
  "(sem_state \<times> int) list \<Rightarrow> cred \<Rightarrow> u32 \<Rightarrow> sembuf list \<Rightarrow> nat \<Rightarrow> u16 \<Rightarrow> sem_state \<Rightarrow> (int \<times> sem_state) option" where
  "semop_loop ws c now ops slot sq s =
     (case sem_attempt c now ops slot sq s of
        SemDone r t \<Rightarrow> Some (r, t)
      | SemSleep blk _ \<Rightarrow>
          case ws of [] \<Rightarrow> None
          | (s', w) # ws' \<Rightarrow>
              case sem_wake ops slot sq blk s' w of
                Inl (SemDone r t) \<Rightarrow> Some (r, t)
              | Inl _ \<Rightarrow> None
              | Inr t \<Rightarrow> semop_loop ws' c now ops slot sq t)"

declare semop_loop.simps [simp del]

fun read_sembufs :: "nat \<Rightarrow> u8 list \<Rightarrow> sembuf list" where
  "read_sembufs 0 bs = []"
| "read_sembufs (Suc n) bs =
     \<lparr>sb_num = le_bytes (take 2 bs), sb_op = sint (le_bytes (take 2 (drop 2 bs)) :: u16), sb_flg = le_bytes (take 2 (drop 4 bs))\<rparr>
       # read_sembufs n (drop 6 bs)"

definition do_semtimedop ::
  "(sem_state \<times> int) list \<Rightarrow> cred \<Rightarrow> u32 \<Rightarrow> umem \<Rightarrow> sem_state \<Rightarrow> int \<Rightarrow> u32 \<Rightarrow> u32 \<Rightarrow> (int \<times> sem_state) option" where
  "do_semtimedop ws c now um s x uops nops =
     (if nops < 1 then Some (- EINVAL, s)
      else if nops > SYSV_SEMOPM then Some (- E2BIG, s)
      else
        let (r, bs) = copy_from_user um uops (unat nops * 6); ops = read_sembufs (unat nops) bs in
        if r < 0 then Some (- EFAULT, s)
        else
          case sem_by_id s x of None \<Rightarrow> Some (- EINVAL, s)
          | Some slot \<Rightarrow>
              let q = semsets s ! slot in
              if list_ex (\<lambda>b. unat (sb_num b) \<ge> length (ss_sems q)) ops then Some (- EFBIG, s)
              else if ipcperms c (ss_perm q) (if list_ex (\<lambda>b. sb_op b \<noteq> 0) ops then 0x92 else 0x124) \<noteq> 0 then Some (- EACCES, s)
              else semop_loop ws c now ops slot (p_seq (ss_perm q)) s)"

section \<open>Exit\<close>

definition exit_undo :: "int \<Rightarrow> u32 \<Rightarrow> nat \<Rightarrow> sem_state \<Rightarrow> sem_state" where
  "exit_undo tgid now i s =
     (let u = undos s ! i in
      if u_tgid u \<noteq> tgid then s
      else
        let s = s\<lparr>undos := (undos s)[i := u\<lparr>u_tgid := 0\<rparr>]\<rparr>; q = semsets s ! u_slot u in
        if \<not> ss_used q \<or> p_seq (ss_perm q) \<noteq> u_seq u \<or> unat (u_num u) \<ge> length (ss_sems q) then s
        else
          let n = unat (u_num u); v = uint (sv_val (ss_sems q ! n)) + u_adj u;
              v = (if v < 0 then 0 else v); v = (if v > SYSV_SEMVMX then SYSV_SEMVMX else v)
          in set_ss (u_slot u) (q\<lparr>ss_sems := (ss_sems q)[n := (ss_sems q ! n)\<lparr>sv_val := word_of_int v, sv_pid := tgid\<rparr>], ss_ctime := now\<rparr>) s)"

text \<open>\<open>others\<close>: the other slots of the process table, each with its thread group and whether it is alive.\<close>

definition sysv_sem_exit :: "(int \<times> bool) list \<Rightarrow> int \<Rightarrow> u32 \<Rightarrow> sem_state \<Rightarrow> sem_state" where
  "sysv_sem_exit others tgid now s =
     (if list_ex (\<lambda>(t, alive). t = tgid \<and> alive) others then s
      else fold (exit_undo tgid now) [0..<SEM_UNDO_MAX] s)"

section \<open>Control\<close>

definition used_sets :: "sem_state \<Rightarrow> nat list" where
  "used_sets s = filter (\<lambda>i. ss_used (semsets s ! i)) [0..<SYSV_SEMMNI]"

definition sem_info :: "sem_state \<Rightarrow> bool \<Rightarrow> u8 list" where
  "sem_info s usage =
     (let info = [128, 128, 8192, 8192, 250, 100, 100, 20, 32767, 32767 :: int];
          info = (if usage then info[7 := int (length (used_sets s)), 9 := sint (sem_total s)] else info)
      in concat (map (le_enc 4) info))"

text \<open>struct semid64_ds, 64 bytes: the permissions, two 64-bit times, the size and two unused words.\<close>

definition semid_ds :: "sysv_semset \<Rightarrow> u8 list" where
  "semid_ds q =
     perm_out (ss_perm q) @ le_enc 4 (uint (ss_otime q)) @ le_enc 4 0 @ le_enc 4 (uint (ss_ctime q)) @ le_enc 4 0 @
     le_enc 4 (int (length (ss_sems q))) @ le_enc 8 0"

definition sem_setval :: "cred \<Rightarrow> u32 \<Rightarrow> nat \<Rightarrow> nat \<Rightarrow> int \<Rightarrow> sem_state \<Rightarrow> sem_state" where
  "sem_setval c now slot num v s =
     (let q = semsets s ! slot in
      (set_ss slot (q\<lparr>ss_sems := (ss_sems q)[num := (ss_sems q ! num)\<lparr>sv_val := word_of_int v, sv_pid := c_tgid c\<rparr>],
         ss_ctime := now\<rparr>) s)\<lparr>undos := undo_clear slot (Some num) (undos s)\<rparr>)"

definition read_vals :: "u8 list \<Rightarrow> nat \<Rightarrow> u16 list" where
  "read_vals bs n = map (\<lambda>i. le_bytes (take 2 (drop (2 * i) bs))) [0..<n]"

definition sem_setall :: "cred \<Rightarrow> u32 \<Rightarrow> nat \<Rightarrow> u16 list \<Rightarrow> sem_state \<Rightarrow> sem_state" where
  "sem_setall c now slot vals s =
     (let q = semsets s ! slot in
      (set_ss slot (q\<lparr>ss_sems := map (\<lambda>(sv, v). sv\<lparr>sv_val := v, sv_pid := c_tgid c\<rparr>) (zip (ss_sems q) vals),
         ss_ctime := now\<rparr>) s)\<lparr>undos := undo_clear slot None (undos s)\<rparr>)"

definition sem_get :: "u32 \<Rightarrow> sem_val \<Rightarrow> int" where
  "sem_get cmd sv = (if cmd = 12 then uint (sv_val sv) else if cmd = 11 then sv_pid sv
     else if cmd = 14 then uint (sv_ncnt sv) else uint (sv_zcnt sv))"

text \<open>
  The commands on one set: IPC_STAT 2, SEM_STAT 18 and SEM_STAT_ANY 20, IPC_SET 1, IPC_RMID 0,
  GETPID 11, GETVAL 12, GETALL 13, GETNCNT 14, GETZCNT 15, SETVAL 16, SETALL 17.
\<close>

definition semctl_slot :: "cred \<Rightarrow> u32 \<Rightarrow> umem \<Rightarrow> sem_state \<Rightarrow> int \<Rightarrow> u32 \<Rightarrow> u32 \<Rightarrow> int \<Rightarrow> nat \<Rightarrow> int \<times> umem \<times> sem_state" where
  "semctl_slot c now um s num cmd arg ret slot =
     (let q = semsets s ! slot; n = length (ss_sems q) in
      if cmd = 2 \<or> cmd = 18 \<or> cmd = 20 then
        if cmd \<noteq> 20 \<and> ipcperms c (ss_perm q) 0x124 \<noteq> 0 then (- EACCES, um, s)
        else let (r, um') = copy_to_user um arg (semid_ds q) in (if r < 0 then - EFAULT else ret, um', s)
      else if cmd = 1 then
        let (r, d) = copy_from_user um arg 64 in
        if r < 0 then (- EFAULT, um, s)
        else if \<not> ipc_owner c (ss_perm q) then (- EPERM, um, s)
        else (0, um, set_ss slot (q\<lparr>ss_perm := perm_set (ss_perm q) d, ss_ctime := now\<rparr>) s)
      else if cmd = 0 then
        if \<not> ipc_owner c (ss_perm q) then (- EPERM, um, s) else (0, um, sem_remove slot s)
      else if cmd = 12 \<or> cmd = 11 \<or> cmd = 14 \<or> cmd = 15 then
        if ipcperms c (ss_perm q) 0x124 \<noteq> 0 then (- EACCES, um, s)
        else if num < 0 \<or> num \<ge> int n then (- EINVAL, um, s)
        else (sem_get cmd (ss_sems q ! nat num), um, s)
      else if cmd = 13 then
        if ipcperms c (ss_perm q) 0x124 \<noteq> 0 then (- EACCES, um, s)
        else let (r, um') = copy_to_user um arg (concat (map (\<lambda>sv. le_enc 2 (uint (sv_val sv))) (ss_sems q)))
             in (if r < 0 then - EFAULT else 0, um', s)
      else if cmd = 16 then
        if ipcperms c (ss_perm q) 0x92 \<noteq> 0 then (- EACCES, um, s)
        else if num < 0 \<or> num \<ge> int n then (- EINVAL, um, s)
        else if sint arg < 0 \<or> sint arg > SYSV_SEMVMX then (- ERANGE, um, s)
        else (0, um, sem_setval c now slot (nat num) (sint arg) s)
      else if cmd = 17 then
        if ipcperms c (ss_perm q) 0x92 \<noteq> 0 then (- EACCES, um, s)
        else
          let (r, d) = copy_from_user um arg (n * 2); vals = read_vals d n in
          if r < 0 then (- EFAULT, um, s)
          else if list_ex (\<lambda>v. uint v > SYSV_SEMVMX) vals then (- ERANGE, um, s)
          else (0, um, sem_setall c now slot vals s)
      else (- EINVAL, um, s))"

definition do_semctl :: "cred \<Rightarrow> u32 \<Rightarrow> umem \<Rightarrow> sem_state \<Rightarrow> int \<Rightarrow> int \<Rightarrow> u32 \<Rightarrow> u32 \<Rightarrow> int \<times> umem \<times> sem_state" where
  "do_semctl c now um s x num cmd0 arg =
     (let cmd = cmd0 AND NOT IPC_64 in
      if cmd = IPC_INFO \<or> cmd = 19 then
        let (r, um') = copy_to_user um arg (sem_info s (cmd = 19)) in
        (if r < 0 then - EFAULT else if used_sets s = [] then 0 else int (last (used_sets s)), um', s)
      else if cmd = 18 \<or> cmd = 20 then
        if x < 0 \<or> x \<ge> int SYSV_SEMMNI \<or> \<not> ss_used (semsets s ! nat x) then (- EINVAL, um, s)
        else semctl_slot c now um s num cmd arg (ID_OF (nat x) (p_seq (ss_perm (semsets s ! nat x))) SYSV_SEMMNI) (nat x)
      else
        case sem_by_id s x of None \<Rightarrow> (- EINVAL, um, s) | Some slot \<Rightarrow> semctl_slot c now um s num cmd arg 0 slot)"

section \<open>Ids\<close>

definition sem_seq_at :: "sem_state \<Rightarrow> nat \<Rightarrow> u16 option" where
  "sem_seq_at s i = (if ss_used (semsets s ! i) then Some (p_seq (ss_perm (semsets s ! i))) else None)"

interpretation sem_ids: ipc_ids SYSV_SEMMNI sem_seq_at sem_by_id
  by unfold_locales (auto simp: sem_by_id_def sem_seq_at_def Let_def)

section \<open>The operations one after the other\<close>

text \<open>The reference: run the operations in order on the values, each seeing the ones before it.\<close>

fun sem_seq :: "nat \<Rightarrow> int list \<Rightarrow> sembuf list \<Rightarrow> try_result" where
  "sem_seq k vs [] = TryOk"
| "sem_seq k vs (b # ops) =
     (let i = unat (sb_num b); v = vs ! i in
      if sb_op b > 0 \<and> v + sb_op b > SYSV_SEMVMX then TryRange
      else if sb_op b = 0 \<and> v \<noteq> 0 then TryBlock k
      else if sb_op b < 0 \<and> v + sb_op b < 0 then TryBlock k
      else sem_seq (k + 1) (vs[i := v + sb_op b]) ops)"

fun seq_vals :: "int list \<Rightarrow> sembuf list \<Rightarrow> int list" where
  "seq_vals vs [] = vs"
| "seq_vals vs (b # ops) = seq_vals (vs[unat (sb_num b) := vs ! unat (sb_num b) + sb_op b]) ops"

definition sem_vals :: "sem_val list \<Rightarrow> int list" where
  "sem_vals sems = map (\<lambda>sv. uint (sv_val sv)) sems"

lemma length_sem_vals [simp]: "length (sem_vals sems) = length sems"
  by (simp add: sem_vals_def)

lemma length_seq_vals [simp]: "length (seq_vals vs ops) = length vs"
  by (induction ops arbitrary: vs) auto

lemma seq_vals_append: "seq_vals vs (xs @ ys) = seq_vals (seq_vals vs xs) ys"
  by (induction xs arbitrary: vs) auto

lemma seq_vals_nth:
  "i < length vs \<Longrightarrow> \<forall>b\<in>set ops. unat (sb_num b) < length vs \<Longrightarrow>
   seq_vals vs ops ! i = vs ! i + sum_list (map sb_op (filter (\<lambda>a. unat (sb_num a) = i) ops))"
  by (induction ops arbitrary: vs) (auto simp: nth_list_update)

lemma sem_try_seq:
  "\<forall>b\<in>set (pre @ ops). unat (sb_num b) < length sems \<Longrightarrow>
   sem_try sems pre ops = sem_seq (length pre) (seq_vals (sem_vals sems) pre) ops"
proof (induction ops arbitrary: pre)
  case Nil
  then show ?case by simp
next
  case (Cons b ops)
  let ?i = "unat (sb_num b)" and ?vs = "seq_vals (sem_vals sems) pre"
  have i: "?i < length sems" using Cons.prems by simp
  have f: "filter (\<lambda>a. sb_num a = sb_num b) pre = filter (\<lambda>a. unat (sb_num a) = ?i) pre"
    by (rule filter_cong) (auto simp: word_unat_eq_iff)
  have v: "uint (sv_val (sems ! ?i)) + sum_list (map sb_op (filter (\<lambda>a. sb_num a = sb_num b) pre)) = ?vs ! ?i"
    unfolding f using i Cons.prems by (subst seq_vals_nth) (auto simp: sem_vals_def)
  have n: "?vs[?i := ?vs ! ?i + sb_op b] = seq_vals (sem_vals sems) (pre @ [b])" by (simp add: seq_vals_append)
  have IH: "sem_try sems (pre @ [b]) ops = sem_seq (length pre + 1) (?vs[?i := ?vs ! ?i + sb_op b]) ops"
    using Cons.IH [of "pre @ [b]"] Cons.prems by (simp add: n)
  show ?case by (simp only: sem_try.simps sem_seq.simps v Let_def IH) auto
qed

text \<open>The 16-bit additions of the code are exact when the operations can be run in order.\<close>

lemma sem_apply_vals:
  assumes "unat (sb_num b) < length sems" "0 \<le> sem_vals sems ! unat (sb_num b) + sb_op b"
    "sem_vals sems ! unat (sb_num b) + sb_op b \<le> SYSV_SEMVMX"
  shows "sem_vals (sem_apply t b sems) = (sem_vals sems)[unat (sb_num b) := sem_vals sems ! unat (sb_num b) + sb_op b]"
proof -
  let ?i = "unat (sb_num b)"
  have "uint (sv_val (sems ! ?i) + word_of_int (sb_op b)) = uint (sv_val (sems ! ?i)) + sb_op b"
    using assms by (simp add: sem_vals_def uint_word_ariths uint_word_of_int_eq take_bit_eq_mod mod_add_right_eq)
  then show ?thesis using assms(1) by (simp add: sem_vals_def sem_apply_def Let_def map_update)
qed

definition vals_ok :: "int list \<Rightarrow> bool" where
  "vals_ok vs \<longleftrightarrow> (\<forall>v\<in>set vs. 0 \<le> v \<and> v \<le> SYSV_SEMVMX)"

lemma vals_ok_nth: "vals_ok vs \<Longrightarrow> i < length vs \<Longrightarrow> 0 \<le> vs ! i \<and> vs ! i \<le> SYSV_SEMVMX"
  by (simp add: vals_ok_def)

lemma vals_ok_upd: "vals_ok vs \<Longrightarrow> 0 \<le> v \<Longrightarrow> v \<le> SYSV_SEMVMX \<Longrightarrow> vals_ok (vs[i := v])"
  using set_update_subset_insert [of vs i v] by (auto simp: vals_ok_def)

lemma sem_seq_ok:
  assumes "sem_seq k (sem_vals sems) ops = TryOk" "\<forall>b\<in>set ops. unat (sb_num b) < length sems" "vals_ok (sem_vals sems)"
  shows "sem_vals (fold (sem_apply t) ops sems) = seq_vals (sem_vals sems) ops \<and> vals_ok (seq_vals (sem_vals sems) ops)"
  using assms
proof (induction ops arbitrary: k sems)
  case Nil
  then show ?case by simp
next
  case (Cons b ops)
  let ?i = "unat (sb_num b)" and ?v = "sem_vals sems ! unat (sb_num b)"
  have i: "?i < length sems" using Cons.prems by simp
  have v: "0 \<le> ?v" "?v \<le> SYSV_SEMVMX" using vals_ok_nth [OF Cons.prems(3), of ?i] i by auto
  have r: "0 \<le> ?v + sb_op b" "?v + sb_op b \<le> SYSV_SEMVMX" "sem_seq (k + 1) ((sem_vals sems)[?i := ?v + sb_op b]) ops = TryOk"
    using Cons.prems(1) v by (auto simp: Let_def split: if_splits)
  note a = sem_apply_vals [OF i r(1,2), of t]
  have l: "length (sem_apply t b sems) = length sems" by (simp add: sem_apply_def Let_def)
  have "vals_ok ((sem_vals sems)[?i := ?v + sb_op b])" by (rule vals_ok_upd [OF Cons.prems(3) r(1,2)])
  then show ?case using Cons.IH [of "k + 1" "sem_apply t b sems"] r(3) Cons.prems(2) l by (simp add: a)
qed

section \<open>The invariant\<close>

definition set_ok :: "sysv_semset \<Rightarrow> bool" where
  "set_ok q \<longleftrightarrow> (ss_used q \<longrightarrow> vals_ok (sem_vals (ss_sems q)) \<and> 1 \<le> p_seq (ss_perm q) \<and> p_seq (ss_perm q) < 0x7FFF)"

definition undo_key :: "sysv_undo \<Rightarrow> int \<times> nat \<times> u16 \<times> u16" where
  "undo_key u = (u_tgid u, u_slot u, u_seq u, u_num u)"

text \<open>The semaphore an adjustment is for.\<close>

definition sem_there :: "sysv_semset list \<Rightarrow> nat \<Rightarrow> u16 \<Rightarrow> u16 \<Rightarrow> bool" where
  "sem_there sets slot sq num \<longleftrightarrow> slot < SYSV_SEMMNI \<and> ss_used (sets ! slot) \<and> p_seq (ss_perm (sets ! slot)) = sq \<and>
     unat num < length (ss_sems (sets ! slot))"

definition undo_ok :: "sysv_semset list \<Rightarrow> sysv_undo \<Rightarrow> bool" where
  "undo_ok sets u \<longleftrightarrow> sem_there sets (u_slot u) (u_seq u) (u_num u) \<and> u_adj u \<noteq> 0 \<and> \<bar>u_adj u\<bar> \<le> SYSV_SEMVMX"

definition undos_ok :: "sysv_semset list \<Rightarrow> sysv_undo list \<Rightarrow> bool" where
  "undos_ok sets us \<longleftrightarrow> length us = SEM_UNDO_MAX \<and> (\<forall>i<SEM_UNDO_MAX. u_tgid (us ! i) \<noteq> 0 \<longrightarrow> undo_ok sets (us ! i)) \<and>
     (\<forall>i<SEM_UNDO_MAX. \<forall>j<SEM_UNDO_MAX. u_tgid (us ! i) \<noteq> 0 \<longrightarrow> undo_key (us ! i) = undo_key (us ! j) \<longrightarrow> i = j)"

definition set_size :: "sysv_semset \<Rightarrow> nat" where
  "set_size q = (if ss_used q then length (ss_sems q) else 0)"

definition sets_total :: "sysv_semset list \<Rightarrow> nat" where
  "sets_total sets = sum_list (map set_size sets)"

definition sem_inv :: "sem_state \<Rightarrow> bool" where
  "sem_inv s \<longleftrightarrow> length (semsets s) = SYSV_SEMMNI \<and> (\<forall>i<SYSV_SEMMNI. set_ok (semsets s ! i)) \<and> undos_ok (semsets s) (undos s) \<and>
     1 \<le> sem_seq_next s \<and> sem_seq_next s < 0x7FFF \<and> sem_total s = of_nat (sets_total (semsets s)) \<and> sets_total (semsets s) \<le> 8192"

lemma sets_total_upd: "i < length sets \<Longrightarrow> sets_total (sets[i := q]) + set_size (sets ! i) = sets_total sets + set_size q"
  by (simp add: sets_total_def sum_list_upd)

lemma undos_ok_upd:
  assumes "undos_ok sets us" "i < SEM_UNDO_MAX"
    and "u_tgid u \<noteq> 0 \<Longrightarrow> undo_ok sets u \<and> (\<forall>j<SEM_UNDO_MAX. j \<noteq> i \<longrightarrow> undo_key (us ! j) \<noteq> undo_key u)"
  shows "undos_ok sets (us[i := u])"
proof -
  have l: "length us = SEM_UNDO_MAX" using assms(1) by (simp add: undos_ok_def)
  have "a = b" if "a < SEM_UNDO_MAX" "b < SEM_UNDO_MAX" "u_tgid (us[i := u] ! a) \<noteq> 0" "undo_key (us[i := u] ! a) = undo_key (us[i := u] ! b)" for a b
  proof (rule ccontr)
    assume ne: "a \<noteq> b"
    have no: "\<not> (j < SEM_UNDO_MAX \<and> j \<noteq> i \<and> undo_key (us ! j) = undo_key u \<and> u_tgid u \<noteq> 0)" for j using assms(3) by blast
    consider "a = i" "b \<noteq> i" | "b = i" "a \<noteq> i" | "a \<noteq> i" "b \<noteq> i" using ne by blast
    then show False
    proof cases
      case 1
      then show ?thesis using that no [of b] l assms(2) by simp
    next
      case 2
      then have "undo_key (us ! a) = undo_key u" "u_tgid (us ! a) \<noteq> 0" using that l assms(2) by simp_all
      then show ?thesis using that(1) no [of a] 2 by (simp add: undo_key_def)
    next
      case 3
      then have "u_tgid (us ! a) \<noteq> 0" "undo_key (us ! a) = undo_key (us ! b)" using that by simp_all
      then show ?thesis using that(1,2) ne assms(1) unfolding undos_ok_def by blast
    qed
  qed
  moreover have "undo_ok sets (us[i := u] ! a)" if "a < SEM_UNDO_MAX" "u_tgid (us[i := u] ! a) \<noteq> 0" for a
    using that assms l by (cases "a = i") (auto simp: undos_ok_def)
  ultimately show ?thesis using l by (auto simp: undos_ok_def)
qed

lemma undo_add_ok:
  assumes "undos_ok sets us" "t \<noteq> 0" "sem_there sets slot sq num" "\<bar>delta\<bar> \<le> SYSV_SEMVMX" "undo_add t slot sq num delta us = (r, us')"
  shows "undos_ok sets us'"
proof (cases "find (\<lambda>i. undo_is t slot sq num (us ! i)) [0..<SEM_UNDO_MAX]")
  case (Some i)
  have i: "i < SEM_UNDO_MAX" "undo_is t slot sq num (us ! i)" using find_upt0_Some [OF Some] by auto
  let ?adj = "u_adj (us ! i) + delta"
  let ?u = "(us ! i)\<lparr>u_adj := ?adj, u_tgid := if ?adj = 0 then 0 else t\<rparr>"
  have k: "undo_key (us ! i) = (t, slot, sq, num)" "u_tgid (us ! i) \<noteq> 0" using i(2) assms(2) by (auto simp: undo_is_def undo_key_def)
  have "undos_ok sets (us[i := ?u])" if "\<not> (?adj > SYSV_SEMVMX \<or> ?adj < - SYSV_SEMVMX)"
  proof (rule undos_ok_upd [OF assms(1) i(1)])
    assume nz: "u_tgid ?u \<noteq> 0"
    then have "undo_key ?u = undo_key (us ! i)" using k i(2) by (auto simp: undo_key_def undo_is_def split: if_splits)
    moreover have "undo_ok sets ?u" using nz i(2) assms(3) that by (auto simp: undo_ok_def undo_is_def)
    ultimately show "undo_ok sets ?u \<and> (\<forall>j<SEM_UNDO_MAX. j \<noteq> i \<longrightarrow> undo_key (us ! j) \<noteq> undo_key ?u)"
      using assms(1) i(1) k unfolding undos_ok_def by metis
  qed
  then show ?thesis using assms(1,5) Some by (auto simp: undo_add_def Let_def split: if_splits)
next
  case None
  then have nk: "\<forall>j<SEM_UNDO_MAX. undo_key (us ! j) \<noteq> (t, slot, sq, num)"
    by (auto simp: find_upt0_None undo_is_def undo_key_def)
  let ?u = "\<lparr>u_tgid = t, u_slot = slot, u_seq = sq, u_num = num, u_adj = delta\<rparr>"
  have "undos_ok sets (us[i := ?u])" if "i < SEM_UNDO_MAX" "delta \<noteq> 0" for i
    by (rule undos_ok_upd [OF assms(1) that(1)]) (use nk assms(3,4) that(2) in \<open>auto simp: undo_ok_def undo_key_def\<close>)
  then show ?thesis using assms(1,5) None by (auto simp: undo_add_def split: if_splits option.splits dest!: find_upt0_Some)
qed

lemma undo_rollback_ok:
  assumes "undos_ok sets us" "t \<noteq> 0" "\<forall>b\<in>set pre. sem_there sets slot sq (sb_num b) \<and> \<bar>sb_op b\<bar> \<le> SYSV_SEMVMX"
  shows "undos_ok sets (undo_rollback t slot sq pre us)"
  using assms
proof (induction pre arbitrary: us)
  case (Cons b pre)
  have "undos_ok sets (if sb_flg b AND SEM_UNDO \<noteq> 0 then snd (undo_add t slot sq (sb_num b) (sb_op b) us) else us)"
    using Cons.prems undo_add_ok [OF Cons.prems(1,2), of slot sq "sb_num b" "sb_op b"] by (cases "undo_add t slot sq (sb_num b) (sb_op b) us") auto
  then show ?case using Cons by simp
qed simp

lemma undo_record_ok:
  assumes "undos_ok sets us" "t \<noteq> 0" "\<forall>b\<in>set (pre @ ops). sem_there sets slot sq (sb_num b) \<and> \<bar>sb_op b\<bar> \<le> SYSV_SEMVMX"
    "undo_record t slot sq pre ops us = (r, us')"
  shows "undos_ok sets us'"
  using assms
proof (induction ops arbitrary: pre us)
  case Nil
  then show ?case by simp
next
  case (Cons b ops)
  have all: "\<forall>b\<in>set ((pre @ [b]) @ ops). sem_there sets slot sq (sb_num b) \<and> \<bar>sb_op b\<bar> \<le> SYSV_SEMVMX" using Cons.prems(3) by simp
  show ?case
  proof (cases "sb_flg b AND SEM_UNDO \<noteq> 0")
    case True
    obtain ur us1 where a: "undo_add t slot sq (sb_num b) (- sb_op b) us = (ur, us1)" by fastforce
    have ok: "undos_ok sets us1" by (rule undo_add_ok [OF Cons.prems(1,2) _ _ a]) (use Cons.prems(3) in auto)
    show ?thesis
    proof (cases "ur < 0")
      case neg: True
      then have "us' = undo_rollback t slot sq pre us1" using Cons.prems(4) True a by simp
      then show ?thesis using undo_rollback_ok [OF ok Cons.prems(2)] Cons.prems(3) by simp
    next
      case False
      then show ?thesis using Cons.IH [OF ok Cons.prems(2) all] Cons.prems(4) True a by simp
    qed
  next
    case False
    then show ?thesis using Cons.IH [OF Cons.prems(1,2) all] Cons.prems(4) by simp
  qed
qed

subsection \<open>Adjustments\<close>

definition undo_adj :: "sysv_undo list \<Rightarrow> int \<Rightarrow> nat \<Rightarrow> u16 \<Rightarrow> u16 \<Rightarrow> int" where
  "undo_adj us t slot sq num = sum_list (map u_adj (filter (undo_is t slot sq num) us))"

definition adj_at :: "int \<Rightarrow> nat \<Rightarrow> u16 \<Rightarrow> u16 \<Rightarrow> sysv_undo \<Rightarrow> int" where
  "adj_at t slot sq num u = (if undo_is t slot sq num u then u_adj u else 0)"

lemma undo_adj_sum: "undo_adj us t slot sq num = sum_list (map (adj_at t slot sq num) us)"
  by (simp add: undo_adj_def adj_at_def [abs_def] sum_list_map_filter')

lemma int_sum_list_upd: "i < length xs \<Longrightarrow> sum_list (map f (xs[i := y])) = sum_list (map f xs) - f (xs ! i) + (f y :: int)"
  by (induction xs arbitrary: i) (auto split: nat.splits)

lemma undo_adj_upd: "i < length us \<Longrightarrow> undo_adj (us[i := u]) t slot sq num = undo_adj us t slot sq num - adj_at t slot sq num (us ! i) + adj_at t slot sq num u"
  by (simp add: undo_adj_sum int_sum_list_upd)

lemma undo_add_adj:
  assumes "length us = SEM_UNDO_MAX" "t \<noteq> 0" "t' \<noteq> 0" "undo_add t slot sq num delta us = (r, us')" "\<not> r < 0"
  shows "undo_adj us' t' slot' sq' num' = undo_adj us t' slot' sq' num' + (if (t', slot', sq', num') = (t, slot, sq, num) then delta else 0)"
proof (cases "find (\<lambda>i. undo_is t slot sq num (us ! i)) [0..<SEM_UNDO_MAX]")
  case (Some i)
  have i: "i < SEM_UNDO_MAX" "undo_is t slot sq num (us ! i)" using find_upt0_Some [OF Some] by auto
  let ?adj = "u_adj (us ! i) + delta"
  have "us' = us[i := (us ! i)\<lparr>u_adj := ?adj, u_tgid := if ?adj = 0 then 0 else t\<rparr>]"
    using assms(4,5) Some by (auto simp: undo_add_def Let_def split: if_splits)
  then show ?thesis using i assms(1-3) by (auto simp: undo_adj_upd adj_at_def undo_is_def)
next
  case None
  show ?thesis
  proof (cases "delta = 0")
    case True
    then show ?thesis using assms(4) None by (simp add: undo_add_def)
  next
    case False
    obtain i where i: "find (\<lambda>i. u_tgid (us ! i) = 0) [0..<SEM_UNDO_MAX] = Some i"
        "us' = us[i := \<lparr>u_tgid = t, u_slot = slot, u_seq = sq, u_num = num, u_adj = delta\<rparr>]"
      using assms(4,5) None False by (auto simp: undo_add_def split: option.splits)
    show ?thesis using find_upt0_Some [OF i(1)] assms(1-3) by (auto simp: i(2) undo_adj_upd adj_at_def undo_is_def)
  qed
qed

lemma undo_record_adj:
  assumes "t \<noteq> 0" "t' \<noteq> 0" "undo_record t slot sq pre ops us = (r, us')" "\<not> r < 0" "length us = SEM_UNDO_MAX"
  shows "undo_adj us' t' slot' sq' num' = undo_adj us t' slot' sq' num' -
    (if (t', slot', sq') = (t, slot, sq) then sum_list (map sb_op (filter (\<lambda>b. sb_num b = num' \<and> sb_flg b AND SEM_UNDO \<noteq> 0) ops)) else 0)"
  using assms(3,5)
proof (induction ops arbitrary: pre us)
  case (Cons b ops)
  show ?case
  proof (cases "sb_flg b AND SEM_UNDO \<noteq> 0")
    case True
    obtain ur us1 where a: "undo_add t slot sq (sb_num b) (- sb_op b) us = (ur, us1)" by fastforce
    have l: "length us1 = SEM_UNDO_MAX" using a Cons.prems(2) by (auto simp: undo_add_def Let_def split: option.splits if_splits)
    have ok: "\<not> ur < 0" "undo_record t slot sq (pre @ [b]) ops us1 = (r, us')" using Cons.prems(1) True a assms(4) by (auto split: if_splits)
    show ?thesis using Cons.IH [OF ok(2) l] undo_add_adj [OF Cons.prems(2) assms(1,2) a ok(1), of slot' sq' num'] True by auto
  next
    case False
    then show ?thesis using Cons.IH Cons.prems by simp
  qed
qed simp

subsection \<open>Operations keep the invariant\<close>

definition same_set :: "sysv_semset \<Rightarrow> sysv_semset \<Rightarrow> bool" where
  "same_set q q' \<longleftrightarrow> ss_used q' = ss_used q \<and> p_seq (ss_perm q') = p_seq (ss_perm q) \<and> length (ss_sems q') = length (ss_sems q)"

lemma undos_ok_sets: "(\<And>slot sq num. sem_there sets slot sq num \<Longrightarrow> sem_there sets' slot sq num) \<Longrightarrow> undos_ok sets us \<Longrightarrow> undos_ok sets' us"
  by (auto simp: undos_ok_def undo_ok_def)

lemma sem_there_same:
  assumes "same_set (sets ! k) q" "k < length sets"
  shows "sem_there (sets[k := q]) slot sq num = sem_there sets slot sq num"
  using assms by (cases "slot = k") (auto simp: sem_there_def same_set_def)

lemma set_ss_inv:
  assumes "sem_inv s" "slot < SYSV_SEMMNI" "same_set (semsets s ! slot) q" "ss_used q \<Longrightarrow> vals_ok (sem_vals (ss_sems q))"
  shows "sem_inv (set_ss slot q s)"
proof -
  have len: "length (semsets s) = SYSV_SEMMNI" using assms(1) by (simp add: sem_inv_def)
  have "set_ok q" using assms by (auto simp: sem_inv_def set_ok_def same_set_def)
  then have "\<forall>i<SYSV_SEMMNI. set_ok ((semsets s)[slot := q] ! i)" using assms(1,2) len by (simp add: sem_inv_def nth_list_update)
  moreover have "undos_ok ((semsets s)[slot := q]) (undos s)"
    using assms(1,2) len sem_there_same [OF assms(3)] undos_ok_sets [of "semsets s" "(semsets s)[slot := q]" "undos s"] by (simp add: sem_inv_def)
  moreover have "sets_total ((semsets s)[slot := q]) = sets_total (semsets s)"
    using sets_total_upd [of slot "semsets s" q] assms(2,3) len by (auto simp: set_size_def same_set_def split: if_splits)
  ultimately show ?thesis using assms(1) len by (simp add: sem_inv_def set_ss_def)
qed

lemma undos_upd_inv: "sem_inv s \<Longrightarrow> undos_ok (semsets s) us \<Longrightarrow> sem_inv (s\<lparr>undos := us\<rparr>)"
  by (simp add: sem_inv_def)

lemma set_ss_undos: "(set_ss slot q s)\<lparr>undos := us\<rparr> = set_ss slot q (s\<lparr>undos := us\<rparr>)"
  by (simp add: set_ss_def)

lemma map_upd_same: "f y = f (xs ! i) \<Longrightarrow> map f (xs[i := y]) = map f xs"
  by (induction xs arbitrary: i) (auto split: nat.splits)

lemma sem_vals_waiter [simp]: "sem_vals (count_waiter z i sems) = sem_vals sems" "sem_vals (uncount_waiter z i sems) = sem_vals sems"
  by (auto simp: sem_vals_def count_waiter_def uncount_waiter_def intro!: map_upd_same)

lemma length_waiter [simp]: "length (count_waiter z i sems) = length sems" "length (uncount_waiter z i sems) = length sems"
  by (simp_all add: count_waiter_def uncount_waiter_def)

lemma seq_ops_bounded:
  "sem_seq k vs ops = TryOk \<Longrightarrow> vals_ok vs \<Longrightarrow> \<forall>b\<in>set ops. unat (sb_num b) < length vs \<Longrightarrow> \<forall>b\<in>set ops. \<bar>sb_op b\<bar> \<le> SYSV_SEMVMX"
proof (induction ops arbitrary: k vs)
  case (Cons b ops)
  let ?v = "vs ! unat (sb_num b)"
  have v: "0 \<le> ?v" "?v \<le> SYSV_SEMVMX" using vals_ok_nth [OF Cons.prems(2)] Cons.prems(3) by auto
  have r: "0 \<le> ?v + sb_op b" "?v + sb_op b \<le> SYSV_SEMVMX" "sem_seq (k + 1) (vs[unat (sb_num b) := ?v + sb_op b]) ops = TryOk"
    using Cons.prems(1) v by (auto simp: Let_def split: if_splits)
  have "\<forall>b\<in>set ops. \<bar>sb_op b\<bar> \<le> SYSV_SEMVMX"
    by (rule Cons.IH [OF r(3) vals_ok_upd [OF Cons.prems(2) r(1,2)]]) (use Cons.prems(3) in simp)
  then show ?case using r(1,2) v by simp
qed simp

text \<open>An attempt on a set, with operations inside it.\<close>

definition ops_fit :: "sem_state \<Rightarrow> nat \<Rightarrow> u16 \<Rightarrow> sembuf list \<Rightarrow> bool" where
  "ops_fit s slot sq ops \<longleftrightarrow> slot < SYSV_SEMMNI \<and> ss_used (semsets s ! slot) \<and> p_seq (ss_perm (semsets s ! slot)) = sq \<and>
     (\<forall>b\<in>set ops. unat (sb_num b) < length (ss_sems (semsets s ! slot)))"

definition set_vals :: "sem_state \<Rightarrow> nat \<Rightarrow> int list" where
  "set_vals s slot = sem_vals (ss_sems (semsets s ! slot))"

lemma sem_inv_vals: "sem_inv s \<Longrightarrow> slot < SYSV_SEMMNI \<Longrightarrow> ss_used (semsets s ! slot) \<Longrightarrow> vals_ok (set_vals s slot)"
  by (simp add: sem_inv_def set_ok_def set_vals_def)

lemma ops_fit_seq: "ops_fit s slot sq ops \<Longrightarrow> sem_try (ss_sems (semsets s ! slot)) [] ops = sem_seq 0 (set_vals s slot) ops"
  using sem_try_seq [of "[]" ops "ss_sems (semsets s ! slot)"] by (simp add: ops_fit_def set_vals_def)

lemma length_sem_fold [simp]: "length (fold (sem_apply t) ops sems) = length sems"
  by (induction ops arbitrary: sems) (simp_all add: sem_apply_def Let_def)

text \<open>What a finished attempt does: everything or nothing to the values and the
  adjustments, and nothing to other sets.\<close>

definition op_effect :: "int \<Rightarrow> u16 \<Rightarrow> sembuf list \<Rightarrow> nat \<Rightarrow> sem_state \<Rightarrow> int \<Rightarrow> sem_state \<Rightarrow> bool" where
  "op_effect tg sq ops slot u r t \<longleftrightarrow>
     (if r = 0 then sem_seq 0 (set_vals u slot) ops = TryOk \<and> set_vals t slot = seq_vals (set_vals u slot) ops
      else set_vals t slot = set_vals u slot) \<and> (\<forall>k. k \<noteq> slot \<longrightarrow> semsets t ! k = semsets u ! k) \<and>
     (r = 0 \<longrightarrow> (\<forall>t' slot' sq' num. t' \<noteq> 0 \<longrightarrow> undo_adj (undos t) t' slot' sq' num = undo_adj (undos u) t' slot' sq' num -
        (if (t', slot', sq') = (tg, slot, sq) then sum_list (map sb_op (filter (\<lambda>b. sb_num b = num \<and> sb_flg b AND SEM_UNDO \<noteq> 0) ops)) else 0)))"

lemma undo_record_result: "undo_record t slot sq pre ops us = (r, us') \<Longrightarrow> r \<le> 0"
proof (induction ops arbitrary: pre us)
  case (Cons b ops)
  obtain ur us1 where a: "undo_add t slot sq (sb_num b) (- sb_op b) us = (ur, us1)" by fastforce
  then have "ur \<le> 0" by (auto simp: undo_add_def Let_def split: option.splits if_splits)
  then show ?case using Cons a by (auto split: if_splits)
qed simp

lemma sem_attempt_done:
  assumes "sem_inv s" "ops_fit s slot sq ops" "c_tgid c \<noteq> 0" "sem_attempt c now ops slot sq s = SemDone r t"
  shows "sem_inv t \<and> op_effect (c_tgid c) sq ops slot s r t"
proof -
  let ?q = "semsets s ! slot"
  have slot: "slot < SYSV_SEMMNI" "ss_used ?q" "p_seq (ss_perm ?q) = sq" and fit: "\<forall>b\<in>set ops. unat (sb_num b) < length (ss_sems ?q)"
    and len: "length (semsets s) = SYSV_SEMMNI" using assms(1,2) by (auto simp: ops_fit_def sem_inv_def)
  note vok = sem_inv_vals [OF assms(1) slot(1,2)] and seq = ops_fit_seq [OF assms(2)]
  consider (no) "r \<noteq> 0" "t = s" | (yes) ur us where "sem_seq 0 (set_vals s slot) ops = TryOk"
      "undo_record (c_tgid c) slot sq [] ops (undos s) = (ur, us)"
      "SemDone r t = (if ur < 0 then SemDone ur (s\<lparr>undos := us\<rparr>)
         else SemDone 0 ((set_ss slot (?q\<lparr>ss_sems := fold (sem_apply (c_tgid c)) ops (ss_sems ?q), ss_otime := now\<rparr>) s)\<lparr>undos := us\<rparr>))"
    using assms(4) unfolding sem_attempt_def Let_def seq by (auto split: try_result.splits prod.splits if_splits)
  then show ?thesis
  proof cases
    case no
    then show ?thesis using assms(1) by (simp add: op_effect_def)
  next
    case yes
    have b: "\<forall>b\<in>set ops. sem_there (semsets s) slot sq (sb_num b) \<and> \<bar>sb_op b\<bar> \<le> SYSV_SEMVMX"
      using seq_ops_bounded [OF yes(1) vok] fit slot by (simp add: sem_there_def set_vals_def)
    have us: "undos_ok (semsets s) us"
      by (rule undo_record_ok [OF _ assms(3) _ yes(2)]) (use assms(1) b in \<open>auto simp: sem_inv_def\<close>)
    have ui: "sem_inv (s\<lparr>undos := us\<rparr>)" by (rule undos_upd_inv [OF assms(1) us])
    show ?thesis
    proof (cases "ur < 0")
      case True
      then show ?thesis using yes(3) ui by (simp add: op_effect_def set_vals_def)
    next
      case False
      let ?q' = "?q\<lparr>ss_sems := fold (sem_apply (c_tgid c)) ops (ss_sems ?q), ss_otime := now\<rparr>"
      have t: "r = 0" "t = set_ss slot ?q' (s\<lparr>undos := us\<rparr>)" using yes(3) False by (simp_all add: set_ss_undos)
      have v: "sem_vals (ss_sems ?q') = seq_vals (set_vals s slot) ops" "vals_ok (seq_vals (set_vals s slot) ops)"
        using sem_seq_ok [of 0 "ss_sems ?q" ops "c_tgid c"] yes(1) fit vok by (simp_all add: set_vals_def)
      have "sem_inv t" unfolding t(2) by (rule set_ss_inv [OF ui slot(1)]) (use v in \<open>simp_all add: same_set_def\<close>)
      moreover have "set_vals t slot = seq_vals (set_vals s slot) ops" using v(1) slot(1) len by (simp add: t(2) set_vals_def set_ss_def)
      moreover have "\<forall>k. k \<noteq> slot \<longrightarrow> semsets t ! k = semsets s ! k" by (simp add: t(2) set_ss_def)
      moreover have "length (undos s) = SEM_UNDO_MAX" using assms(1) by (simp add: sem_inv_def undos_ok_def)
      note undo_record_adj [OF assms(3) _ yes(2) False this]
      ultimately show ?thesis using yes(1) t by (simp add: op_effect_def set_ss_def)
    qed
  qed
qed

lemma sem_attempt_sleep:
  assumes "sem_inv s" "ops_fit s slot sq ops" "sem_attempt c now ops slot sq s = SemSleep blk t"
  shows "sem_inv t \<and> ops_fit t slot sq ops \<and> set_vals t slot = set_vals s slot \<and> (\<forall>k. k \<noteq> slot \<longrightarrow> semsets t ! k = semsets s ! k)"
proof -
  let ?q = "semsets s ! slot"
  have slot: "slot < SYSV_SEMMNI" "ss_used ?q" and len: "length (semsets s) = SYSV_SEMMNI" using assms(1,2) by (auto simp: ops_fit_def sem_inv_def)
  let ?q' = "?q\<lparr>ss_sems := count_waiter (sb_op (ops ! blk) = 0) (unat (sb_num (ops ! blk))) (ss_sems ?q)\<rparr>"
  have t: "t = set_ss slot ?q' s"
    using assms(3) by (auto simp: sem_attempt_def Let_def split: try_result.splits prod.splits if_splits)
  have "sem_inv t" unfolding t
    by (rule set_ss_inv [OF assms(1) slot(1)]) (use sem_inv_vals [OF assms(1) slot] in \<open>auto simp: same_set_def set_vals_def\<close>)
  then show ?thesis using assms(2) slot len by (auto simp: t set_vals_def set_ss_def ops_fit_def)
qed

text \<open>Adjustments dropped with their semaphore.\<close>

lemma undo_clear_nth:
  "i < length us \<Longrightarrow> u_tgid (undo_clear slot num us ! i) \<noteq> 0 \<Longrightarrow>
   undo_clear slot num us ! i = us ! i \<and> (num = None \<longrightarrow> u_slot (us ! i) \<noteq> slot)"
  by (auto simp: undo_clear_def split: if_splits)

lemma undo_clear_ok:
  assumes "undos_ok sets us"
    and "\<And>u. undo_ok sets u \<Longrightarrow> (num = None \<Longrightarrow> u_slot u \<noteq> slot) \<Longrightarrow> undo_ok sets' u"
  shows "undos_ok sets' (undo_clear slot num us)"
proof -
  let ?us = "undo_clear slot num us"
  have l: "length us = SEM_UNDO_MAX" "length ?us = SEM_UNDO_MAX" using assms(1) by (simp_all add: undos_ok_def undo_clear_def)
  have k: "?us ! i = us ! i \<and> (num = None \<longrightarrow> u_slot (us ! i) \<noteq> slot)" if "i < SEM_UNDO_MAX" "u_tgid (?us ! i) \<noteq> 0" for i
    using undo_clear_nth that l by metis
  have "undo_ok sets' (?us ! i)" if i: "i < SEM_UNDO_MAX" "u_tgid (?us ! i) \<noteq> 0" for i
  proof -
    have "undo_ok sets (us ! i)" using assms(1) k [OF i] i by (simp add: undos_ok_def)
    then show ?thesis using assms(2) k [OF i] by simp
  qed
  moreover have "i = j" if ij: "i < SEM_UNDO_MAX" "j < SEM_UNDO_MAX" "u_tgid (?us ! i) \<noteq> 0" "undo_key (?us ! i) = undo_key (?us ! j)" for i j
  proof -
    have "u_tgid (?us ! j) \<noteq> 0" using ij by (simp add: undo_key_def)
    then have "?us ! i = us ! i" "?us ! j = us ! j" using k ij by blast+
    then show ?thesis using assms(1) ij unfolding undos_ok_def by metis
  qed
  ultimately show ?thesis using l by (simp add: undos_ok_def)
qed

lemma undo_ok_other: "undo_ok sets u \<Longrightarrow> u_slot u \<noteq> slot \<Longrightarrow> undo_ok (sets[slot := q]) u"
  by (simp add: undo_ok_def sem_there_def)

lemma undo_clear_all: "sem_inv s \<Longrightarrow> undos_ok ((semsets s)[slot := q]) (undo_clear slot None (undos s))"
  by (rule undo_clear_ok [of "semsets s"]) (auto simp: sem_inv_def intro: undo_ok_other)

lemma undo_clear_inv: "sem_inv s \<Longrightarrow> sem_inv (s\<lparr>undos := undo_clear slot num (undos s)\<rparr>)"
  by (rule undos_upd_inv) (auto simp: sem_inv_def intro: undo_clear_ok)

lemma sem_by_id_used: "sem_by_id s x = Some slot \<Longrightarrow> slot < SYSV_SEMMNI \<and> ss_used (semsets s ! slot)"
  by (auto simp: sem_by_id_def Let_def split: if_splits)

lemma sem_remove_inv:
  assumes "sem_inv s" "slot < SYSV_SEMMNI" "ss_used (semsets s ! slot)"
  shows "sem_inv (sem_remove slot s)"
proof -
  let ?q = "(semsets s ! slot)\<lparr>ss_sems := [], ss_used := False\<rparr>"
  have len: "length (semsets s) = SYSV_SEMMNI" using assms(1) by (simp add: sem_inv_def)
  have t: "sets_total ((semsets s)[slot := ?q]) + length (ss_sems (semsets s ! slot)) = sets_total (semsets s)"
    using sets_total_upd [of slot "semsets s" ?q] assms(2,3) len by (simp add: set_size_def)
  have "sem_total s - of_nat (length (ss_sems (semsets s ! slot))) = (of_nat (sets_total ((semsets s)[slot := ?q])) :: u32)"
    using assms(1) by (simp add: sem_inv_def flip: t)
  moreover have "\<forall>i<SYSV_SEMMNI. set_ok ((semsets s)[slot := ?q] ! i)" using assms(1,2) len by (simp add: sem_inv_def nth_list_update set_ok_def)
  moreover have "sets_total ((semsets s)[slot := ?q]) \<le> 8192" using assms(1) t by (simp add: sem_inv_def)
  ultimately show ?thesis
    using assms(1) len undo_clear_all [OF assms(1), of slot ?q] by (simp add: sem_inv_def sem_remove_def set_ss_def)
qed

lemma do_semget_inv:
  assumes "sem_inv s" "do_semget mem c now s key nsems flag = (r, t)"
  shows "sem_inv t"
proof (cases "t = s")
  case False
  define sq where "sq = sem_seq_next s"
  define q where "q slot = semset_zero\<lparr>ss_used := True, ss_perm := perm_init c key flag sq, ss_sems := replicate (nat nsems) sem_zero, ss_ctime := now\<rparr>" for slot :: nat
  obtain slot where f: "find (\<lambda>i. \<not> ss_used (semsets s ! i)) [0..<SYSV_SEMMNI] = Some slot" "0 < nsems" "nsems \<le> SYSV_SEMMSL"
      "\<not> sem_total s + word_of_int nsems > SYSV_SEMMNS"
    and t: "t = (set_ss slot (q slot) s)\<lparr>sem_seq_next := seq_advance sq, sem_total := sem_total s + word_of_int nsems, undos := undo_clear slot None (undos s)\<rparr>"
    using assms(2) False by (auto simp: do_semget_def Let_def sq_def q_def split: option.splits if_splits)
  have slot: "slot < SYSV_SEMMNI" "\<not> ss_used (semsets s ! slot)" using find_upt0_Some [OF f(1)] by auto
  have len: "length (semsets s) = SYSV_SEMMNI" using assms(1) by (simp add: sem_inv_def)
  have tot: "sets_total ((semsets s)[slot := q slot]) = sets_total (semsets s) + nat nsems"
    using sets_total_upd [of slot "semsets s" "q slot"] slot len by (simp add: set_size_def q_def)
  have w: "sem_total s + word_of_int nsems = (of_nat (sets_total (semsets s) + nat nsems) :: u32)"
    using assms(1) f(2) by (simp add: sem_inv_def)
  have "unat (of_nat (sets_total (semsets s) + nat nsems) :: u32) = sets_total (semsets s) + nat nsems"
    using assms(1) f(2,3) by (auto simp: sem_inv_def unat_of_nat take_bit_nat_eq_self simp del: of_nat_add intro!: mod_less)
  then have "sets_total (semsets s) + nat nsems \<le> 8192" using f(4) unfolding w by (simp add: word_less_nat_alt)
  moreover have "set_ok (q slot)" using assms(1) by (auto simp: set_ok_def q_def sem_inv_def vals_ok_def sem_vals_def sem_zero_def perm_init_def sq_def)
  ultimately show ?thesis
    using assms(1) len slot w tot undo_clear_all [OF assms(1), of slot "q slot"] seq_advance_range [of sq]
    by (simp add: t sem_inv_def set_ss_def nth_list_update sq_def)
qed (use assms in simp)

lemma sem_vals_upd: "sem_vals (sems[i := sv]) = (sem_vals sems)[i := uint (sv_val sv)]"
  by (simp add: sem_vals_def map_update)

lemma sem_setval_inv:
  assumes "sem_inv s" "slot < SYSV_SEMMNI" "ss_used (semsets s ! slot)" "0 \<le> v" "v \<le> SYSV_SEMVMX"
  shows "sem_inv (sem_setval c now slot num v s)"
proof -
  have "uint (word_of_int v :: u16) = v" using assms(4,5) by (simp add: uint_word_of_int_eq take_bit_int_eq_self)
  then have "vals_ok ((sem_vals (ss_sems (semsets s ! slot)))[num := uint (word_of_int v :: u16)])"
    using vals_ok_upd [OF sem_inv_vals [OF assms(1-3)] assms(4,5)] by (simp add: set_vals_def)
  then show ?thesis
    unfolding sem_setval_def Let_def set_ss_undos
    by (intro set_ss_inv undo_clear_inv assms) (auto simp: same_set_def sem_vals_upd)
qed

lemma sem_setall_inv:
  assumes "sem_inv s" "slot < SYSV_SEMMNI" "ss_used (semsets s ! slot)" "\<forall>v\<in>set vals. uint v \<le> SYSV_SEMVMX"
    "length vals = length (ss_sems (semsets s ! slot))"
  shows "sem_inv (sem_setall c now slot vals s)"
proof -
  have "sem_vals (map (\<lambda>(sv, v). sv\<lparr>sv_val := v, sv_pid := c_tgid c\<rparr>) (zip sems vals)) = map uint (map snd (zip sems vals))" for sems :: "sem_val list"
    by (simp add: sem_vals_def comp_def split_def)
  then have "vals_ok (sem_vals (map (\<lambda>(sv, v). sv\<lparr>sv_val := v, sv_pid := c_tgid c\<rparr>) (zip (ss_sems (semsets s ! slot)) vals)))"
    using assms(4,5) by (auto simp: vals_ok_def dest: set_zip_rightD)
  then show ?thesis
    unfolding sem_setall_def Let_def set_ss_undos
    by (intro set_ss_inv undo_clear_inv assms) (auto simp: same_set_def assms(5))
qed

lemma perm_set_seq [simp]: "p_seq (perm_set p d) = p_seq p"
  by (simp add: perm_set_def)

lemma semctl_slot_inv:
  assumes "sem_inv s" "slot < SYSV_SEMMNI" "ss_used (semsets s ! slot)" "semctl_slot c now um s num cmd arg ret slot = (r, um', t)"
  shows "sem_inv t"
proof -
  have "vals_ok (sem_vals (ss_sems (semsets s ! slot)))" using sem_inv_vals [OF assms(1-3)] by (simp add: set_vals_def)
  then have set: "sem_inv (set_ss slot ((semsets s ! slot)\<lparr>ss_perm := perm_set p d, ss_ctime := now\<rparr>) s)"
    if "p = ss_perm (semsets s ! slot)" for p d
    using that by (intro set_ss_inv assms) (auto simp: same_set_def)
  show ?thesis
    using assms(4) set [OF refl] sem_remove_inv [OF assms(1-3)] sem_setval_inv [OF assms(1-3)] sem_setall_inv [OF assms(1-3)] assms(1)
    by (auto simp: semctl_slot_def Let_def list_ex_iff not_less read_vals_def split: if_splits prod.splits)
qed

lemma do_semctl_inv:
  assumes "sem_inv s" "do_semctl c now um s x num cmd arg = (r, um', t)"
  shows "sem_inv t"
proof -
  have "sem_inv t'" if "slot < SYSV_SEMMNI" "ss_used (semsets s ! slot)" "semctl_slot c now um s num cmd' arg ret slot = (r', um2, t')" for slot cmd' ret r' um2 t'
    by (rule semctl_slot_inv [OF assms(1) that])
  moreover have "nat x < SYSV_SEMMNI" if "\<not> x < 0" "\<not> int SYSV_SEMMNI \<le> x" using that by simp
  ultimately show ?thesis
    using assms sem_by_id_used [of s x] unfolding do_semctl_def Let_def
    by (auto split: if_splits prod.splits option.splits)
qed

lemma exit_undo_inv:
  assumes "sem_inv s" "i < SEM_UNDO_MAX"
  shows "sem_inv (exit_undo tgid now i s)"
proof -
  let ?u = "undos s ! i" let ?s = "s\<lparr>undos := (undos s)[i := ?u\<lparr>u_tgid := 0\<rparr>]\<rparr>"
  have ui: "sem_inv ?s" by (rule undos_upd_inv [OF assms(1)], rule undos_ok_upd) (use assms in \<open>auto simp: sem_inv_def\<close>)
  let ?q = "semsets s ! u_slot ?u"
  show ?thesis
  proof (cases "u_tgid ?u \<noteq> tgid \<or> \<not> ss_used ?q \<or> p_seq (ss_perm ?q) \<noteq> u_seq ?u \<or> unat (u_num ?u) \<ge> length (ss_sems ?q)")
    case True
    then show ?thesis using assms(1) ui by (auto simp: exit_undo_def Let_def)
  next
    case False
    define v where "v = (let v = uint (sv_val (ss_sems ?q ! unat (u_num ?u))) + u_adj ?u; v = (if v < 0 then 0 else v) in if v > SYSV_SEMVMX then SYSV_SEMVMX else v)"
    define q' where "q' = ?q\<lparr>ss_sems := (ss_sems ?q)[unat (u_num ?u) := (ss_sems ?q ! unat (u_num ?u))\<lparr>sv_val := word_of_int v, sv_pid := tgid\<rparr>], ss_ctime := now\<rparr>"
    have v: "0 \<le> v" "v \<le> SYSV_SEMVMX" by (auto simp: v_def Let_def)
    then have uv: "uint (word_of_int v :: u16) = v" by (simp add: uint_word_of_int_eq take_bit_int_eq_self)
    have e: "exit_undo tgid now i s = set_ss (u_slot ?u) q' ?s" using False by (simp add: exit_undo_def q'_def v_def Let_def)
    show ?thesis
    proof (cases "u_slot ?u < SYSV_SEMMNI")
      case True
      have "vals_ok (sem_vals (ss_sems ?q))" using sem_inv_vals [OF assms(1) True] False by (simp add: set_vals_def)
      then have "vals_ok (sem_vals (ss_sems q'))" using vals_ok_upd v by (simp add: q'_def sem_vals_upd uv)
      then show ?thesis unfolding e by (intro set_ss_inv [OF ui True]) (auto simp: same_set_def q'_def)
    next
      case False
      then have "set_ss (u_slot ?u) q' ?s = ?s" using assms(1) by (cases s) (simp add: set_ss_def sem_inv_def list_update_beyond)
      then show ?thesis using e ui by simp
    qed
  qed
qed

lemma sysv_sem_exit_inv: "sem_inv s \<Longrightarrow> sem_inv (sysv_sem_exit others tgid now s)"
proof -
  have "sem_inv s \<Longrightarrow> \<forall>i\<in>set is. i < SEM_UNDO_MAX \<Longrightarrow> sem_inv (fold (exit_undo tgid now) is s)" for "is" s
    by (induction "is" arbitrary: s) (auto intro: exit_undo_inv)
  then show "sem_inv s \<Longrightarrow> sem_inv (sysv_sem_exit others tgid now s)" by (simp add: sysv_sem_exit_def)
qed

subsection \<open>Waiting calls\<close>

text \<open>
  What a sleeper may find: any table, in which its id, if it still names a set, names one its
  operations fit (the same set, as long as the id has not been reused for another one).
\<close>

definition found_ok :: "sembuf list \<Rightarrow> nat \<Rightarrow> u16 \<Rightarrow> sem_state \<Rightarrow> bool" where
  "found_ok ops slot sq s \<longleftrightarrow> sem_inv s \<and> slot < SYSV_SEMMNI \<and>
     (ss_used (semsets s ! slot) \<and> p_seq (ss_perm (semsets s ! slot)) = sq \<longrightarrow> ops_fit s slot sq ops)"

lemma op_effect_trans:
  "op_effect tg sq ops slot u r t \<Longrightarrow> set_vals u slot = set_vals v slot \<Longrightarrow> \<forall>k. k \<noteq> slot \<longrightarrow> semsets u ! k = semsets v ! k \<Longrightarrow> undos u = undos v \<Longrightarrow> op_effect tg sq ops slot v r t"
  by (auto simp: op_effect_def split: if_splits)

lemma sem_wake_cases:
  assumes "found_ok ops slot sq s"
  obtains (fin) r t where "sem_wake ops slot sq blk s w = Inl (SemDone r t)" "r \<noteq> 0" "sem_inv t" "op_effect tg sq ops slot s r t"
    | (again) t where "sem_wake ops slot sq blk s w = Inr t" "sem_inv t" "ops_fit t slot sq ops" "set_vals t slot = set_vals s slot"
        "\<forall>k. k \<noteq> slot \<longrightarrow> semsets t ! k = semsets s ! k" "undos t = undos s"
proof (cases "\<not> ss_used (semsets s ! slot) \<or> p_seq (ss_perm (semsets s ! slot)) \<noteq> sq")
  case True
  then show thesis using assms by (intro fin [of "- EIDRM" s]) (auto simp: sem_wake_def Let_def found_ok_def op_effect_def)
next
  case False
  let ?q = "semsets s ! slot"
  define t where "t = set_ss slot (?q\<lparr>ss_sems := uncount_waiter (sb_op (ops ! blk) = 0) (unat (sb_num (ops ! blk))) (ss_sems ?q)\<rparr>) s"
  have s: "sem_inv s" "slot < SYSV_SEMMNI" "ops_fit s slot sq ops" and len: "length (semsets s) = SYSV_SEMMNI"
    using assms False by (auto simp: found_ok_def sem_inv_def)
  have w: "sem_wake ops slot sq blk s w = (if w \<noteq> 0 then Inl (SemDone w t) else Inr t)" using False by (simp add: sem_wake_def t_def Let_def)
  have "sem_inv t" unfolding t_def
    by (rule set_ss_inv [OF s(1,2)]) (use sem_inv_vals [OF s(1,2)] in \<open>auto simp: same_set_def set_vals_def\<close>)
  moreover have "ops_fit t slot sq ops" "set_vals t slot = set_vals s slot" "\<forall>k. k \<noteq> slot \<longrightarrow> semsets t ! k = semsets s ! k" "undos t = undos s"
    using s len by (auto simp: t_def set_vals_def set_ss_def ops_fit_def)
  ultimately show thesis using w fin [of w t] again [of t] by (cases "w = 0") (auto simp: op_effect_def)
qed

lemma semop_loop_effect:
  assumes "sem_inv s" "ops_fit s slot sq ops" "c_tgid c \<noteq> 0" "\<forall>(s', w)\<in>set ws. found_ok ops slot sq s'"
    "semop_loop ws c now ops slot sq s = Some (r, t)"
  shows "sem_inv t \<and> (\<exists>u\<in>insert s (fst ` set ws). op_effect (c_tgid c) sq ops slot u r t)"
  using assms(1,2,4,5)
proof (induction ws arbitrary: s)
  case Nil
  then show ?case using sem_attempt_done [OF Nil(1,2) assms(3)] by (auto simp: semop_loop.simps [of "[]"] split: sem_outcome.splits)
next
  case (Cons sw ws)
  obtain s' w where sw: "sw = (s', w)" by fastforce
  show ?case
  proof (cases "sem_attempt c now ops slot sq s")
    case (SemDone r' t')
    then show ?thesis using Cons.prems(4) sem_attempt_done [OF Cons.prems(1,2) assms(3)] by (auto simp: semop_loop.simps [of "sw # ws"])
  next
    case (SemSleep blk t')
    have "found_ok ops slot sq s'" using Cons.prems(3) sw by simp
    then show ?thesis
    proof (cases rule: sem_wake_cases [of ops slot sq s' blk w "c_tgid c", case_names fin again])
      case (fin r' t')
      then show ?thesis using Cons.prems(4) SemSleep sw by (auto simp: semop_loop.simps [of "(s', w) # ws"])
    next
      case (again t1)
      have "semop_loop ws c now ops slot sq t1 = Some (r, t)" using Cons.prems(4) SemSleep sw again(1) by (simp add: semop_loop.simps [of "(s', w) # ws"])
      then have IH: "sem_inv t \<and> (\<exists>u\<in>insert t1 (fst ` set ws). op_effect (c_tgid c) sq ops slot u r t)"
        using Cons.IH [OF again(2,3)] Cons.prems(3) by auto
      then show ?thesis using op_effect_trans [OF _ again(4-6)] sw by auto
    qed
  qed
qed

lemma do_semtimedop_loop:
  assumes "do_semtimedop ws c now um s x uops nops = Some (r, t)"
  obtains (early) "t = s" "r \<noteq> 0"
    | (loop) slot ops sq where "sem_by_id s x = Some slot" "ops = read_sembufs (unat nops) (snd (copy_from_user um uops (unat nops * 6)))"
        "sq = p_seq (ss_perm (semsets s ! slot))" "ops_fit s slot sq ops" "semop_loop ws c now ops slot sq s = Some (r, t)"
proof (cases "t = s \<and> r \<noteq> 0")
  case False
  obtain cr bs where cp: "copy_from_user um uops (unat nops * 6) = (cr, bs)" by fastforce
  obtain slot where slot: "sem_by_id s x = Some slot" "\<forall>b\<in>set (read_sembufs (unat nops) bs). unat (sb_num b) < length (ss_sems (semsets s ! slot))"
      "semop_loop ws c now (read_sembufs (unat nops) bs) slot (p_seq (ss_perm (semsets s ! slot))) s = Some (r, t)"
    using assms False by (auto simp: do_semtimedop_def cp Let_def list_ex_iff not_le split: if_splits option.splits)
  then show thesis using loop [OF slot(1) _ refl] sem_by_id_used [OF slot(1)] cp by (simp add: ops_fit_def)
qed (auto intro: early)

text \<open>A sleeper woken with its answer: what one turn of its loop does to the table.\<close>

definition sem_resume :: "cred \<Rightarrow> u32 \<Rightarrow> sembuf list \<Rightarrow> nat \<Rightarrow> u16 \<Rightarrow> nat \<Rightarrow> sem_state \<Rightarrow> int \<Rightarrow> sem_outcome" where
  "sem_resume c now ops slot sq blk s w =
     (case sem_wake ops slot sq blk s w of Inl out \<Rightarrow> out | Inr t \<Rightarrow> sem_attempt c now ops slot sq t)"

text \<open>The sections of code that run under the lock, by any tasks in any order.\<close>

inductive sem_step :: "sem_state \<Rightarrow> sem_state \<Rightarrow> bool" where
  get: "do_semget mem c now s key nsems flag = (r, t) \<Longrightarrow> sem_step s t"
| ctl: "do_semctl c now um s x num cmd arg = (r, um', t) \<Longrightarrow> sem_step s t"
| op: "do_semtimedop [] c now um s x uops nops = Some (r, t) \<Longrightarrow> c_tgid c \<noteq> 0 \<Longrightarrow> sem_step s t"
| op_sleep: "ops_fit s slot sq ops \<Longrightarrow> sem_attempt c now ops slot sq s = SemSleep blk t \<Longrightarrow> sem_step s t"
| op_wake: "found_ok ops slot sq s \<Longrightarrow> c_tgid c \<noteq> 0 \<Longrightarrow> sem_resume c now ops slot sq blk s w = SemDone r t \<Longrightarrow> sem_step s t"
| op_again: "found_ok ops slot sq s \<Longrightarrow> c_tgid c \<noteq> 0 \<Longrightarrow> sem_resume c now ops slot sq blk s w = SemSleep blk' t \<Longrightarrow> sem_step s t"
| exit: "sem_step s (sysv_sem_exit others tgid now s)"

lemma sem_resume_inv:
  assumes "found_ok ops slot sq s" "c_tgid c \<noteq> 0" "sem_resume c now ops slot sq blk s w = out" "out = SemDone r t \<or> out = SemSleep b t"
  shows "sem_inv t"
  using assms(1)
proof (cases rule: sem_wake_cases [of ops slot sq s blk w "c_tgid c", case_names fin again])
  case (fin r' t')
  then show ?thesis using assms(3,4) by (auto simp: sem_resume_def)
next
  case (again t')
  then show ?thesis
    using assms(3,4) sem_attempt_done [OF again(2,3) assms(2)] sem_attempt_sleep [OF again(2,3)] by (auto simp: sem_resume_def)
qed

lemma sem_step_inv: "sem_step s t \<Longrightarrow> sem_inv s \<Longrightarrow> sem_inv t"
proof (induction rule: sem_step.induct)
  case (op c now um s x uops nops r t)
  from op(1) show ?case
  proof (cases rule: do_semtimedop_loop)
    case (loop slot ops sq)
    then show ?thesis using semop_loop_effect [OF op(3) loop(4) op(2) _ loop(5)] by simp
  qed (simp add: op)
next
  case (op_sleep s slot sq ops c now blk t)
  then show ?case using sem_attempt_sleep by blast
next
  case (op_wake ops slot sq s c now blk w r t)
  then show ?case using sem_resume_inv by blast
next
  case (op_again ops slot sq s c now blk w blk' t)
  then show ?case using sem_resume_inv by blast
qed (auto intro: do_semget_inv do_semctl_inv sysv_sem_exit_inv)

lemma sem_boot_inv: "sem_inv sem_boot"
proof -
  have "sets_total (replicate n semset_zero) = 0" for n by (induction n) (auto simp: sets_total_def set_size_def semset_zero_def)
  then show ?thesis by (simp add: sem_inv_def sem_boot_def undos_ok_def set_ok_def semset_zero_def undo_free_def)
qed

interpretation sem_system: transition_invariant "\<lambda>s. s = sem_boot" sem_step sem_inv
  by unfold_locales (auto intro: sem_boot_inv sem_step_inv)

subsection \<open>Exit\<close>

definition clamp :: "int \<Rightarrow> int" where
  "clamp v = min SYSV_SEMVMX (max 0 v)"

lemma uint_clamp [simp]: "uint (word_of_int (clamp v) :: u16) = clamp v"
  by (simp add: uint_word_of_int_eq take_bit_int_eq_self clamp_def)

lemma exit_undo_vals:
  assumes "sem_inv s" "i < SEM_UNDO_MAX" "tgid \<noteq> 0" "slot < SYSV_SEMMNI" "ss_used (semsets s ! slot)"
    "p_seq (ss_perm (semsets s ! slot)) = sq" "unat num < length (ss_sems (semsets s ! slot))"
    and t_def: "t = exit_undo tgid now i s"
  shows "set_vals t slot ! unat num = (if undo_is tgid slot sq num (undos s ! i)
      then clamp (set_vals s slot ! unat num + u_adj (undos s ! i)) else set_vals s slot ! unat num)"
    and "undos t = (if u_tgid (undos s ! i) = tgid then (undos s)[i := (undos s ! i)\<lparr>u_tgid := 0\<rparr>] else undos s)"
    and "same_set (semsets s ! slot) (semsets t ! slot)"
proof -
  let ?u = "undos s ! i" let ?q = "semsets s ! u_slot ?u" let ?n = "unat (u_num ?u)"
  have len: "length (semsets s) = SYSV_SEMMNI" using assms(1) by (simp add: sem_inv_def)
  have A: "(set_vals t slot ! unat num = (if undo_is tgid slot sq num ?u then clamp (set_vals s slot ! unat num + u_adj ?u) else set_vals s slot ! unat num)) \<and>
    undos t = (if u_tgid ?u = tgid then (undos s)[i := ?u\<lparr>u_tgid := 0\<rparr>] else undos s) \<and> same_set (semsets s ! slot) (semsets t ! slot)"
  proof (cases "u_tgid ?u = tgid")
    case False
    then show ?thesis by (simp add: t_def exit_undo_def undo_is_def same_set_def)
  next
    case True
    then have "undo_ok (semsets s) ?u" using assms(1-3) by (simp add: sem_inv_def undos_ok_def)
    then have th: "u_slot ?u < SYSV_SEMMNI" "ss_used ?q" "p_seq (ss_perm ?q) = u_seq ?u" "?n < length (ss_sems ?q)" by (auto simp: undo_ok_def sem_there_def)
    define v where "v = clamp (uint (sv_val (ss_sems ?q ! ?n)) + u_adj ?u)"
    have t: "t = set_ss (u_slot ?u) (?q\<lparr>ss_sems := (ss_sems ?q)[?n := (ss_sems ?q ! ?n)\<lparr>sv_val := word_of_int v, sv_pid := tgid\<rparr>], ss_ctime := now\<rparr>)
        (s\<lparr>undos := (undos s)[i := ?u\<lparr>u_tgid := 0\<rparr>]\<rparr>)"
      using th True by (simp add: t_def exit_undo_def Let_def v_def clamp_def min_def max_def)
    have eq: "undo_is tgid slot sq num ?u \<longleftrightarrow> u_slot ?u = slot \<and> ?n = unat num"
      using True th(3) assms(6) by (auto simp: undo_is_def word_unat_eq_iff)
    show ?thesis
      using th len True assms(4,7) unfolding eq
      by (auto simp: t set_ss_def set_vals_def sem_vals_upd same_set_def nth_list_update sem_vals_def v_def)
  qed
  from A show "set_vals t slot ! unat num = (if undo_is tgid slot sq num (undos s ! i)
      then clamp (set_vals s slot ! unat num + u_adj (undos s ! i)) else set_vals s slot ! unat num)" by blast
  from A show "undos t = (if u_tgid (undos s ! i) = tgid then (undos s)[i := (undos s ! i)\<lparr>u_tgid := 0\<rparr>] else undos s)" by blast
  from A show "same_set (semsets s ! slot) (semsets t ! slot)" by blast
qed

lemma undo_adj_unique:
  assumes "undos_ok sets us" "i < SEM_UNDO_MAX" "t \<noteq> 0" "undo_is t slot sq num (us ! i)"
  shows "undo_adj us t slot sq num = u_adj (us ! i)"
proof -
  have l: "length us = SEM_UNDO_MAX" using assms(1) by (simp add: undos_ok_def)
  have "\<not> undo_is t slot sq num (us ! j)" if "j < SEM_UNDO_MAX" "j \<noteq> i" for j
  proof
    assume "undo_is t slot sq num (us ! j)"
    then have "undo_key (us ! j) = undo_key (us ! i)" "u_tgid (us ! j) \<noteq> 0" using assms(3,4) by (auto simp: undo_is_def undo_key_def)
    then show False using assms(1,2) that unfolding undos_ok_def by metis
  qed
  then have "\<forall>u\<in>set (us[i := undo_free]). adj_at t slot sq num u = 0"
    using l assms(2,3) by (auto simp: in_set_conv_nth nth_list_update adj_at_def) (auto simp: undo_is_def undo_free_def split: if_splits)
  then have "undo_adj (us[i := undo_free]) t slot sq num = 0" by (simp add: undo_adj_sum cong: map_cong)
  then show ?thesis using assms(2-4) l undo_adj_upd [of i us undo_free t slot sq num] by (simp add: adj_at_def) (simp add: undo_is_def undo_free_def)
qed

lemma undo_adj_none:
  assumes "length us = SEM_UNDO_MAX" "\<forall>i<SEM_UNDO_MAX. \<not> undo_is t slot sq num (us ! i)"
  shows "undo_adj us t slot sq num = 0"
proof -
  have "filter (undo_is t slot sq num) us = []" using assms by (auto simp: filter_empty_conv in_set_conv_nth)
  then show ?thesis by (simp add: undo_adj_def)
qed

lemma find_append: "find P (xs @ ys) = (case find P xs of None \<Rightarrow> find P ys | Some x \<Rightarrow> Some x)"
  by (induction xs) auto

lemma exit_fold:
  assumes "sem_inv s" "tgid \<noteq> 0" "slot < SYSV_SEMMNI" "ss_used (semsets s ! slot)"
    "p_seq (ss_perm (semsets s ! slot)) = sq" "unat num < length (ss_sems (semsets s ! slot))" "k \<le> SEM_UNDO_MAX"
    and t_def: "t = fold (exit_undo tgid now) [0..<k] s"
  shows "sem_inv t \<and> same_set (semsets s ! slot) (semsets t ! slot) \<and>
    (\<forall>i<SEM_UNDO_MAX. undos t ! i = (if i < k \<and> u_tgid (undos s ! i) = tgid then (undos s ! i)\<lparr>u_tgid := 0\<rparr> else undos s ! i)) \<and>
    set_vals t slot ! unat num = (case find (\<lambda>i. undo_is tgid slot sq num (undos s ! i)) [0..<k] of
       None \<Rightarrow> set_vals s slot ! unat num | Some i \<Rightarrow> clamp (set_vals s slot ! unat num + u_adj (undos s ! i)))"
  using assms(7) t_def
proof (induction k arbitrary: t)
  case 0
  then show ?case using assms(1) by (simp add: same_set_def)
next
  case (Suc k)
  define t1 where "t1 = fold (exit_undo tgid now) [0..<k] s"
  let ?P = "\<lambda>i. undo_is tgid slot sq num (undos s ! i)"
  have k: "k < SEM_UNDO_MAX" and t: "t = exit_undo tgid now k t1" using Suc.prems by (simp_all add: t1_def)
  note IH = Suc.IH [OF less_imp_le [OF k] t1_def]
  have inv: "sem_inv t1" and sm: "same_set (semsets s ! slot) (semsets t1 ! slot)" and uk: "undos t1 ! k = undos s ! k" using IH k by simp_all
  have l: "length (undos t1) = SEM_UNDO_MAX" using inv by (simp add: sem_inv_def undos_ok_def)
  note e = exit_undo_vals [OF inv k assms(2,3) _ _ _ t, of sq num]
  have sq: "ss_used (semsets t1 ! slot)" "p_seq (ss_perm (semsets t1 ! slot)) = sq" "unat num < length (ss_sems (semsets t1 ! slot))"
    using sm assms(4-6) by (auto simp: same_set_def)
  have uniq: "find ?P [0..<k] = None" if "?P k"
  proof (rule ccontr)
    assume "find ?P [0..<k] \<noteq> None"
    then obtain j where j: "j < k" "?P j" using find_upt0_Some by blast
    then have "undo_key (undos s ! j) = undo_key (undos s ! k)" "u_tgid (undos s ! j) \<noteq> 0" using that assms(2) by (auto simp: undo_is_def undo_key_def)
    moreover have "j < SEM_UNDO_MAX" using j k by simp
    ultimately have "j = k" using assms(1) k unfolding sem_inv_def undos_ok_def by blast
    then show False using j by simp
  qed
  have v: "set_vals t slot ! unat num = (case find ?P [0..<Suc k] of
       None \<Rightarrow> set_vals s slot ! unat num | Some i \<Rightarrow> clamp (set_vals s slot ! unat num + u_adj (undos s ! i)))"
  proof (cases "?P k")
    case True
    then show ?thesis using e(1) [OF sq] IH uniq [OF True] uk by (simp add: find_append)
  next
    case False
    then show ?thesis using e(1) [OF sq] IH uk by (simp add: find_append split: option.splits)
  qed
  have "undos t ! i = (if i < Suc k \<and> u_tgid (undos s ! i) = tgid then (undos s ! i)\<lparr>u_tgid := 0\<rparr> else undos s ! i)" if "i < SEM_UNDO_MAX" for i
  proof (cases "i = k")
    case True
    then show ?thesis using e(2) [OF sq] uk l that by simp
  next
    case False
    then have "undos t ! i = undos t1 ! i" using e(2) [OF sq] by simp
    then show ?thesis using IH that False by (simp add: less_Suc_eq)
  qed
  moreover have "sem_inv t" unfolding t by (rule exit_undo_inv [OF inv k])
  moreover have "same_set (semsets s ! slot) (semsets t ! slot)" using sm e(3) [OF sq] by (simp add: same_set_def)
  ultimately show ?case using v by blast
qed

section \<open>Properties\<close>

text \<open>in every reachable table the values of the semaphores are between 0 and SEMVMX, the total is the number of
  semaphores in existence and at most SEMMNS, and every adjustment in use is for an existing semaphore, bounded, not
  zero, and the only one of its process for that semaphore.\<close>

theorem sem_table_consistent: "sem_step\<^sup>*\<^sup>* sem_boot s \<Longrightarrow> sem_inv s"
  by (rule sem_system.inv_reachable [OF refl])

text \<open>C30: testing a list of operations against the array with sums over the earlier ones is running them one after
  the other on a copy of the values.\<close>

theorem sem_try_sequential:
  assumes "\<forall>b\<in>set ops. unat (sb_num b) < length sems"
  shows "sem_try sems [] ops = sem_seq 0 (sem_vals sems) ops"
  using sem_try_seq [of "[]" ops sems] assms by simp


text \<open>C21: when the last task of a process exits, each semaphore becomes its value plus the process's adjustment, kept
  between 0 and SEMVMX; the adjustments of the process are gone and those of the others stay.\<close>

theorem sem_exit_applies:
  assumes "sem_inv s" "tgid \<noteq> 0" "\<not> list_ex (\<lambda>(t, alive). t = tgid \<and> alive) others" "slot < SYSV_SEMMNI"
    "ss_used (semsets s ! slot)" "unat num < length (ss_sems (semsets s ! slot))"
    and "t = sysv_sem_exit others tgid now s"
  shows "set_vals t slot ! unat num =
      clamp (set_vals s slot ! unat num + undo_adj (undos s) tgid slot (p_seq (ss_perm (semsets s ! slot))) num) \<and>
    (\<forall>i<SEM_UNDO_MAX. u_tgid (undos t ! i) \<noteq> tgid \<and> (u_tgid (undos s ! i) \<noteq> tgid \<longrightarrow> undos t ! i = undos s ! i))"
proof (rule conjI)
  let ?sq = "p_seq (ss_perm (semsets s ! slot))" let ?P = "\<lambda>i. undo_is tgid slot ?sq num (undos s ! i)"
  have t: "t = fold (exit_undo tgid now) [0..<SEM_UNDO_MAX] s" using assms(3,7) by (simp add: sysv_sem_exit_def)
  have uok: "undos_ok (semsets s) (undos s)" using assms(1) by (simp add: sem_inv_def)
  have v: "0 \<le> set_vals s slot ! unat num" "set_vals s slot ! unat num \<le> SYSV_SEMVMX"
    using vals_ok_nth [OF sem_inv_vals [OF assms(1,4,5)]] assms(6) by (simp_all add: set_vals_def)
  note f = exit_fold [OF assms(1,2,4,5) refl assms(6) order.refl t]
  have "set_vals t slot ! unat num = (case find ?P [0..<SEM_UNDO_MAX] of
       None \<Rightarrow> set_vals s slot ! unat num | Some i \<Rightarrow> clamp (set_vals s slot ! unat num + u_adj (undos s ! i)))" using f by blast
  moreover have "undo_adj (undos s) tgid slot ?sq num = (case find ?P [0..<SEM_UNDO_MAX] of None \<Rightarrow> 0 | Some i \<Rightarrow> u_adj (undos s ! i))"
  proof (cases "find ?P [0..<SEM_UNDO_MAX]")
    case None
    then have "undo_adj (undos s) tgid slot ?sq num = 0" using undo_adj_none uok by (simp add: find_upt0_None undos_ok_def)
    then show ?thesis by (simp only: None option.case)
  next
    case (Some i)
    then show ?thesis using undo_adj_unique [OF uok _ assms(2)] find_upt0_Some [OF Some] by simp
  qed
  ultimately show "set_vals t slot ! unat num = clamp (set_vals s slot ! unat num + undo_adj (undos s) tgid slot ?sq num)"
    using v by (simp add: clamp_def split: option.splits)
  show "\<forall>i<SEM_UNDO_MAX. u_tgid (undos t ! i) \<noteq> tgid \<and> (u_tgid (undos s ! i) \<noteq> tgid \<longrightarrow> undos t ! i = undos s ! i)"
    using f assms(2) by simp
qed

text \<open>A failing list of operations can lose adjustments: the ones already recorded are taken back first to last, and one
  that is then out of range is skipped. Here 30000 becomes 20000.\<close>

lemma undo_rollback_loses:
  fixes rest :: "sysv_undo list"
  defines "a v n \<equiv> \<lparr>u_tgid = 7, u_slot = 0, u_seq = 1, u_num = n, u_adj = v\<rparr>"
    and "op n v \<equiv> \<lparr>sb_num = n, sb_op = v, sb_flg = SEM_UNDO\<rparr>"
  shows "undo_record 7 0 1 [] [op 0 10000, op 0 (- 10000), op 1 (- 1)] (a 30000 0 # a 32767 1 # rest) = (- ERANGE, a 20000 0 # a 32767 1 # rest)"
proof -
  have f0: "find (\<lambda>i. undo_is 7 0 1 0 ((a v 0 # us) ! i)) [0..<SEM_UNDO_MAX] = Some 0" for v us
    by (simp add: find_upt_Some undo_is_def a_def)
  have f1: "find (\<lambda>i. undo_is 7 0 1 1 ((a v 0 # a w 1 # us) ! i)) [0..<SEM_UNDO_MAX] = Some 1" for v w us
    by (simp add: find_upt_Some undo_is_def a_def)
  have upd: "(a v n)\<lparr>u_adj := v', u_tgid := 7\<rparr> = a v' n" for v n v' by (simp add: a_def)
  have adj: "u_adj (a v n) = v" for v n by (simp add: a_def)
  have ops: "sb_num (op n v) = n" "sb_op (op n v) = v" "sb_flg (op n v) AND SEM_UNDO \<noteq> 0" for n v by (simp_all add: op_def)
  show ?thesis by (simp add: undo_add_def f0 f1 [simplified] upd adj ops Let_def)
qed

section \<open>Witnesses\<close>

definition sem_example :: sem_state where
  "sem_example = snd (do_semget True root_cred 0 sem_boot 0 1 0x1B6)"

definition sem_um :: umem where
  "sem_um = um_all\<lparr>ubyte := (\<lambda>_. 0)(0x10002 := 3, 0x10005 := 0x10)\<rparr>"

lemma sem_example_eq:
  "semsets sem_example = (replicate SYSV_SEMMNI semset_zero)[0 := semset_zero\<lparr>ss_used := True, ss_perm := perm_init root_cred 0 0x1B6 1, ss_sems := [sem_zero]\<rparr>]"
  "undos sem_example = replicate SEM_UNDO_MAX undo_free" "sem_step\<^sup>*\<^sup>* sem_boot sem_example" "sem_by_id sem_example 128 = Some 0"
proof -
  have f: "find (\<lambda>i. \<not> ss_used (semsets sem_boot ! i)) [0..<SYSV_SEMMNI] = Some 0"
    by (simp add: find_upt_Some sem_boot_def semset_zero_def)
  have tot: "\<not> sem_total sem_boot + 1 > SYSV_SEMMNS" by (simp add: sem_boot_def)
  note e = sem_example_def do_semget_def f set_ss_def Let_def
  show q: "semsets sem_example = (replicate SYSV_SEMMNI semset_zero)[0 := semset_zero\<lparr>ss_used := True, ss_perm := perm_init root_cred 0 0x1B6 1, ss_sems := [sem_zero]\<rparr>]"
    using tot by (simp add: e) (simp add: sem_boot_def semset_zero_def)
  show "undos sem_example = replicate SEM_UNDO_MAX undo_free" using tot by (simp add: e undo_clear_def) (simp add: sem_boot_def undo_free_def)
  show "sem_step\<^sup>*\<^sup>* sem_boot sem_example"
    unfolding sem_example_def by (intro r_into_rtranclp) (metis sem_step.get prod.collapse)
  show "sem_by_id sem_example 128 = Some 0" by (simp add: sem_by_id_def q perm_init_def)
qed

lemma sem_example_inv: "sem_inv sem_example"
  by (rule sem_system.inv_reachable [OF refl sem_example_eq(3)])

lemma sem_um_ops: "copy_from_user sem_um 0x10000 6 = (0, [0, 0, 3, 0, 0, 0x10])"
proof -
  have a: "access_ok sem_um x n = access_ok um_all x n" for x n
    by (rule access_ok_cong) (simp_all add: sem_um_def)
  have "movsb_from sem_um 0x10000 (Suc (Suc (Suc (Suc (Suc (Suc 0)))))) = (0, [0, 0, 3, 0, 0, 0x10])" by (simp add: sem_um_def um_all_def)
  moreover have "(6 :: nat) = Suc (Suc (Suc (Suc (Suc (Suc 0)))))" by simp
  ultimately have "movsb_from sem_um 0x10000 6 = (0, [0, 0, 3, 0, 0, 0x10])" by (simp only:)
  then show ?thesis using access_ok_um_all [of "0x10000" 6] by (simp add: copy_from_user_def a)
qed

lemma sem_um_read: "read_sembufs 1 [0, 0, 3, 0, 0, 0x10] = [\<lparr>sb_num = 0, sb_op = 3, sb_flg = 0x1000\<rparr>]"
  by (simp add: le_bytes_def One_nat_def)

theorem sem_table_consistent_witness: "sem_inv sem_example \<and> set_vals sem_example 0 = [0]"
  using sem_table_consistent [OF sem_example_eq(3)] by (simp add: sem_example_eq set_vals_def sem_vals_def sem_zero_def)

theorem sem_try_sequential_witness:
  "sem_try [sem_zero] [] [\<lparr>sb_num = 0, sb_op = 1, sb_flg = 0\<rparr>, \<lparr>sb_num = 0, sb_op = 0, sb_flg = 0\<rparr>] = TryBlock 1"
  by (subst sem_try_sequential) (simp_all add: sem_vals_def sem_zero_def)

lemma sem_example_op:
  obtains t where "do_semtimedop [] root_cred 0 sem_um sem_example 128 0x10000 1 = Some (0, t)" "sem_inv t"
    "op_effect 1 1 [\<lparr>sb_num = 0, sb_op = 3, sb_flg = 0x1000\<rparr>] 0 sem_example 0 t" "same_set (semsets sem_example ! 0) (semsets t ! 0)"
proof -
  let ?ops = "[\<lparr>sb_num = 0, sb_op = 3, sb_flg = 0x1000\<rparr>]"
  have tg: "c_tgid root_cred = 1" by (simp add: root_cred_def)
  have fit: "ops_fit sem_example 0 1 ?ops" by (simp add: ops_fit_def sem_example_eq perm_init_def)
  have sq: "p_seq (ss_perm (semsets sem_example ! 0)) = 1" by (simp add: sem_example_eq perm_init_def)
  have f: "find (\<lambda>i. undo_is 1 0 1 0 (undos sem_example ! i)) [0..<SEM_UNDO_MAX] = None"
    by (simp add: find_upt_None sem_example_eq(2) undo_is_def undo_free_def)
  have g: "find (\<lambda>i. u_tgid (undos sem_example ! i) = 0) [0..<SEM_UNDO_MAX] = Some 0"
    by (simp add: find_upt_Some sem_example_eq(2) undo_free_def)
  have v: "set_vals sem_example 0 = [0]" by (simp add: sem_example_eq set_vals_def sem_vals_def sem_zero_def)
  obtain us where us: "undo_record 1 0 1 [] ?ops (undos sem_example) = (0, us)"
    by (simp add: undo_add_def f g)
  have "sem_try (ss_sems (semsets sem_example ! 0)) [] ?ops = TryOk" using ops_fit_seq [OF fit] v by simp
  then obtain t where t: "sem_attempt root_cred 0 ?ops 0 1 sem_example = SemDone 0 t" "same_set (semsets sem_example ! 0) (semsets t ! 0)"
    using us tg by (simp add: sem_attempt_def Let_def set_ss_def same_set_def) (simp add: sem_example_eq sem_apply_def)
  have "do_semtimedop [] root_cred 0 sem_um sem_example 128 0x10000 1 = Some (0, t)"
    using t sem_um_ops sem_um_read fit by (simp add: do_semtimedop_def sem_example_eq(4) semop_loop.simps sq ops_fit_def)
  then show thesis using that sem_attempt_done [OF sem_example_inv fit _ t(1)] t(2) tg by simp
qed


theorem sem_exit_applies_witness:
  "\<exists>s t. set_vals s 0 = [3] \<and> t = sysv_sem_exit [] 1 0 s \<and> set_vals t 0 ! 0 = 0"
proof -
  obtain s where s: "sem_inv s" "op_effect 1 1 [\<lparr>sb_num = 0, sb_op = 3, sb_flg = 0x1000\<rparr>] 0 sem_example 0 s" "same_set (semsets sem_example ! 0) (semsets s ! 0)"
    using sem_example_op by blast
  have "undo_adj (undos sem_example) 1 0 1 0 = 0" by (rule undo_adj_none) (simp_all add: sem_example_eq(2) undo_is_def undo_free_def)
  moreover have "set_vals sem_example 0 = [0]" by (simp add: sem_example_eq set_vals_def sem_vals_def sem_zero_def)
  ultimately have v: "set_vals s 0 = [3]" "undo_adj (undos s) 1 0 1 0 = - 3" using s(2) by (simp_all add: op_effect_def)
  have "ss_used (semsets s ! 0)" "p_seq (ss_perm (semsets s ! 0)) = 1" "length (ss_sems (semsets s ! 0)) = 1"
    using s(3) by (simp_all add: same_set_def sem_example_eq perm_init_def)
  then show ?thesis using sem_exit_applies [OF s(1), of 1 "[]" 0 0 "sysv_sem_exit [] 1 0 s" 0] v by - (rule exI [of _ s], simp add: clamp_def)
qed

end
