(* ===== verification/Shm_Pages.thy ===== *)
theory Shm_Pages
  imports Pmm
begin

text \<open>
  The memory behind shared memory objects: the frames an object takes from the physical memory
  manager and gives back (the loops of proc/sysvipc.c and proc/shm.c), and the page-table side of an
  attachment (mm_shm_attach_at, mm_shm_mapped and mm_shm_detach of proc/syscall.c). \<open>ptes\<close> gives the
  frame each page of each address space maps. The ledger \<open>frames_led\<close> says that the manager's
  reference counts are the number of holders of every frame. The contents of the frames, the TLB and
  the list of VMAs are not modelled; where the free-range search, the page-table reservation and
  the VMA list decide, their answers are arguments.
\<close>

section \<open>Frames\<close>

type_synonym ptes = "u32 \<times> u32 \<Rightarrow> u32 option"

record shm_mem =
  sm_pmm :: pmm
  sm_ptes :: ptes

abbreviation (input) PMM_REF_LIMIT :: u16 where "PMM_REF_LIMIT \<equiv> 60000"
abbreviation (input) MM_SHM_MAX_PAGES :: nat where "MM_SHM_MAX_PAGES \<equiv> 8192"
abbreviation (input) MMAP_FLOOR :: u32 where "MMAP_FLOOR \<equiv> 0x40000000"

definition frame_incref :: "u32 \<Rightarrow> pmm \<Rightarrow> pmm" where
  "frame_incref f pm = pmm_frame_incref (ucast f) pm"

definition frame_decref :: "u32 \<Rightarrow> pmm \<Rightarrow> pmm" where
  "frame_decref f pm = pmm_frame_decref (ucast f) pm"

definition put_frames :: "u32 list \<Rightarrow> pmm \<Rightarrow> pmm" where
  "put_frames fs pm = fold frame_decref fs pm"

text \<open>The frames of a new object, \<open>fs\<close> the ones it already has: all of them, or none.\<close>

fun get_frames :: "nat \<Rightarrow> u32 list \<Rightarrow> pmm \<Rightarrow> u32 list option \<times> pmm" where
  "get_frames 0 fs pm = (Some fs, pm)"
| "get_frames (Suc n) fs pm =
     (let (f, pm') = pmm_alloc_frame pm
      in if f = 0 then (None, put_frames fs pm') else get_frames n (fs @ [f]) (frame_incref f pm'))"

section \<open>Attachments in an address space\<close>

text \<open>What the address space answers: whether it has an owner, its VMAs, the first mapped page of a range, the gap
  found for a length, whether the page tables could be reserved and the VMA added.\<close>

record place =
  pl_owner :: bool
  pl_vmas :: "(u32 \<times> u32) list"
  pl_first :: "u32 \<Rightarrow> u32 \<Rightarrow> u32"
  pl_gap :: "u32 \<Rightarrow> u32"
  pl_reserve :: "u32 \<Rightarrow> u32 \<Rightarrow> bool"
  pl_add :: bool
  pl_top :: u32

definition page_va :: "u32 \<Rightarrow> nat \<Rightarrow> u32" where
  "page_va base i = base + of_nat i * 4096"

definition attach_base :: "place \<Rightarrow> u32 \<Rightarrow> u32 \<Rightarrow> u32" where
  "attach_base pl len addr =
     (if addr \<noteq> 0 then
        if addr AND 0xFFF \<noteq> 0 \<or> addr < MMAP_FLOOR \<or> addr + len < addr \<or> addr + len > pl_top pl then 0
        else if \<not> pl_owner pl then 0
        else if list_ex (\<lambda>(a, e). a < addr + len \<and> e > addr) (pl_vmas pl) then 0
        else if pl_first pl addr (addr + len) \<noteq> 0 then 0
        else addr
      else pl_gap pl len)"

definition map_page :: "u32 \<Rightarrow> u32 \<Rightarrow> u32 list \<Rightarrow> nat \<Rightarrow> shm_mem \<Rightarrow> shm_mem" where
  "map_page mm base frames i m =
     m\<lparr>sm_pmm := frame_incref (frames ! i) (sm_pmm m), sm_ptes := (sm_ptes m)((mm, page_va base i) \<mapsto> frames ! i)\<rparr>"

definition mm_shm_attach_at :: "place \<Rightarrow> u32 \<Rightarrow> u32 list \<Rightarrow> u32 \<Rightarrow> shm_mem \<Rightarrow> u32 \<times> shm_mem" where
  "mm_shm_attach_at pl mm frames addr m =
     (let len = of_nat (length frames) * 4096; base = attach_base pl len addr in
      if base = 0 then (0, m)
      else if list_ex (\<lambda>f. pmm_frame_refcount (ucast f) (sm_pmm m) \<ge> PMM_REF_LIMIT) frames then (0, m)
      else if \<not> pl_reserve pl base (base + len) then (0, m)
      else if \<not> pl_add pl then (0, m)
      else (base, fold (map_page mm base frames) [0..<length frames] m))"

definition pte_maps_frame :: "ptes \<Rightarrow> u32 \<Rightarrow> u32 \<Rightarrow> u32 \<Rightarrow> bool" where
  "pte_maps_frame pt mm va f = (pt (mm, va) = Some f)"

definition mm_shm_mapped :: "ptes \<Rightarrow> u32 \<Rightarrow> u32 \<Rightarrow> u32 list \<Rightarrow> nat \<Rightarrow> nat" where
  "mm_shm_mapped pt mm base frames n = length (filter (\<lambda>i. pte_maps_frame pt mm (page_va base i) (frames ! i)) [0..<n])"

text \<open>First every entry that still maps its frame is cleared, then the references of the cleared ones are dropped.\<close>

definition clear_page :: "u32 \<Rightarrow> u32 \<Rightarrow> u32 list \<Rightarrow> nat \<Rightarrow> ptes \<times> nat list \<Rightarrow> ptes \<times> nat list" where
  "clear_page mm base frames i = (\<lambda>(pt, cleared).
     if pte_maps_frame pt mm (page_va base i) (frames ! i) then (pt((mm, page_va base i) := None), cleared @ [i])
     else (pt, cleared))"

definition mm_shm_detach :: "u32 \<Rightarrow> u32 \<Rightarrow> u32 list \<Rightarrow> nat \<Rightarrow> shm_mem \<Rightarrow> shm_mem" where
  "mm_shm_detach mm base frames npages m =
     (let n = min npages MM_SHM_MAX_PAGES; (pt, cleared) = fold (clear_page mm base frames) [0..<n] (sm_ptes m, [])
      in m\<lparr>sm_ptes := pt, sm_pmm := fold (\<lambda>i. frame_decref (frames ! i)) cleared (sm_pmm m)\<rparr>)"

section \<open>The ledger of references\<close>

definition fidx :: "u32 \<Rightarrow> nat" where
  "fidx f = frame_of (ucast f)"

definition frames_led :: "pmm \<Rightarrow> (nat \<Rightarrow> nat) \<Rightarrow> bool" where
  "frames_led pm R \<longleftrightarrow> sys_ok (pm, R) \<and> pmm_total pm \<le> refcount_frames pm"

definition cnt :: "u32 list \<Rightarrow> nat \<Rightarrow> nat" where
  "cnt fs i = length (filter (\<lambda>f. fidx f = i) fs)"

lemma cnt_simps [simp]:
  "cnt [] i = 0" "cnt (f # fs) i = (if fidx f = i then 1 else 0) + cnt fs i" "cnt (fs @ gs) i = cnt fs i + cnt gs i"
  by (simp_all add: cnt_def)

lemma cnt_pos: "f \<in> set fs \<Longrightarrow> 0 < cnt fs (fidx f)"
  by (auto simp: cnt_def filter_empty_conv)

lemma led_live: "frames_led pm R \<Longrightarrow> 0 < R i \<Longrightarrow> i \<in> live_frames pm \<and> i \<noteq> 0 \<and> i < refcount_frames pm"
  by (simp add: frames_led_def sys_ok_def refs_ok_def)

lemma incref_sizes [simp]: "pmm_total (pmm_frame_incref q pm) = pmm_total pm" "refcount_frames (pmm_frame_incref q pm) = refcount_frames pm"
  by (simp_all add: pmm_frame_incref_def Let_def)

lemma free_sizes [simp]: "pmm_total (pmm_free_frame q pm) = pmm_total pm" "refcount_frames (pmm_free_frame q pm) = refcount_frames pm"
  by (simp_all add: pmm_free_frame_def pmm_mark_free_def Let_def)

lemma decref_sizes [simp]: "pmm_total (pmm_frame_decref q pm) = pmm_total pm" "refcount_frames (pmm_frame_decref q pm) = refcount_frames pm"
  by (simp_all add: pmm_frame_decref_def Let_def)

lemma led_incref: "frames_led pm R \<Longrightarrow> 0 < R (fidx f) \<Longrightarrow> R' = R(fidx f := R (fidx f) + 1) \<Longrightarrow> frames_led (frame_incref f pm) R'"
  using led_live [of pm R "fidx f"] incref_sys [of pm R "ucast f"] by (simp add: frames_led_def frame_incref_def fidx_def)

lemma led_decref: "frames_led pm R \<Longrightarrow> 0 < R (fidx f) \<Longrightarrow> R' = R(fidx f := R (fidx f) - 1) \<Longrightarrow> frames_led (frame_decref f pm) R'"
  using decref_sys [of pm R "ucast f"] by (simp add: frames_led_def frame_decref_def fidx_def)

lemma led_alloc:
  assumes "frames_led pm R" "pmm_alloc_frame pm = (f, pm')"
  shows "frames_led pm' R" and "f \<noteq> 0 \<Longrightarrow> frames_led (frame_incref f pm') (R(fidx f := R (fidx f) + 1))" and "f \<noteq> 0 \<Longrightarrow> R (fidx f) = 0"
proof -
  have ok: "pmm_ok pm" "pmm_inv pm" "refs_ok pm R" using assms(1) by (auto simp: frames_led_def sys_ok_def pmm_ok_def)
  have fa: "frame_alloc KernelFrame pm = (if f = 0 then None else Some (fidx f), pm')" by (simp add: assms(2) fidx_def)
  have "\<exists>A. took pm A pm' \<and> (f \<noteq> 0 \<longrightarrow> A = {fidx f} \<and> 0 < fidx f \<and> fidx f < pmm_total pm)"
    using ok(1) fa by (cases rule: frame_alloc_cases) (auto split: if_splits)
  then obtain A where A: "took pm A pm'" "f \<noteq> 0 \<Longrightarrow> A = {fidx f} \<and> 0 < fidx f \<and> fidx f < pmm_total pm" by blast
  have sz: "pmm_total pm' = pmm_total pm" "refcount_frames pm' = refcount_frames pm" using took_total [OF A(1)] took_refcount_frames [OF A(1)] by auto
  show led: "frames_led pm' R" using took_sys [OF A(1)] assms(1) by (simp add: frames_led_def sz)
  assume f: "f \<noteq> 0"
  have "fidx f \<in> live_frames pm'" using took_live [OF A(1) ok(2)] A(2) [OF f] by simp
  then show "frames_led (frame_incref f pm') (R(fidx f := R (fidx f) + 1))"
    using incref_sys [of pm' R "ucast f"] led A(2) [OF f] assms(1) sz by (simp add: frames_led_def frame_incref_def fidx_def)
  show "R (fidx f) = 0"
    using took_fresh [OF A(1)] A(2) [OF f] ok(3) by (auto simp: refs_ok_def)
qed

lemma led_put: "frames_led pm (\<lambda>i. cnt fs i + K i) \<Longrightarrow> frames_led (put_frames fs pm) K"
proof (induction fs arbitrary: pm)
  case (Cons f fs)
  have "frames_led (frame_decref f pm) (\<lambda>i. cnt fs i + K i)"
    by (rule led_decref [OF Cons.prems]) (auto simp: fun_eq_iff)
  then show ?case using Cons.IH by (simp add: put_frames_def)
qed (simp add: put_frames_def)

lemma led_get:
  assumes "frames_led pm (\<lambda>i. cnt fs i + K i)" "get_frames n fs pm = (r, pm')"
  shows "case r of None \<Rightarrow> frames_led pm' K
    | Some gs \<Rightarrow> frames_led pm' (\<lambda>i. cnt gs i + K i) \<and> length gs = length fs + n \<and> (0 \<notin> set fs \<longrightarrow> 0 \<notin> set gs)"
  using assms
proof (induction n arbitrary: fs pm)
  case 0
  then show ?case by auto
next
  case (Suc n)
  obtain f pm1 where a: "pmm_alloc_frame pm = (f, pm1)" by fastforce
  note l = led_alloc [OF Suc.prems(1) a]
  show ?case
  proof (cases "f = 0")
    case True
    then show ?thesis using Suc.prems(2) a led_put [OF l(1)] by auto
  next
    case False
    have "(\<lambda>i. cnt fs i + K i)(fidx f := cnt fs (fidx f) + K (fidx f) + 1) = (\<lambda>i. cnt (fs @ [f]) i + K i)" by (auto simp: fun_eq_iff)
    then have "frames_led (frame_incref f pm1) (\<lambda>i. cnt (fs @ [f]) i + K i)" using l(2) [OF False] by simp
    moreover have "get_frames n (fs @ [f]) (frame_incref f pm1) = (r, pm')" using Suc.prems(2) a False by simp
    ultimately show ?thesis using Suc.IH [of "frame_incref f pm1" "fs @ [f]"] False by (auto split: option.splits)
  qed
qed

section \<open>Page tables in the ledger\<close>

definition pte_cnt :: "ptes \<Rightarrow> nat \<Rightarrow> nat" where
  "pte_cnt pt i = card {k. \<exists>f. pt k = Some f \<and> fidx f = i}"

lemma pte_cnt_upd:
  "pte_cnt (pt(k := v)) i + (case pt k of Some f \<Rightarrow> if fidx f = i then 1 else 0 | None \<Rightarrow> 0) =
   pte_cnt pt i + (case v of Some f \<Rightarrow> if fidx f = i then 1 else 0 | None \<Rightarrow> 0)"
proof -
  let ?S = "{j. \<exists>f. pt j = Some f \<and> fidx f = i}" and ?T = "{j. \<exists>f. (pt(k := v)) j = Some f \<and> fidx f = i}"
  have fin: "finite ?S" "finite ?T" by (simp_all add: finite_subset [OF subset_UNIV])
  have c: "card A = card (A - {k}) + (if k \<in> A then 1 else 0)" if "finite A" for A using card.remove [OF that, of k] by (cases "k \<in> A") simp_all
  have "?T - {k} = ?S - {k}" by auto
  then have "card ?T + (if k \<in> ?S then 1 else 0) = card ?S + (if k \<in> ?T then 1 else 0)" using c [OF fin(1)] c [OF fin(2)] by simp
  moreover have "(case pt k of Some f \<Rightarrow> if fidx f = i then 1 else 0 | None \<Rightarrow> 0) = (if k \<in> ?S then 1 else 0 :: nat)" by (simp split: option.splits)
  moreover have "(case v of Some f \<Rightarrow> if fidx f = i then 1 else 0 | None \<Rightarrow> 0) = (if k \<in> ?T then 1 else 0 :: nat)" by (simp split: option.splits)
  ultimately show ?thesis unfolding pte_cnt_def by (simp only:)
qed

lemma pte_cnt_pos: "pt k = Some f \<Longrightarrow> 0 < pte_cnt pt (fidx f)"
  using pte_cnt_upd [of pt k None "fidx f"] by simp

lemma page_va_inj: "page_va base i = page_va base j \<Longrightarrow> i < MM_SHM_MAX_PAGES \<Longrightarrow> j < MM_SHM_MAX_PAGES \<Longrightarrow> i = j"
proof -
  assume a: "page_va base i = page_va base j" "i < MM_SHM_MAX_PAGES" "j < MM_SHM_MAX_PAGES"
  have "unat (of_nat i * 4096 :: u32) = unat (of_nat j * 4096 :: u32)" using a(1) unfolding page_va_def by (simp only: add_left_cancel)
  then have "i * 4096 = j * 4096" using frame_addr [of i] frame_addr [of j] a(2,3) by simp
  then show ?thesis by simp
qed

lemma map_ptes:
  assumes "n \<le> length frames" "length frames \<le> MM_SHM_MAX_PAGES"
  shows "(\<forall>i<n. sm_ptes (fold (map_page mm base frames) [0..<n] m) (mm, page_va base i) = Some (frames ! i)) \<and>
    (\<forall>k. (\<forall>i<n. k \<noteq> (mm, page_va base i)) \<longrightarrow> sm_ptes (fold (map_page mm base frames) [0..<n] m) k = sm_ptes m k)"
  using assms(1)
proof (induction n)
  case (Suc n)
  define M where "M = fold (map_page mm base frames) [0..<n] m"
  have IH: "\<forall>i<n. sm_ptes M (mm, page_va base i) = Some (frames ! i)" "\<forall>k. (\<forall>i<n. k \<noteq> (mm, page_va base i)) \<longrightarrow> sm_ptes M k = sm_ptes m k"
    using Suc by (simp_all add: M_def)
  have ne: "page_va base n \<noteq> page_va base i" if "i < n" for i using page_va_inj [of base n i] that Suc.prems assms(2) by auto
  have s: "sm_ptes (fold (map_page mm base frames) [0..<Suc n] m) = (sm_ptes M)((mm, page_va base n) \<mapsto> frames ! n)" by (simp add: M_def map_page_def)
  have "((sm_ptes M)((mm, page_va base n) \<mapsto> frames ! n)) (mm, page_va base i) = Some (frames ! i)" if "i < Suc n" for i
    using IH(1) ne [of i] that by (cases "i = n") auto
  moreover have "((sm_ptes M)((mm, page_va base n) \<mapsto> frames ! n)) k = sm_ptes m k" if "\<forall>i<Suc n. k \<noteq> (mm, page_va base i)" for k
    using IH(2) that less_Suc_eq by (metis fun_upd_other)
  ultimately show ?case unfolding s by blast
qed simp

lemma map_pages:
  assumes "n \<le> length frames" "length frames \<le> MM_SHM_MAX_PAGES" "\<forall>i<length frames. sm_ptes m (mm, page_va base i) = None"
    "\<forall>f\<in>set frames. 0 < K (fidx f)" "frames_led (sm_pmm m) (\<lambda>i. pte_cnt (sm_ptes m) i + K i)"
  defines "m' \<equiv> fold (map_page mm base frames) [0..<n] m"
  shows "frames_led (sm_pmm m') (\<lambda>i. pte_cnt (sm_ptes m') i + K i)"
  using assms(1) unfolding m'_def
proof (induction n)
  case 0
  then show ?case using assms(5) by simp
next
  case (Suc n)
  define M where "M = fold (map_page mm base frames) [0..<n] m"
  let ?f = "frames ! n" let ?k = "(mm, page_va base n)"
  note IH = Suc.IH [OF Suc_leD [OF Suc.prems], folded M_def]
  have "page_va base n \<noteq> page_va base i" if "i < n" for i using page_va_inj [of base n i] that Suc.prems assms(2) by auto
  then have "\<forall>i<n. ?k \<noteq> (mm, page_va base i)" by blast
  then have none: "sm_ptes M ?k = None" using map_ptes [OF Suc_leD [OF Suc.prems] assms(2), of mm base m] assms(3) Suc.prems unfolding M_def by auto
  have "0 < K (fidx ?f)" using assms(4) Suc.prems by simp
  then have "frames_led (frame_incref ?f (sm_pmm M)) (\<lambda>i. pte_cnt ((sm_ptes M)(?k \<mapsto> ?f)) i + K i)"
    using IH pte_cnt_upd [of "sm_ptes M" ?k "Some ?f"] none
    by (intro led_incref [where R = "\<lambda>i. pte_cnt (sm_ptes M) i + K i"]) (auto simp: fun_eq_iff)
  moreover have "fold (map_page mm base frames) [0..<Suc n] m = M\<lparr>sm_pmm := frame_incref ?f (sm_pmm M), sm_ptes := (sm_ptes M)(?k \<mapsto> ?f)\<rparr>"
    by (simp add: M_def map_page_def)
  ultimately show ?case by (simp only:) (simp del: fun_upd_apply)
qed

lemma clear_pages:
  assumes "fold (clear_page mm base frames) is (pt, cs) = (pt', cs')"
  shows "pte_cnt pt' i + cnt (map ((!) frames) cs') i = pte_cnt pt i + cnt (map ((!) frames) cs) i \<and> (\<forall>k. fst k \<noteq> mm \<longrightarrow> pt' k = pt k)"
  using assms
proof (induction "is" arbitrary: pt cs)
  case (Cons j "is")
  obtain pt1 cs1 where c: "clear_page mm base frames j (pt, cs) = (pt1, cs1)" by fastforce
  have "pte_cnt pt1 i + cnt (map ((!) frames) cs1) i = pte_cnt pt i + cnt (map ((!) frames) cs) i \<and> (\<forall>k. fst k \<noteq> mm \<longrightarrow> pt1 k = pt k)"
    using c pte_cnt_upd [of pt "(mm, page_va base j)" None i] by (auto simp: clear_page_def pte_maps_frame_def split: if_splits)
  then show ?case using Cons.IH [of pt1 cs1] Cons.prems c by auto
qed simp

lemma led_detach:
  assumes "frames_led (sm_pmm m) (\<lambda>i. pte_cnt (sm_ptes m) i + K i)" "m' = mm_shm_detach mm base frames npages m"
  shows "frames_led (sm_pmm m') (\<lambda>i. pte_cnt (sm_ptes m') i + K i)"
proof -
  obtain pt cs where f: "fold (clear_page mm base frames) [0..<min npages MM_SHM_MAX_PAGES] (sm_ptes m, []) = (pt, cs)" by fastforce
  have m': "m' = m\<lparr>sm_ptes := pt, sm_pmm := put_frames (map ((!) frames) cs) (sm_pmm m)\<rparr>"
    by (simp add: assms(2) mm_shm_detach_def f put_frames_def fold_map comp_def)
  have "(\<lambda>i. pte_cnt (sm_ptes m) i + K i) = (\<lambda>i. cnt (map ((!) frames) cs) i + (pte_cnt pt i + K i))"
  proof
    fix i show "pte_cnt (sm_ptes m) i + K i = cnt (map ((!) frames) cs) i + (pte_cnt pt i + K i)" using clear_pages [OF f, of i] by simp
  qed
  then show ?thesis using led_put assms(1) by (simp add: m')
qed

text \<open>The answers of the address space tell the truth: an accepted range maps no page.\<close>

definition place_ok :: "place \<Rightarrow> ptes \<Rightarrow> u32 \<Rightarrow> nat \<Rightarrow> u32 \<Rightarrow> bool" where
  "place_ok pl pt mm n addr \<longleftrightarrow> (let base = attach_base pl (of_nat n * 4096) addr in
     base \<noteq> 0 \<longrightarrow> (\<forall>i<n. pt (mm, page_va base i) = None))"

lemma led_attach:
  assumes "frames_led (sm_pmm m) (\<lambda>i. pte_cnt (sm_ptes m) i + K i)" "mm_shm_attach_at pl mm frames addr m = (base, m')"
    "length frames \<le> MM_SHM_MAX_PAGES" "\<forall>f\<in>set frames. 0 < K (fidx f)" "place_ok pl (sm_ptes m) mm (length frames) addr"
  shows "frames_led (sm_pmm m') (\<lambda>i. pte_cnt (sm_ptes m') i + K i) \<and> (base = 0 \<longrightarrow> m' = m) \<and>
    (base \<noteq> 0 \<longrightarrow> (\<forall>i<length frames. sm_ptes m' (mm, page_va base i) = Some (frames ! i)))"
proof (cases "base = 0")
  case True
  then have "m' = m" using assms(2) by (auto simp: mm_shm_attach_at_def Let_def split: if_splits)
  then show ?thesis using assms(1) True by simp
next
  case False
  then have b: "base = attach_base pl (of_nat (length frames) * 4096) addr" "m' = fold (map_page mm base frames) [0..<length frames] m"
    using assms(2) by (auto simp: mm_shm_attach_at_def Let_def split: if_splits)
  then have "\<forall>i<length frames. sm_ptes m (mm, page_va base i) = None" using assms(5) False by (simp add: place_ok_def Let_def)
  then show ?thesis
    using map_pages [OF order.refl assms(3) _ assms(4,1), of mm base] map_ptes [OF order.refl assms(3), of mm base m] b(2) False by simp
qed

lemma attach_maps:
  assumes "mm_shm_attach_at pl mm frames addr m = (base, m')" "base \<noteq> 0" "length frames \<le> MM_SHM_MAX_PAGES"
    and "\<And>n a. place_ok pl (sm_ptes m) mm n a"
  shows "\<forall>i<length frames. sm_ptes m' (mm, page_va base i) = Some (frames ! i) \<and> sm_ptes m (mm, page_va base i) = None"
    and "\<forall>k. (\<forall>i<length frames. k \<noteq> (mm, page_va base i)) \<longrightarrow> sm_ptes m' k = sm_ptes m k"
proof -
  have b: "base = attach_base pl (of_nat (length frames) * 4096) addr" "m' = fold (map_page mm base frames) [0..<length frames] m"
    using assms(1,2) by (auto simp: mm_shm_attach_at_def Let_def split: if_splits)
  then have none: "\<forall>i<length frames. sm_ptes m (mm, page_va base i) = None" using assms(2) assms(4) [of "length frames" addr] by (simp add: place_ok_def Let_def)
  note p = map_ptes [OF order.refl assms(3), of mm base m, folded b(2)]
  show "\<forall>i<length frames. sm_ptes m' (mm, page_va base i) = Some (frames ! i) \<and> sm_ptes m (mm, page_va base i) = None" using p none by blast
  show "\<forall>k. (\<forall>i<length frames. k \<noteq> (mm, page_va base i)) \<longrightarrow> sm_ptes m' k = sm_ptes m k" using p by blast
qed

lemma clear_all:
  assumes "\<forall>i<n. pt (mm, page_va base i) = Some (frames ! i) \<and> pt0 (mm, page_va base i) = None" "n \<le> MM_SHM_MAX_PAGES"
    "\<forall>k. (\<forall>i<n. k \<noteq> (mm, page_va base i)) \<longrightarrow> pt k = pt0 k"
  shows "fst (fold (clear_page mm base frames) [0..<n] (pt, cs)) = pt0"
proof -
  have "j \<le> n \<Longrightarrow> fst (fold (clear_page mm base frames) [0..<j] (pt, cs)) = (\<lambda>k. if \<exists>i<j. k = (mm, page_va base i) then None else pt k)" for j
  proof (induction j)
    case (Suc j)
    define X where "X = fold (clear_page mm base frames) [0..<j] (pt, cs)"
    have X: "fst X = (\<lambda>k. if \<exists>i<j. k = (mm, page_va base i) then None else pt k)" using Suc by (simp add: X_def)
    have ne: "page_va base j \<noteq> page_va base i" if "i < j" for i using page_va_inj [of base j i] that Suc.prems assms(2) by auto
    have "fst X (mm, page_va base j) = Some (frames ! j)" using X ne assms(1) Suc.prems by auto
    then have "fst (clear_page mm base frames j X) = (fst X)((mm, page_va base j) := None)" by (cases X) (simp add: clear_page_def pte_maps_frame_def)
    then show ?case by (auto simp: X fun_eq_iff less_Suc_eq simp flip: X_def)
  qed simp
  note this [OF order.refl]
  moreover have "(\<lambda>k. if \<exists>i<n. k = (mm, page_va base i) then None else pt k) = pt0"
  proof
    fix k show "(if \<exists>i<n. k = (mm, page_va base i) then None else pt k) = pt0 k"
    proof (cases "\<exists>i<n. k = (mm, page_va base i)")
      case False
      then have "pt k = pt0 k" using assms(3) by blast
      then show ?thesis by (simp only: False if_False)
    qed (use assms(1) in auto)
  qed
  ultimately show ?thesis by simp
qed

section \<open>An example ledger\<close>

lemma led_example:
  obtains pm f pm1 where "frames_led pm (\<lambda>_. 0)" "pmm_alloc_frame pm = (f, pm1)" "f \<noteq> 0" "frame_refcount pm1 (fidx f) = 0" "fidx f < refcount_frames pm1"
proof -
  obtain s where s: "pmm_start (s, \<lambda>_. 0)" "pmm_total s = 272" "pmm_low_total s = 272" "used_set s = {..<260}" "quar_list s = []"
    by (metis start_example)
  let ?t = "pmm_refcount_init True s"
  have t: "pmm_total ?t = 272" "pmm_low_total ?t = 272" "used_set ?t = {..<260}" "refcount_frames ?t = 272"
    using s by (simp_all add: pmm_refcount_init_def used_set_def)
  have "pmm_ok s" "refs_ok s (\<lambda>_. 0)" using reachable_ok [OF s(1) rtranclp.rtrancl_refl] by auto
  then have sys: "sys_ok (?t, \<lambda>_. 0)" by (intro refcount_init_sys sys_okI) auto
  then have led: "frames_led ?t (\<lambda>_. 0)" using t by (simp add: frames_led_def)
  have ok: "pmm_ok ?t" using sys by (simp add: sys_ok_def)
  obtain f pm1 where a: "pmm_alloc_frame ?t = (f, pm1)" by fastforce
  then have fa: "frame_alloc KernelFrame ?t = (if f = 0 then None else Some (fidx f), pm1)" by (simp add: fidx_def)
  from ok fa have "f \<noteq> 0 \<and> frame_refcount pm1 (fidx f) = 0 \<and> fidx f < refcount_frames pm1"
  proof (cases rule: frame_alloc_cases)
    case oom
    then show ?thesis using t by auto
  next
    case (ok i)
    then show ?thesis using t took_refcount_frames [OF ok(4)] by (auto simp: took_def split: if_splits)
  qed
  then show thesis using that led a by blast
qed

end
