(* ===== verification/Ipc_Shm.thy ===== *)
theory Ipc_Shm
  imports Ipc Shm_Pages
begin

text \<open>
  System V shared memory (proc/sysvipc.c, the shm part): segments with their frames, the table of
  attachments by address space, and what fork and the end of an address space do to it. \<open>npages\<close> of
  a segment is the length of its list of frames. \<open>now\<close> is the clock, \<open>mem\<close> what kmalloc answers and
  \<open>pl\<close> what the address space answers about the place of an attachment (Shm_Pages).
\<close>

section \<open>State\<close>

abbreviation (input) SYSV_SHMMNI :: nat where "SYSV_SHMMNI \<equiv> 128"
abbreviation (input) SYSV_SHMMAX :: u32 where "SYSV_SHMMAX \<equiv> 33554432"
abbreviation (input) SYSV_SHMALL :: u32 where "SYSV_SHMALL \<equiv> 16384"
abbreviation (input) SYSV_SHM_USER_PAGES :: u32 where "SYSV_SHM_USER_PAGES \<equiv> 4096"
abbreviation (input) SHM_ATT_MAX :: nat where "SHM_ATT_MAX \<equiv> 512"
abbreviation (input) SHM_RDONLY :: u32 where "SHM_RDONLY \<equiv> 0x1000"
abbreviation (input) SHM_RND :: u32 where "SHM_RND \<equiv> 0x2000"
abbreviation (input) SHM_DEST :: u32 where "SHM_DEST \<equiv> 0x200"
abbreviation (input) SHM_LOCKED :: u32 where "SHM_LOCKED \<equiv> 0x400"

record sysv_shm =
  h_used :: bool
  h_perm :: ipc_perm
  h_size :: u32
  h_frames :: "u32 list"
  h_nattch :: int
  h_atime :: u32
  h_dtime :: u32
  h_ctime :: u32
  h_cpid :: int
  h_lpid :: int

record sysv_shm_att =
  a_mm :: u32
  a_slot :: nat
  a_seq :: u16
  a_addr :: u32
  a_npages :: nat

record shm_state =
  shms :: "sysv_shm list"
  shm_atts :: "sysv_shm_att list"
  shm_seq_next :: u16
  shm_pages_total :: u32

definition shm_zero :: sysv_shm where
  "shm_zero = \<lparr>h_used = False, h_perm = perm_zero, h_size = 0, h_frames = [], h_nattch = 0, h_atime = 0, h_dtime = 0,
     h_ctime = 0, h_cpid = 0, h_lpid = 0\<rparr>"

definition shm_boot :: shm_state where
  "shm_boot = \<lparr>shms = replicate SYSV_SHMMNI shm_zero,
     shm_atts = replicate SHM_ATT_MAX \<lparr>a_mm = 0, a_slot = 0, a_seq = 0, a_addr = 0, a_npages = 0\<rparr>,
     shm_seq_next = 1, shm_pages_total = 0\<rparr>"

definition set_seg :: "nat \<Rightarrow> sysv_shm \<Rightarrow> shm_state \<Rightarrow> shm_state" where
  "set_seg slot q s = s\<lparr>shms := (shms s)[slot := q]\<rparr>"

definition set_att :: "nat \<Rightarrow> sysv_shm_att \<Rightarrow> shm_state \<Rightarrow> shm_state" where
  "set_att i a s = s\<lparr>shm_atts := (shm_atts s)[i := a]\<rparr>"

section \<open>Segments\<close>

definition shm_by_id :: "shm_state \<Rightarrow> int \<Rightarrow> nat option" where
  "shm_by_id s x =
     (if x < 0 then None
      else let slot = nat x mod SYSV_SHMMNI; sq = nat x div SYSV_SHMMNI; q = shms s ! slot
           in if \<not> h_used q \<or> unat (p_seq (h_perm q)) \<noteq> sq then None else Some slot)"

definition shm_destroy :: "nat \<Rightarrow> shm_state \<times> shm_mem \<Rightarrow> shm_state \<times> shm_mem" where
  "shm_destroy slot = (\<lambda>(s, m).
     (let q = shms s ! slot in
      ((set_seg slot (q\<lparr>h_frames := [], h_used := False\<rparr>) s)\<lparr>shm_pages_total := shm_pages_total s - of_nat (length (h_frames q))\<rparr>,
       m\<lparr>sm_pmm := put_frames (filter (\<lambda>f. f \<noteq> 0) (h_frames q)) (sm_pmm m)\<rparr>)))"

definition shm_maybe_destroy :: "nat \<Rightarrow> shm_state \<times> shm_mem \<Rightarrow> shm_state \<times> shm_mem" where
  "shm_maybe_destroy slot = (\<lambda>(s, m).
     (let q = shms s ! slot in
      if h_used q \<and> p_mode (h_perm q) AND SHM_DEST \<noteq> 0 \<and> h_nattch q \<le> 0 then shm_destroy slot (s, m) else (s, m)))"

text \<open>The pages of segments a user has created.\<close>

definition shm_mine :: "shm_state \<Rightarrow> u32 \<Rightarrow> u32" where
  "shm_mine s uid =
     sum_list (map (\<lambda>i. of_nat (length (h_frames (shms s ! i))))
       (filter (\<lambda>i. h_used (shms s ! i) \<and> p_cuid (h_perm (shms s ! i)) = uid) [0..<SYSV_SHMMNI]))"

definition do_shmget :: "bool \<Rightarrow> cred \<Rightarrow> u32 \<Rightarrow> shm_state \<times> shm_mem \<Rightarrow> int \<Rightarrow> u32 \<Rightarrow> u32 \<Rightarrow> int \<times> shm_state \<times> shm_mem" where
  "do_shmget mem c now = (\<lambda>(s, m) key sz flag.
     (let hit = (if key \<noteq> 0 then find (\<lambda>i. h_used (shms s ! i) \<and> p_key (h_perm (shms s ! i)) = key \<and>
                                           p_mode (h_perm (shms s ! i)) AND SHM_DEST = 0) [0..<SYSV_SHMMNI]
                 else None)
      in case hit of
           Some i \<Rightarrow>
             if flag AND IPC_CREAT \<noteq> 0 \<and> flag AND IPC_EXCL \<noteq> 0 then (- EEXIST, s, m)
             else if ipcperms c (h_perm (shms s ! i)) flag \<noteq> 0 then (- EACCES, s, m)
             else if sz > h_size (shms s ! i) then (- EINVAL, s, m)
             else (ID_OF i (p_seq (h_perm (shms s ! i))) SYSV_SHMMNI, s, m)
         | None \<Rightarrow>
             if key \<noteq> 0 \<and> flag AND IPC_CREAT = 0 then (- ENOENT, s, m)
             else if sz < 1 \<or> sz > SYSV_SHMMAX then (- EINVAL, s, m)
             else
               let np = (sz + 4095) div 4096 in
               if shm_pages_total s + np > SYSV_SHMALL then (- ENOSPC, s, m)
               else if c_euid c \<noteq> 0 \<and> shm_mine s (c_euid c) + np > SYSV_SHM_USER_PAGES then (- ENOSPC, s, m)
               else
                 case find (\<lambda>i. \<not> h_used (shms s ! i)) [0..<SYSV_SHMMNI] of
                   None \<Rightarrow> (- ENOSPC, s, m)
                 | Some slot \<Rightarrow>
                     if \<not> mem then (- ENOMEM, s, m)
                     else
                       case get_frames (unat np) [] (sm_pmm m) of
                         (None, pm) \<Rightarrow> (- ENOMEM, s, m\<lparr>sm_pmm := pm\<rparr>)
                       | (Some frames, pm) \<Rightarrow>
                           let sq = shm_seq_next s;
                               q = shm_zero\<lparr>h_used := True, h_perm := perm_init c key flag sq, h_size := sz,
                                     h_frames := frames, h_ctime := now, h_cpid := c_tgid c\<rparr>
                           in (ID_OF slot sq SYSV_SHMMNI,
                               (set_seg slot q s)\<lparr>shm_seq_next := seq_advance sq, shm_pages_total := shm_pages_total s + np\<rparr>,
                               m\<lparr>sm_pmm := pm\<rparr>)))"

section \<open>Attachments\<close>

definition do_shmat :: "place \<Rightarrow> cred \<Rightarrow> u32 \<Rightarrow> shm_state \<times> shm_mem \<Rightarrow> int \<Rightarrow> u32 \<Rightarrow> u32 \<Rightarrow> (int + u32) \<times> shm_state \<times> shm_mem" where
  "do_shmat pl c now = (\<lambda>(s, m) x addr0 flag.
     (case shm_by_id s x of None \<Rightarrow> (Inl (- EINVAL), s, m)
      | Some slot \<Rightarrow>
          let q = shms s ! slot; rdonly = flag AND SHM_RDONLY \<noteq> 0;
              addr = (if addr0 \<noteq> 0 \<and> flag AND SHM_RND \<noteq> 0 then addr0 AND NOT 0xFFF else addr0)
          in if addr0 \<noteq> 0 \<and> flag AND SHM_RND = 0 \<and> addr AND 0xFFF \<noteq> 0 then (Inl (- EINVAL), s, m)
             else if ipcperms c (h_perm q) (if rdonly then 0x124 else 0x1B6) \<noteq> 0 then (Inl (- EACCES), s, m)
             else
               case find (\<lambda>i. a_mm (shm_atts s ! i) = 0) [0..<SHM_ATT_MAX] of
                 None \<Rightarrow> (Inl (- ENOMEM), s, m)
               | Some i \<Rightarrow>
                   let (base, m') = mm_shm_attach_at pl (c_mm c) (h_frames q) addr m in
                   if base = 0 then (Inl (if addr \<noteq> 0 then - EINVAL else - ENOMEM), s, m')
                   else (Inr base,
                         set_seg slot (q\<lparr>h_nattch := h_nattch q + 1, h_atime := now, h_lpid := c_tgid c\<rparr>)
                           (set_att i \<lparr>a_mm = c_mm c, a_slot = slot, a_seq = p_seq (h_perm q), a_addr = base, a_npages = length (h_frames q)\<rparr> s),
                         m')))"

definition do_shmdt :: "cred \<Rightarrow> u32 \<Rightarrow> shm_state \<times> shm_mem \<Rightarrow> u32 \<Rightarrow> int \<times> shm_state \<times> shm_mem" where
  "do_shmdt c now = (\<lambda>(s, m) addr.
     (case find (\<lambda>i. a_mm (shm_atts s ! i) = c_mm c \<and> a_addr (shm_atts s ! i) = addr) [0..<SHM_ATT_MAX] of
        None \<Rightarrow> (- EINVAL, s, m)
      | Some i \<Rightarrow>
          let a = shm_atts s ! i; q = shms s ! a_slot a; s' = set_att i (a\<lparr>a_mm := 0\<rparr>) s in
          if \<not> h_used q \<or> p_seq (h_perm q) \<noteq> a_seq a then (0, s', m)
          else (0, shm_maybe_destroy (a_slot a)
                     (set_seg (a_slot a) (q\<lparr>h_nattch := h_nattch q - 1, h_dtime := now, h_lpid := c_tgid c\<rparr>) s',
                      mm_shm_detach (c_mm c) addr (h_frames q) (a_npages a) m))))"

text \<open>One entry of the parent's is copied to the first free one; when there is none it is dropped.\<close>

definition fork_att :: "u32 \<Rightarrow> u32 \<Rightarrow> nat \<Rightarrow> shm_state \<Rightarrow> shm_state" where
  "fork_att pm cm i s =
     (let a = shm_atts s ! i; q = shms s ! a_slot a in
      if a_mm a \<noteq> pm then s
      else if \<not> h_used q \<or> p_seq (h_perm q) \<noteq> a_seq a then s
      else
        case find (\<lambda>j. a_mm (shm_atts s ! j) = 0) [0..<SHM_ATT_MAX] of
          None \<Rightarrow> s
        | Some j \<Rightarrow> set_seg (a_slot a) (q\<lparr>h_nattch := h_nattch q + 1\<rparr>) (set_att j (a\<lparr>a_mm := cm\<rparr>) s))"

definition sysv_shm_fork :: "u32 \<Rightarrow> u32 \<Rightarrow> shm_state \<Rightarrow> shm_state" where
  "sysv_shm_fork pm cm s =
     (if pm = 0 \<or> cm = 0 \<or> pm = cm then s else fold (fork_att pm cm) [0..<SHM_ATT_MAX] s)"

definition release_att :: "u32 \<Rightarrow> u32 \<Rightarrow> nat \<Rightarrow> shm_state \<times> shm_mem \<Rightarrow> shm_state \<times> shm_mem" where
  "release_att now mm i = (\<lambda>(s, m).
     (let a = shm_atts s ! i; q = shms s ! a_slot a in
      if a_mm a \<noteq> mm then (s, m)
      else
        let s' = set_att i (a\<lparr>a_mm := 0\<rparr>) s in
        if \<not> h_used q \<or> p_seq (h_perm q) \<noteq> a_seq a then (s', m)
        else shm_maybe_destroy (a_slot a) (set_seg (a_slot a) (q\<lparr>h_nattch := h_nattch q - 1, h_dtime := now\<rparr>) s', m)))"

definition sysv_shm_mm_release :: "u32 \<Rightarrow> u32 \<Rightarrow> shm_state \<times> shm_mem \<Rightarrow> shm_state \<times> shm_mem" where
  "sysv_shm_mm_release now mm sm = (if mm = 0 then sm else fold (release_att now mm) [0..<SHM_ATT_MAX] sm)"

section \<open>Control\<close>

definition used_segs :: "shm_state \<Rightarrow> nat list" where
  "used_segs s = filter (\<lambda>i. h_used (shms s ! i)) [0..<SYSV_SHMMNI]"

definition shm_info :: "u8 list" where
  "shm_info = concat (map (le_enc 4) [33554432, 1, 128, 128, 16384, 0, 0, 0, 0])"

definition shm_usage :: "shm_state \<Rightarrow> u8 list" where
  "shm_usage s = concat (map (le_enc 4) [int (length (used_segs s)), uint (shm_pages_total s), uint (shm_pages_total s), 0, 0, 0])"

text \<open>struct shmid64_ds, 84 bytes: the permissions, the size, three 64-bit times, the pids, the number of
  attachments and two unused words.\<close>

definition shmid_ds :: "sysv_shm \<Rightarrow> u8 list" where
  "shmid_ds q =
     perm_out (h_perm q) @ le_enc 4 (uint (h_size q)) @ le_enc 4 (uint (h_atime q)) @ le_enc 4 0 @ le_enc 4 (uint (h_dtime q)) @ le_enc 4 0 @
     le_enc 4 (uint (h_ctime q)) @ le_enc 4 0 @ le_enc 4 (h_cpid q) @ le_enc 4 (h_lpid q) @ le_enc 4 (h_nattch q) @ le_enc 8 0"

definition shmctl_slot :: "cred \<Rightarrow> u32 \<Rightarrow> umem \<Rightarrow> shm_state \<times> shm_mem \<Rightarrow> u32 \<Rightarrow> u32 \<Rightarrow> int \<Rightarrow> nat \<Rightarrow> int \<times> umem \<times> shm_state \<times> shm_mem" where
  "shmctl_slot c now um = (\<lambda>(s, m) cmd ubuf ret slot.
     (let q = shms s ! slot; p = h_perm q in
      if cmd = 2 \<or> cmd = 13 \<or> cmd = 15 then
        if cmd \<noteq> 15 \<and> ipcperms c p 0x124 \<noteq> 0 then (- EACCES, um, s, m)
        else let (r, um') = copy_to_user um ubuf (shmid_ds q) in (if r < 0 then - EFAULT else ret, um', s, m)
      else if cmd = 1 then
        let (r, d) = copy_from_user um ubuf 84 in
        if r < 0 then (- EFAULT, um, s, m)
        else if \<not> ipc_owner c p then (- EPERM, um, s, m)
        else (0, um, set_seg slot (q\<lparr>h_perm := perm_set p d, h_ctime := now\<rparr>) s, m)
      else if cmd = 0 then
        if \<not> ipc_owner c p then (- EPERM, um, s, m)
        else (0, um, shm_maybe_destroy slot
               (set_seg slot (q\<lparr>h_perm := p\<lparr>p_mode := p_mode p OR SHM_DEST, p_key := 0\<rparr>, h_ctime := now\<rparr>) s, m))
      else if cmd = 11 \<or> cmd = 12 then
        if \<not> ipc_owner c p then (- EPERM, um, s, m)
        else (0, um, set_seg slot (q\<lparr>h_perm := p\<lparr>p_mode := if cmd = 11 then p_mode p OR SHM_LOCKED else p_mode p AND NOT SHM_LOCKED\<rparr>\<rparr>) s, m)
      else (- EINVAL, um, s, m)))"

text \<open>IPC_INFO is 3, SHM_INFO 14, SHM_STAT 13 and SHM_STAT_ANY 15.\<close>

definition do_shmctl :: "cred \<Rightarrow> u32 \<Rightarrow> umem \<Rightarrow> shm_state \<times> shm_mem \<Rightarrow> int \<Rightarrow> u32 \<Rightarrow> u32 \<Rightarrow> int \<times> umem \<times> shm_state \<times> shm_mem" where
  "do_shmctl c now um = (\<lambda>(s, m) x cmd0 ubuf.
     (let cmd = cmd0 AND NOT IPC_64 in
      if cmd = IPC_INFO \<or> cmd = 14 then
        let (r, um') = copy_to_user um ubuf (if cmd = 14 then shm_usage s else shm_info) in
        (if r < 0 then - EFAULT else if used_segs s = [] then 0 else int (last (used_segs s)), um', s, m)
      else if cmd = 13 \<or> cmd = 15 then
        if x < 0 \<or> x \<ge> int SYSV_SHMMNI \<or> \<not> h_used (shms s ! nat x) then (- EINVAL, um, s, m)
        else shmctl_slot c now um (s, m) cmd ubuf (ID_OF (nat x) (p_seq (h_perm (shms s ! nat x))) SYSV_SHMMNI) (nat x)
      else
        case shm_by_id s x of None \<Rightarrow> (- EINVAL, um, s, m) | Some slot \<Rightarrow> shmctl_slot c now um (s, m) cmd ubuf 0 slot))"

section \<open>Ids\<close>

definition shm_seq_at :: "shm_state \<Rightarrow> nat \<Rightarrow> u16 option" where
  "shm_seq_at s i = (if h_used (shms s ! i) then Some (p_seq (h_perm (shms s ! i))) else None)"

interpretation shm_ids: ipc_ids SYSV_SHMMNI shm_seq_at shm_by_id
  by unfold_locales (auto simp: shm_by_id_def shm_seq_at_def Let_def)

lemma shm_by_id_used: "shm_by_id s x = Some slot \<Longrightarrow> slot < SYSV_SHMMNI \<and> h_used (shms s ! slot)"
  by (auto simp: shm_by_id_def Let_def split: if_splits)

section \<open>The invariant\<close>

definition att_count :: "sysv_shm_att list \<Rightarrow> nat \<Rightarrow> nat" where
  "att_count as k = length (filter (\<lambda>a. a_mm a \<noteq> 0 \<and> a_slot a = k) as)"

definition seg_pages :: "sysv_shm \<Rightarrow> nat" where
  "seg_pages q = (if h_used q then length (h_frames q) else 0)"

definition pages_of :: "(sysv_shm \<Rightarrow> bool) \<Rightarrow> sysv_shm list \<Rightarrow> nat" where
  "pages_of P qs = sum_list (map (\<lambda>q. if P q then seg_pages q else 0) qs)"

definition seg_cnt :: "sysv_shm list \<Rightarrow> nat \<Rightarrow> nat" where
  "seg_cnt qs i = sum_list (map (\<lambda>q. if h_used q then cnt (h_frames q) i else 0) qs)"

definition seg_ok :: "sysv_shm_att list \<Rightarrow> nat \<Rightarrow> sysv_shm \<Rightarrow> bool" where
  "seg_ok as k q \<longleftrightarrow> (h_used q \<longrightarrow> length (h_frames q) \<le> MM_SHM_MAX_PAGES \<and> 0 \<notin> set (h_frames q) \<and>
     1 \<le> p_seq (h_perm q) \<and> p_seq (h_perm q) < 0x7FFF \<and> h_nattch q = int (att_count as k))"

definition att_ok :: "sysv_shm list \<Rightarrow> sysv_shm_att \<Rightarrow> bool" where
  "att_ok qs a \<longleftrightarrow> (a_mm a \<noteq> 0 \<longrightarrow> a_slot a < SYSV_SHMMNI \<and> h_used (qs ! a_slot a) \<and> p_seq (h_perm (qs ! a_slot a)) = a_seq a \<and>
     a_npages a = length (h_frames (qs ! a_slot a)))"

text \<open>A removed segment lives only as long as it is attached; \<open>X\<close> is the segment being looked at.\<close>

definition lingers :: "nat set \<Rightarrow> sysv_shm list \<Rightarrow> bool" where
  "lingers X qs \<longleftrightarrow> (\<forall>k<SYSV_SHMMNI. k \<notin> X \<longrightarrow> h_used (qs ! k) \<longrightarrow> p_mode (h_perm (qs ! k)) AND SHM_DEST \<noteq> 0 \<longrightarrow> 0 < h_nattch (qs ! k))"

definition shm_inv :: "nat set \<Rightarrow> shm_state \<Rightarrow> bool" where
  "shm_inv X s \<longleftrightarrow> length (shms s) = SYSV_SHMMNI \<and> length (shm_atts s) = SHM_ATT_MAX \<and>
     (\<forall>k<SYSV_SHMMNI. seg_ok (shm_atts s) k (shms s ! k)) \<and> (\<forall>i<SHM_ATT_MAX. att_ok (shms s) (shm_atts s ! i)) \<and> lingers X (shms s) \<and>
     1 \<le> shm_seq_next s \<and> shm_seq_next s < 0x7FFF \<and> shm_pages_total s = of_nat (pages_of (\<lambda>_. True) (shms s)) \<and>
     pages_of (\<lambda>_. True) (shms s) \<le> 16384 \<and> (\<forall>uid. uid \<noteq> 0 \<longrightarrow> pages_of (\<lambda>q. p_cuid (h_perm q) = uid) (shms s) \<le> 4096)"

text \<open>The references of the frames: of the segments, of the page tables, and \<open>K\<close> of everybody else.\<close>

definition shm_led :: "(nat \<Rightarrow> nat) \<Rightarrow> shm_state \<times> shm_mem \<Rightarrow> bool" where
  "shm_led K = (\<lambda>(s, m). frames_led (sm_pmm m) (\<lambda>i. seg_cnt (shms s) i + (pte_cnt (sm_ptes m) i + K i)))"

definition shm_good :: "(nat \<Rightarrow> nat) \<Rightarrow> nat set \<Rightarrow> shm_state \<times> shm_mem \<Rightarrow> bool" where
  "shm_good K X sm \<longleftrightarrow> shm_inv X (fst sm) \<and> shm_led K sm"

lemma pages_of_upd:
  "k < length qs \<Longrightarrow> pages_of P (qs[k := q]) + (if P (qs ! k) then seg_pages (qs ! k) else 0) = pages_of P qs + (if P q then seg_pages q else 0)"
  using sum_list_upd [of k qs "\<lambda>q. if P q then seg_pages q else 0" q] by (simp only: pages_of_def)

lemma seg_cnt_upd:
  "k < length qs \<Longrightarrow> seg_cnt (qs[k := q]) i + (if h_used (qs ! k) then cnt (h_frames (qs ! k)) i else 0) =
   seg_cnt qs i + (if h_used q then cnt (h_frames q) i else 0)"
  using sum_list_upd [of k qs "\<lambda>q. if h_used q then cnt (h_frames q) i else 0" q] by (simp only: seg_cnt_def)

lemma seg_cnt_pos: "k < length qs \<Longrightarrow> h_used (qs ! k) \<Longrightarrow> f \<in> set (h_frames (qs ! k)) \<Longrightarrow> 0 < seg_cnt qs (fidx f)"
  using seg_cnt_upd [of k qs shm_zero "fidx f"] cnt_pos [of f "h_frames (qs ! k)"] by (simp add: shm_zero_def)

lemma att_count_upd:
  "j < length as \<Longrightarrow> att_count (as[j := a]) k + (if a_mm (as ! j) \<noteq> 0 \<and> a_slot (as ! j) = k then 1 else 0) =
   att_count as k + (if a_mm a \<noteq> 0 \<and> a_slot a = k then 1 else 0)"
  using length_filter_upd [of j as "\<lambda>a. a_mm a \<noteq> 0 \<and> a_slot a = k" a] by (simp only: att_count_def)

subsection \<open>Changing one segment and one attachment\<close>

definition same_seg :: "sysv_shm \<Rightarrow> sysv_shm \<Rightarrow> bool" where
  "same_seg q q' \<longleftrightarrow> h_used q' = h_used q \<and> h_frames q' = h_frames q \<and> p_seq (h_perm q') = p_seq (h_perm q) \<and> p_cuid (h_perm q') = p_cuid (h_perm q)"

lemma same_seg_sums:
  assumes "k < length qs" "same_seg (qs ! k) q"
  shows "pages_of (\<lambda>_. True) (qs[k := q]) = pages_of (\<lambda>_. True) qs"
    and "pages_of (\<lambda>q. p_cuid (h_perm q) = uid) (qs[k := q]) = pages_of (\<lambda>q. p_cuid (h_perm q) = uid) qs"
    and "seg_cnt (qs[k := q]) = seg_cnt qs"
proof -
  show "pages_of (\<lambda>_. True) (qs[k := q]) = pages_of (\<lambda>_. True) qs"
    using pages_of_upd [OF assms(1), of "\<lambda>_. True" q] assms(2) by (simp add: same_seg_def seg_pages_def split: if_splits)
  show "pages_of (\<lambda>q. p_cuid (h_perm q) = uid) (qs[k := q]) = pages_of (\<lambda>q. p_cuid (h_perm q) = uid) qs"
    using pages_of_upd [OF assms(1), of "\<lambda>q. p_cuid (h_perm q) = uid" q] assms(2) by (simp add: same_seg_def seg_pages_def split: if_splits)
  show "seg_cnt (qs[k := q]) = seg_cnt qs"
  proof
    fix i show "seg_cnt (qs[k := q]) i = seg_cnt qs i"
      using seg_cnt_upd [OF assms(1), of q i] assms(2) by (simp add: same_seg_def split: if_splits)
  qed
qed

lemma att_ok_same: "k < length qs \<Longrightarrow> same_seg (qs ! k) q \<Longrightarrow> att_ok (qs[k := q]) a = att_ok qs a"
  by (cases "a_slot a = k") (auto simp: att_ok_def same_seg_def)

text \<open>The general step: attachment \<open>j\<close> becomes \<open>a\<close> and the segment \<open>k\<close> whose attachments change becomes \<open>q\<close>.\<close>

lemma shm_inv_upd:
  assumes "shm_inv X s" "k < SYSV_SHMMNI" "same_seg (shms s ! k) q" "j < SHM_ATT_MAX" "att_ok (shms s) a"
    and "\<And>l. l \<noteq> k \<Longrightarrow> att_count ((shm_atts s)[j := a]) l = att_count (shm_atts s) l"
    and "h_used q \<Longrightarrow> h_nattch q = int (att_count ((shm_atts s)[j := a]) k)"
    and "X - {k} \<subseteq> Y" "k \<in> Y \<or> (h_used q \<longrightarrow> p_mode (h_perm q) AND SHM_DEST \<noteq> 0 \<longrightarrow> 0 < h_nattch q)"
  shows "shm_inv Y (set_seg k q (set_att j a s))"
proof -
  have len: "length (shms s) = SYSV_SHMMNI" "length (shm_atts s) = SHM_ATT_MAX" using assms(1) by (auto simp: shm_inv_def)
  note sums = same_seg_sums [of k "shms s" q, unfolded len, OF assms(2,3)]
  have "seg_ok ((shm_atts s)[j := a]) l ((shms s)[k := q] ! l)" if "l < SYSV_SHMMNI" for l
  proof (cases "l = k")
    case True
    then show ?thesis using assms(1,2,3,7) len by (auto simp: shm_inv_def seg_ok_def same_seg_def)
  next
    case False
    then show ?thesis using assms(1,6) that by (auto simp: shm_inv_def seg_ok_def)
  qed
  moreover have "att_ok ((shms s)[k := q]) ((shm_atts s)[j := a] ! i)" if "i < SHM_ATT_MAX" for i
    using assms(1,2,3,5) len that att_ok_same [of k "shms s" q] by (cases "i = j") (auto simp: shm_inv_def)
  moreover have "lingers Y ((shms s)[k := q])"
    unfolding lingers_def
  proof (intro allI impI)
    fix l assume l: "l < SYSV_SHMMNI" "l \<notin> Y" "h_used ((shms s)[k := q] ! l)" "p_mode (h_perm ((shms s)[k := q] ! l)) AND SHM_DEST \<noteq> 0"
    show "0 < h_nattch ((shms s)[k := q] ! l)"
    proof (cases "l = k")
      case True
      then show ?thesis using l assms(2,9) len by auto
    next
      case False
      then have "l \<notin> X" using l(2) assms(8) by auto
      then show ?thesis using l False assms(1) by (auto simp: shm_inv_def lingers_def)
    qed
  qed
  ultimately show ?thesis using assms(1) len sums by (simp add: shm_inv_def set_seg_def set_att_def)
qed

lemma att_count_0: "att_count as k = 0 \<Longrightarrow> i < length as \<Longrightarrow> a_mm (as ! i) \<noteq> 0 \<Longrightarrow> a_slot (as ! i) \<noteq> k"
  by (auto simp: att_count_def filter_empty_conv)

lemma att_count_unused:
  assumes "shm_inv X s" "\<not> h_used (shms s ! k)"
  shows "att_count (shm_atts s) k = 0"
proof -
  have "filter (\<lambda>a. a_mm a \<noteq> 0 \<and> a_slot a = k) (shm_atts s) = []"
    using assms by (auto simp: filter_empty_conv in_set_conv_nth shm_inv_def att_ok_def)
  then show ?thesis by (simp add: att_count_def)
qed

text \<open>Replacing a segment no attachment is for.\<close>

lemma shm_inv_replace:
  assumes "shm_inv X s" "k < SYSV_SHMMNI" "att_count (shm_atts s) k = 0" "h_used q \<Longrightarrow> seg_ok (shm_atts s) k q"
    and "X - {k} \<subseteq> Y" "k \<in> Y \<or> (h_used q \<longrightarrow> p_mode (h_perm q) AND SHM_DEST = 0)"
    and "tot = of_nat (pages_of (\<lambda>_. True) ((shms s)[k := q]))" "pages_of (\<lambda>_. True) ((shms s)[k := q]) \<le> 16384"
    and "\<And>uid. uid \<noteq> 0 \<Longrightarrow> pages_of (\<lambda>q. p_cuid (h_perm q) = uid) ((shms s)[k := q]) \<le> 4096" "1 \<le> sq" "sq < 0x7FFF"
  shows "shm_inv Y ((set_seg k q s)\<lparr>shm_seq_next := sq, shm_pages_total := tot\<rparr>)"
proof -
  have len: "length (shms s) = SYSV_SHMMNI" "length (shm_atts s) = SHM_ATT_MAX" using assms(1) by (auto simp: shm_inv_def)
  have "seg_ok (shm_atts s) l ((shms s)[k := q] ! l)" if "l < SYSV_SHMMNI" for l
    using assms(1,4) len that by (cases "l = k") (auto simp: shm_inv_def seg_ok_def)
  moreover have "att_ok ((shms s)[k := q]) (shm_atts s ! i)" if "i < SHM_ATT_MAX" for i
    using assms(1) len that att_count_0 [OF assms(3), of i] by (auto simp: shm_inv_def att_ok_def)
  moreover have "lingers Y ((shms s)[k := q])"
    unfolding lingers_def
  proof (intro allI impI)
    fix l assume l: "l < SYSV_SHMMNI" "l \<notin> Y" "h_used ((shms s)[k := q] ! l)" "p_mode (h_perm ((shms s)[k := q] ! l)) AND SHM_DEST \<noteq> 0"
    then have "l \<noteq> k" using assms(2,6) len by auto
    then show "0 < h_nattch ((shms s)[k := q] ! l)" using l assms(1,5) by (auto simp: shm_inv_def lingers_def)
  qed
  ultimately show ?thesis using assms(7-11) len by (simp add: shm_inv_def set_seg_def)
qed

lemma shm_inv_total_le: "shm_inv X s \<Longrightarrow> k < SYSV_SHMMNI \<Longrightarrow> \<not> h_used q \<Longrightarrow>
   pages_of P ((shms s)[k := q]) + (if P (shms s ! k) then seg_pages (shms s ! k) else 0) = pages_of P (shms s)"
  using pages_of_upd [of k "shms s" P q] by (simp add: shm_inv_def seg_pages_def)

lemma shm_destroy_good:
  assumes "shm_good K {k} (s, m)" "k < SYSV_SHMMNI" "h_used (shms s ! k)" "h_nattch (shms s ! k) \<le> 0"
  shows "shm_good K {} (shm_destroy k (s, m))"
proof -
  have inv: "shm_inv {k} s" and led: "shm_led K (s, m)" using assms(1) by (simp_all add: shm_good_def)
  let ?q = "shms s ! k" let ?q' = "?q\<lparr>h_frames := [], h_used := False\<rparr>"
  have len: "length (shms s) = SYSV_SHMMNI" using inv by (simp add: shm_inv_def)
  have ok: "seg_ok (shm_atts s) k ?q" using inv assms(2) by (simp add: shm_inv_def)
  then have nz: "att_count (shm_atts s) k = 0" "filter (\<lambda>f. f \<noteq> 0) (h_frames ?q) = h_frames ?q" using assms(3,4) by (auto simp: seg_ok_def filter_id_conv)
  have tot: "pages_of P ((shms s)[k := ?q']) + (if P ?q then length (h_frames ?q) else 0) = pages_of P (shms s)" for P
    using shm_inv_total_le [OF inv assms(2), of ?q' P] assms(3) by (simp add: seg_pages_def split: if_splits)
  have "shm_pages_total s - of_nat (length (h_frames ?q)) = (of_nat (pages_of (\<lambda>_. True) ((shms s)[k := ?q'])) :: u32)"
    using inv by (simp add: shm_inv_def flip: tot [of "\<lambda>_. True"])
  moreover have le: "pages_of P ((shms s)[k := ?q']) \<le> pages_of P (shms s)" for P using tot [of P] by simp
  have "pages_of (\<lambda>_. True) ((shms s)[k := ?q']) \<le> 16384" by (rule le_trans [OF le]) (use inv in \<open>simp add: shm_inv_def\<close>)
  moreover have "pages_of (\<lambda>q. p_cuid (h_perm q) = uid) ((shms s)[k := ?q']) \<le> 4096" if "uid \<noteq> 0" for uid
    by (rule le_trans [OF le]) (use inv that in \<open>simp add: shm_inv_def\<close>)
  ultimately have "shm_inv {} ((set_seg k ?q' s)\<lparr>shm_seq_next := shm_seq_next s, shm_pages_total := shm_pages_total s - of_nat (length (h_frames ?q))\<rparr>)"
    using inv assms(2) nz(1) by (intro shm_inv_replace) (auto simp: shm_inv_def)
  then have "shm_inv {} (fst (shm_destroy k (s, m)))" by (simp add: shm_destroy_def Let_def set_seg_def)
  moreover have "shm_led K (shm_destroy k (s, m))"
  proof -
    have "seg_cnt (shms s) i = cnt (h_frames ?q) i + seg_cnt ((shms s)[k := ?q']) i" for i
      using seg_cnt_upd [of k "shms s" ?q' i] assms(2,3) len by simp
    then have "frames_led (sm_pmm m) (\<lambda>i. cnt (h_frames ?q) i + (seg_cnt ((shms s)[k := ?q']) i + (pte_cnt (sm_ptes m) i + K i)))"
      using led by (simp add: shm_led_def add.assoc)
    from led_put [OF this] show ?thesis by (simp add: shm_led_def shm_destroy_def Let_def set_seg_def nz(2))
  qed
  ultimately show ?thesis by (simp add: shm_good_def)
qed

lemma shm_inv_mono: "shm_inv X s \<Longrightarrow> k \<notin> X \<or> (h_used (shms s ! k) \<longrightarrow> p_mode (h_perm (shms s ! k)) AND SHM_DEST \<noteq> 0 \<longrightarrow> 0 < h_nattch (shms s ! k)) \<Longrightarrow> shm_inv (X - {k}) s"
  by (auto simp: shm_inv_def lingers_def)

lemma shm_maybe_destroy_good: "shm_good K {k} (s, m) \<Longrightarrow> k < SYSV_SHMMNI \<Longrightarrow> shm_good K {} (shm_maybe_destroy k (s, m))"
  using shm_destroy_good [of K k s m] shm_inv_mono [of "{k}" s k]
  by (auto simp: shm_maybe_destroy_def Let_def shm_good_def not_le)

subsection \<open>Operations\<close>

lemma att_count_less: "j < length as \<Longrightarrow> a_mm (as ! j) = 0 \<Longrightarrow> a_mm a \<noteq> 0 \<Longrightarrow>
   att_count (as[j := a]) l = att_count as l + (if a_slot a = l then 1 else 0)"
  using att_count_upd [of j as a l] by simp

lemma att_count_drop: "j < length as \<Longrightarrow> a_mm (as ! j) \<noteq> 0 \<Longrightarrow> a_mm a = 0 \<Longrightarrow>
   att_count (as[j := a]) l + (if a_slot (as ! j) = l then 1 else 0) = att_count as l"
  using att_count_upd [of j as a l] by simp

lemma shm_led_keep: "shm_led K (s, m) \<Longrightarrow> seg_cnt (shms t) = seg_cnt (shms s) \<Longrightarrow> shm_led K (t, m)"
  by (simp add: shm_led_def)

text \<open>An attachment more, of segment \<open>k\<close>.\<close>

lemma attach_inv:
  assumes "shm_inv {} s" "k < SYSV_SHMMNI" "h_used (shms s ! k)" "j < SHM_ATT_MAX" "a_mm (shm_atts s ! j) = 0"
    and "same_seg (shms s ! k) q" "h_nattch q = h_nattch (shms s ! k) + 1" "h_perm q = h_perm (shms s ! k)"
    and "a_slot a = k" "a_mm a \<noteq> 0" "att_ok (shms s) a"
  shows "shm_inv {} (set_seg k q (set_att j a s)) \<and> seg_cnt (shms (set_seg k q (set_att j a s))) = seg_cnt (shms s)"
proof -
  have len: "length (shms s) = SYSV_SHMMNI" "length (shm_atts s) = SHM_ATT_MAX" using assms(1) by (auto simp: shm_inv_def)
  have n: "h_nattch (shms s ! k) = int (att_count (shm_atts s) k)" using assms(1-3) by (simp add: shm_inv_def seg_ok_def)
  have c: "att_count ((shm_atts s)[j := a]) l = att_count (shm_atts s) l + (if k = l then 1 else 0)" for l
    using att_count_less [of j "shm_atts s" a l] len assms(4,5,9,10) by simp
  have "shm_inv {} (set_seg k q (set_att j a s))"
    by (rule shm_inv_upd [OF assms(1,2,6,4,11)]) (use c n assms(7) in auto)
  then show ?thesis using same_seg_sums(3) [of k "shms s" q] len assms(2,6) by (simp add: set_seg_def set_att_def)
qed

text \<open>An attachment less; the segment is looked at afterwards.\<close>

lemma detach_inv:
  assumes "shm_inv {} s" "j < SHM_ATT_MAX" "a_mm (shm_atts s ! j) \<noteq> 0" "k = a_slot (shm_atts s ! j)"
    and "same_seg (shms s ! k) q" "h_nattch q = h_nattch (shms s ! k) - 1"
  shows "shm_inv {k} (set_seg k q (set_att j ((shm_atts s ! j)\<lparr>a_mm := 0\<rparr>) s)) \<and>
    seg_cnt (shms (set_seg k q (set_att j ((shm_atts s ! j)\<lparr>a_mm := 0\<rparr>) s))) = seg_cnt (shms s)"
proof -
  have len: "length (shms s) = SYSV_SHMMNI" "length (shm_atts s) = SHM_ATT_MAX" using assms(1) by (auto simp: shm_inv_def)
  have k: "k < SYSV_SHMMNI" "h_used (shms s ! k)" using assms(1-4) by (auto simp: shm_inv_def att_ok_def)
  have n: "h_nattch (shms s ! k) = int (att_count (shm_atts s) k)" using assms(1) k by (simp add: shm_inv_def seg_ok_def)
  let ?a = "(shm_atts s ! j)\<lparr>a_mm := 0\<rparr>"
  have c: "att_count ((shm_atts s)[j := ?a]) l + (if k = l then 1 else 0) = att_count (shm_atts s) l" for l
    using att_count_drop [of j "shm_atts s" ?a l] len assms(2-4) by simp
  have "shm_inv {k} (set_seg k q (set_att j ?a s))"
  proof (rule shm_inv_upd [OF assms(1) k(1) assms(5,2)])
    show "h_nattch q = int (att_count ((shm_atts s)[j := ?a]) k)" using c [of k] n assms(6) by simp
    show "att_count ((shm_atts s)[j := ?a]) l = att_count (shm_atts s) l" if "l \<noteq> k" for l using c [of l] that by simp
  qed (auto simp: att_ok_def)
  then show ?thesis using same_seg_sums(3) [of k "shms s" q] len k(1) assms(5) by (simp add: set_seg_def set_att_def)
qed

lemma set_att_self: "j < length (shm_atts s) \<Longrightarrow> set_att j (shm_atts s ! j) s = s"
  by (simp add: set_att_def)

lemma seg_upd_inv:
  assumes "shm_inv {} s" "k < SYSV_SHMMNI" "same_seg (shms s ! k) q" "h_nattch q = h_nattch (shms s ! k)"
    "k \<in> Y \<or> (h_used q \<longrightarrow> p_mode (h_perm q) AND SHM_DEST \<noteq> 0 \<longrightarrow> 0 < h_nattch q)"
  shows "shm_inv Y (set_seg k q s) \<and> seg_cnt (shms (set_seg k q s)) = seg_cnt (shms s)"
proof -
  have len: "length (shms s) = SYSV_SHMMNI" "length (shm_atts s) = SHM_ATT_MAX" using assms(1) by (auto simp: shm_inv_def)
  have "shm_inv Y (set_seg k q (set_att 0 (shm_atts s ! 0) s))"
    using assms len by (intro shm_inv_upd [OF assms(1-3)]) (auto simp: shm_inv_def seg_ok_def same_seg_def)
  then show ?thesis using same_seg_sums(3) [of k "shms s" q] len assms(2,3) by (simp add: set_att_self set_seg_def)
qed

lemma do_shmat_cases:
  assumes "do_shmat pl c now (s, m) x addr flag = (r, s', m')"
  obtains (refused) e where "r = Inl e" "s' = s" "m' = m"
    | (attached) slot i base ad where "r = Inr base" "shm_by_id s x = Some slot" "i < SHM_ATT_MAX" "a_mm (shm_atts s ! i) = 0" "base \<noteq> 0"
      "mm_shm_attach_at pl (c_mm c) (h_frames (shms s ! slot)) ad m = (base, m')"
      "s' = set_seg slot ((shms s ! slot)\<lparr>h_nattch := h_nattch (shms s ! slot) + 1, h_atime := now, h_lpid := c_tgid c\<rparr>)
         (set_att i \<lparr>a_mm = c_mm c, a_slot = slot, a_seq = p_seq (h_perm (shms s ! slot)), a_addr = base, a_npages = length (h_frames (shms s ! slot))\<rparr> s)"
proof (cases "shm_by_id s x")
  case None
  then show thesis using assms refused by (auto simp: do_shmat_def)
next
  case byid: (Some slot)
  define ad where "ad = (if addr \<noteq> 0 \<and> flag AND SHM_RND \<noteq> 0 then addr AND NOT 0xFFF else addr)"
  obtain base m1 where at: "mm_shm_attach_at pl (c_mm c) (h_frames (shms s ! slot)) ad m = (base, m1)" by fastforce
  have b0: "m1 = m" if "base = 0" using at that by (auto simp: mm_shm_attach_at_def Let_def split: if_splits)
  show thesis
  proof (cases "find (\<lambda>i. a_mm (shm_atts s ! i) = 0) [0..<SHM_ATT_MAX]")
    case None
    then have "(\<exists>e. r = Inl e) \<and> s' = s \<and> m' = m"
      using assms byid by (auto simp: do_shmat_def Let_def split: if_splits)
    then show thesis using refused by blast
  next
    case (Some i)
    then have i: "i < SHM_ATT_MAX" "a_mm (shm_atts s ! i) = 0" using find_upt0_Some [OF Some] by auto
    show thesis
    proof (cases r)
      case (Inl e)
      then have "s' = s \<and> m' = m"
        using assms byid Some at b0 by (auto simp: do_shmat_def Let_def simp flip: ad_def split: if_splits)
      then show thesis using refused Inl by blast
    next
      case (Inr b)
      then have "b = base" "base \<noteq> 0" "m' = m1" "s' = set_seg slot ((shms s ! slot)\<lparr>h_nattch := h_nattch (shms s ! slot) + 1, h_atime := now, h_lpid := c_tgid c\<rparr>)
         (set_att i \<lparr>a_mm = c_mm c, a_slot = slot, a_seq = p_seq (h_perm (shms s ! slot)), a_addr = base, a_npages = length (h_frames (shms s ! slot))\<rparr> s)"
        using assms byid Some at by (auto simp: do_shmat_def Let_def simp flip: ad_def split: if_splits)
      then show thesis using attached [of base slot i ad] Inr byid i at by blast
    qed
  qed
qed

lemma do_shmat_good:
  assumes "shm_good K {} (s, m)" "do_shmat pl c now (s, m) x addr flag = (r, s', m')" "c_mm c \<noteq> 0"
    and pl: "\<And>n addr. place_ok pl (sm_ptes m) (c_mm c) n addr"
  shows "shm_good K {} (s', m')"
proof -
  have inv: "shm_inv {} s" and led: "shm_led K (s, m)" using assms(1) by (simp_all add: shm_good_def)
  from assms(2) show ?thesis
  proof (cases rule: do_shmat_cases)
    case refused
    then show ?thesis using assms(1) by simp
  next
    case (attached slot i base ad)
    note slot = shm_by_id_used [OF attached(2), THEN conjunct1] shm_by_id_used [OF attached(2), THEN conjunct2]
    let ?fs = "h_frames (shms s ! slot)"
    have len: "length (shms s) = SYSV_SHMMNI" "length ?fs \<le> MM_SHM_MAX_PAGES" using inv slot by (simp_all add: shm_inv_def seg_ok_def)
    have "0 < seg_cnt (shms s) (fidx f)" if "f \<in> set ?fs" for f using seg_cnt_pos slot len that by simp
    then have "frames_led (sm_pmm m') (\<lambda>i. pte_cnt (sm_ptes m') i + (seg_cnt (shms s) i + K i))"
      using led_attach [OF _ attached(6) len(2) _ pl, of "\<lambda>i. seg_cnt (shms s) i + K i"] led by (simp add: shm_led_def add.left_commute)
    then have l: "shm_led K (s, m')" by (simp add: shm_led_def add.left_commute)
    have "shm_inv {} s' \<and> seg_cnt (shms s') = seg_cnt (shms s)"
      unfolding attached(7) using slot attached(3,4) by (intro attach_inv [OF inv]) (auto simp: same_seg_def att_ok_def assms(3))
    then show ?thesis using shm_led_keep [OF l] by (simp add: shm_good_def)
  qed
qed

lemma led_seg_detach: "shm_led K (s, m) \<Longrightarrow> shm_led K (s, mm_shm_detach mm base frames n m)"
  using led_detach [of m "\<lambda>i. seg_cnt (shms s) i + K i"] by (simp add: shm_led_def add.left_commute)

lemma do_shmdt_good:
  assumes "shm_good K {} (s, m)" "do_shmdt c now (s, m) addr = (r, s', m')" "c_mm c \<noteq> 0"
  shows "shm_good K {} (s', m')"
proof (cases "find (\<lambda>i. a_mm (shm_atts s ! i) = c_mm c \<and> a_addr (shm_atts s ! i) = addr) [0..<SHM_ATT_MAX]")
  case None
  then show ?thesis using assms(1,2) by (simp add: do_shmdt_def)
next
  case (Some i)
  let ?a = "shm_atts s ! i" let ?q = "shms s ! a_slot ?a"
  have inv: "shm_inv {} s" and led: "shm_led K (s, m)" using assms(1) by (simp_all add: shm_good_def)
  have i: "i < SHM_ATT_MAX" "a_mm ?a \<noteq> 0" using find_upt0_Some [OF Some] assms(3) by auto
  then have a: "a_slot ?a < SYSV_SHMMNI" "h_used ?q" "p_seq (h_perm ?q) = a_seq ?a" using inv by (auto simp: shm_inv_def att_ok_def)
  let ?s = "set_seg (a_slot ?a) (?q\<lparr>h_nattch := h_nattch ?q - 1, h_dtime := now, h_lpid := c_tgid c\<rparr>) (set_att i (?a\<lparr>a_mm := 0\<rparr>) s)"
  let ?m = "mm_shm_detach (c_mm c) addr (h_frames ?q) (a_npages ?a) m"
  have "shm_inv {a_slot ?a} ?s \<and> seg_cnt (shms ?s) = seg_cnt (shms s)" by (rule detach_inv [OF inv i refl]) (simp_all add: same_seg_def)
  then have "shm_good K {a_slot ?a} (?s, ?m)" using shm_led_keep [OF led_seg_detach [OF led]] by (simp add: shm_good_def)
  moreover have "(s', m') = shm_maybe_destroy (a_slot ?a) (?s, ?m)" using assms(2) Some a by (simp add: do_shmdt_def Let_def)
  ultimately show ?thesis using shm_maybe_destroy_good a(1) by metis
qed

lemma release_att_good:
  assumes "shm_good K {} (s, m)" "mm \<noteq> 0" "i < SHM_ATT_MAX"
  shows "shm_good K {} (release_att now mm i (s, m))"
proof (cases "a_mm (shm_atts s ! i) = mm")
  case False
  then show ?thesis using assms(1) by (simp add: release_att_def)
next
  case True
  let ?a = "shm_atts s ! i" let ?q = "shms s ! a_slot ?a"
  have inv: "shm_inv {} s" and led: "shm_led K (s, m)" using assms(1) by (simp_all add: shm_good_def)
  have nz: "a_mm ?a \<noteq> 0" using True assms(2) by simp
  then have a: "a_slot ?a < SYSV_SHMMNI" "h_used ?q" "p_seq (h_perm ?q) = a_seq ?a" using inv assms(3) by (auto simp: shm_inv_def att_ok_def)
  let ?s = "set_seg (a_slot ?a) (?q\<lparr>h_nattch := h_nattch ?q - 1, h_dtime := now\<rparr>) (set_att i (?a\<lparr>a_mm := 0\<rparr>) s)"
  have "shm_inv {a_slot ?a} ?s \<and> seg_cnt (shms ?s) = seg_cnt (shms s)" by (rule detach_inv [OF inv assms(3) nz refl]) (simp_all add: same_seg_def)
  then have "shm_good K {a_slot ?a} (?s, m)" using shm_led_keep [OF led] by (simp add: shm_good_def)
  moreover have "release_att now mm i (s, m) = shm_maybe_destroy (a_slot ?a) (?s, m)" using True a by (simp add: release_att_def Let_def)
  ultimately show ?thesis using shm_maybe_destroy_good a(1) by metis
qed

lemma fold_keeps: "P x \<Longrightarrow> (\<And>i x. i \<in> set is \<Longrightarrow> P x \<Longrightarrow> P (f i x)) \<Longrightarrow> P (fold f is x)"
  by (induction "is" arbitrary: x) auto

lemma sysv_shm_mm_release_good:
  assumes "shm_good K {} sm"
  shows "shm_good K {} (sysv_shm_mm_release now mm sm)"
proof (cases "mm = 0")
  case False
  have "shm_good K {} (fold (release_att now mm) [0..<SHM_ATT_MAX] sm)"
  proof (rule fold_keeps [where P = "shm_good K {}", OF assms])
    fix i x assume "i \<in> set [0..<SHM_ATT_MAX]" "shm_good K {} x"
    then show "shm_good K {} (release_att now mm i x)" using release_att_good [OF _ False, of K "fst x" "snd x" i now] by simp
  qed
  then show ?thesis using False by (simp add: sysv_shm_mm_release_def)
qed (simp add: assms sysv_shm_mm_release_def)

lemma fork_att_good:
  assumes "shm_good K {} (s, m)" "pm \<noteq> 0" "cm \<noteq> 0" "i < SHM_ATT_MAX"
  shows "shm_good K {} (fork_att pm cm i s, m)"
proof -
  have inv: "shm_inv {} s" and led: "shm_led K (s, m)" using assms(1) by (simp_all add: shm_good_def)
  let ?a = "shm_atts s ! i" let ?q = "shms s ! a_slot ?a"
  consider "fork_att pm cm i s = s" | j where "a_mm ?a = pm" "find (\<lambda>j. a_mm (shm_atts s ! j) = 0) [0..<SHM_ATT_MAX] = Some j"
      "fork_att pm cm i s = set_seg (a_slot ?a) (?q\<lparr>h_nattch := h_nattch ?q + 1\<rparr>) (set_att j (?a\<lparr>a_mm := cm\<rparr>) s)"
    by (cases "find (\<lambda>j. a_mm (shm_atts s ! j) = 0) [0..<SHM_ATT_MAX]"; cases "a_mm ?a = pm"; cases "\<not> h_used ?q \<or> p_seq (h_perm ?q) \<noteq> a_seq ?a")
      (simp_all add: fork_att_def Let_def)
  then show ?thesis
  proof cases
    case 1
    then show ?thesis using assms(1) by simp
  next
    case (2 j)
    have j: "j < SHM_ATT_MAX" "a_mm (shm_atts s ! j) = 0" using find_upt0_Some [OF 2(2)] by auto
    have a: "att_ok (shms s) ?a" "a_mm ?a \<noteq> 0" using inv assms(2,4) 2(1) by (simp_all add: shm_inv_def)
    let ?s = "fork_att pm cm i s"
    have "shm_inv {} ?s \<and> seg_cnt (shms ?s) = seg_cnt (shms s)"
      unfolding 2(3) using a j by (intro attach_inv [OF inv]) (auto simp: same_seg_def att_ok_def assms(3))
    then show ?thesis using shm_led_keep [OF led] by (simp add: shm_good_def)
  qed
qed

lemma sysv_shm_fork_good: "shm_good K {} (s, m) \<Longrightarrow> shm_good K {} (sysv_shm_fork pm cm s, m)"
proof -
  have "shm_good K {} (s, m) \<Longrightarrow> \<forall>i\<in>set is. i < SHM_ATT_MAX \<Longrightarrow> pm \<noteq> 0 \<Longrightarrow> cm \<noteq> 0 \<Longrightarrow> shm_good K {} (fold (fork_att pm cm) is s, m)" for "is" s
    by (induction "is" arbitrary: s) (auto intro: fork_att_good)
  then show "shm_good K {} (s, m) \<Longrightarrow> shm_good K {} (sysv_shm_fork pm cm s, m)" by (simp add: sysv_shm_fork_def)
qed

lemma shmctl_slot_good:
  assumes "shm_good K {} (s, m)" "slot < SYSV_SHMMNI" "shmctl_slot c now um (s, m) cmd ubuf ret slot = (r, um', s', m')"
  shows "shm_good K {} (s', m')"
proof -
  have inv: "shm_inv {} s" and led: "shm_led K (s, m)" using assms(1) by (simp_all add: shm_good_def)
  let ?q = "shms s ! slot" let ?p = "h_perm ?q"
  have upd: "shm_good K Y (set_seg slot q s, m)" if "same_seg ?q q" "h_nattch q = h_nattch ?q"
    "slot \<in> Y \<or> p_mode (h_perm q) AND SHM_DEST = p_mode (h_perm ?q) AND SHM_DEST" for Y q
  proof -
    have "slot \<in> Y \<or> (h_used q \<longrightarrow> p_mode (h_perm q) AND SHM_DEST \<noteq> 0 \<longrightarrow> 0 < h_nattch q)"
      using that inv assms(2) by (auto simp: same_seg_def shm_inv_def lingers_def)
    then show ?thesis using seg_upd_inv [OF inv assms(2) that(1,2)] shm_led_keep [OF led] by (simp add: shm_good_def)
  qed
  have 1: "shm_good K {} (set_seg slot (?q\<lparr>h_perm := perm_set ?p d, h_ctime := now\<rparr>) s, m)" for d
    by (rule upd) (simp_all add: same_seg_def perm_set_def bit.conj_disj_distrib2 and.assoc)
  have 2: "shm_good K {} (shm_maybe_destroy slot (set_seg slot (?q\<lparr>h_perm := ?p\<lparr>p_mode := p_mode ?p OR SHM_DEST, p_key := 0\<rparr>, h_ctime := now\<rparr>) s, m))"
    by (intro shm_maybe_destroy_good upd assms(2)) (simp_all add: same_seg_def)
  have 3: "shm_good K {} (set_seg slot (?q\<lparr>h_perm := ?p\<lparr>p_mode := p_mode ?p OR SHM_LOCKED\<rparr>\<rparr>) s, m)"
    by (rule upd) (simp_all add: same_seg_def bit.conj_disj_distrib2)
  have 4: "shm_good K {} (set_seg slot (?q\<lparr>h_perm := ?p\<lparr>p_mode := p_mode ?p AND NOT SHM_LOCKED\<rparr>\<rparr>) s, m)"
    by (rule upd) (simp_all add: same_seg_def and.assoc)
  show ?thesis
    using assms(1,3) 1 2 3 4 by (auto simp: shmctl_slot_def Let_def split: if_splits prod.splits)
qed

lemma do_shmctl_good:
  assumes "shm_good K {} (s, m)" "do_shmctl c now um (s, m) x cmd ubuf = (r, um', s', m')"
  shows "shm_good K {} (s', m')"
proof -
  have "shm_good K {} (s'', m'')" if "slot < SYSV_SHMMNI" "shmctl_slot c now um (s, m) cmd' ubuf ret slot = (r', um2, s'', m'')" for slot cmd' ret r' um2 s'' m''
    by (rule shmctl_slot_good [OF assms(1) that])
  moreover have "nat x < SYSV_SHMMNI" if "\<not> x < 0" "\<not> int SYSV_SHMMNI \<le> x" using that by simp
  ultimately show ?thesis
    using assms shm_by_id_used [of s x] unfolding do_shmctl_def Let_def
    by (auto split: if_splits prod.splits option.splits)
qed

lemma shm_mine_pages:
  assumes "length (shms s) = SYSV_SHMMNI"
  shows "shm_mine s uid = of_nat (pages_of (\<lambda>q. p_cuid (h_perm q) = uid) (shms s))"
proof -
  let ?f = "\<lambda>q. if p_cuid (h_perm q) = uid then seg_pages q else 0"
  have "map ?f (shms s) = map (\<lambda>i. ?f (shms s ! i)) [0..<SYSV_SHMMNI]" by (rule nth_equalityI) (simp_all add: assms)
  then have "pages_of (\<lambda>q. p_cuid (h_perm q) = uid) (shms s) = sum_list (map (\<lambda>i. ?f (shms s ! i)) [0..<SYSV_SHMMNI])"
    by (simp only: pages_of_def)
  moreover have "sum_list (map (\<lambda>i. of_nat (length (h_frames (shms s ! i)))) (filter (\<lambda>i. h_used (shms s ! i) \<and> p_cuid (h_perm (shms s ! i)) = uid) is)) =
    (of_nat (sum_list (map (\<lambda>i. ?f (shms s ! i)) is)) :: u32)" for "is"
    by (induction "is") (auto simp: seg_pages_def)
  ultimately show ?thesis unfolding shm_mine_def by simp
qed

lemma shm_np:
  assumes "\<not> (sz < 1 \<or> sz > SYSV_SHMMAX)"
  shows "unat ((sz + 4095) div 4096) \<le> MM_SHM_MAX_PAGES"
proof -
  have "unat sz \<le> 33554432" using assms by (simp add: word_less_nat_alt)
  then have "unat (sz + 4095) = unat sz + 4095" by (simp add: unat_word_ariths)
  then show ?thesis using \<open>unat sz \<le> 33554432\<close> by (simp add: unat_div)
qed

lemma shm_create_good:
  assumes "shm_good K {} (s, m)" "find (\<lambda>i. \<not> h_used (shms s ! i)) [0..<SYSV_SHMMNI] = Some slot"
    and "np \<le> MM_SHM_MAX_PAGES" "\<not> shm_pages_total s + of_nat np > SYSV_SHMALL"
    and "\<not> (c_euid c \<noteq> 0 \<and> shm_mine s (c_euid c) + of_nat np > SYSV_SHM_USER_PAGES)"
    and "get_frames np [] (sm_pmm m) = (Some frames, pm)"
    and "h_used q" "h_perm q = perm_init c key flag (shm_seq_next s)" "h_frames q = frames" "h_nattch q = 0"
  shows "shm_good K {} ((set_seg slot q s)\<lparr>shm_seq_next := seq_advance (shm_seq_next s), shm_pages_total := shm_pages_total s + of_nat np\<rparr>, m\<lparr>sm_pmm := pm\<rparr>)"
proof -
  have inv: "shm_inv {} s" and led: "shm_led K (s, m)" using assms(1) by (simp_all add: shm_good_def)
  have slot: "slot < SYSV_SHMMNI" "\<not> h_used (shms s ! slot)" using find_upt0_Some [OF assms(2)] by auto
  have len: "length (shms s) = SYSV_SHMMNI" using inv by (simp add: shm_inv_def)
  have ac: "att_count (shm_atts s) slot = 0" by (rule att_count_unused [OF inv slot(2)])
  have g: "frames_led pm (\<lambda>i. cnt frames i + (seg_cnt (shms s) i + (pte_cnt (sm_ptes m) i + K i)))" "length frames = np" "0 \<notin> set frames"
    using led_get [of "sm_pmm m" "[]" "\<lambda>i. seg_cnt (shms s) i + (pte_cnt (sm_ptes m) i + K i)", OF _ assms(6)] led by (auto simp: shm_led_def)
  have pages: "pages_of P ((shms s)[slot := q]) = pages_of P (shms s) + (if P q then np else 0)" for P
    using pages_of_upd [of slot "shms s" P q] slot len assms(7,9) g(2) by (auto simp: seg_pages_def split: if_splits)
  have small: "unat (of_nat k + of_nat np :: u32) = k + np" if "k \<le> 16384" for k
    using that assms(3) by (simp add: unat_of_nat take_bit_nat_eq_self flip: of_nat_add)
  have tot: "pages_of (\<lambda>_. True) (shms s) + np \<le> 16384"
    using inv assms(4) small [of "pages_of (\<lambda>_. True) (shms s)"] by (simp add: shm_inv_def word_less_nat_alt)
  have "pages_of (\<lambda>q. p_cuid (h_perm q) = uid) ((shms s)[slot := q]) \<le> 4096" if uid: "uid \<noteq> 0" for uid
  proof (cases "c_euid c = uid")
    case True
    have "pages_of (\<lambda>q. p_cuid (h_perm q) = uid) (shms s) \<le> 4096" using inv uid by (simp add: shm_inv_def)
    then show ?thesis
      using assms(5,8) True uid shm_mine_pages [OF len, of uid] small [of "pages_of (\<lambda>q. p_cuid (h_perm q) = uid) (shms s)"]
      by (simp add: pages perm_init_def word_less_nat_alt)
  next
    case False
    then show ?thesis using inv uid assms(8) by (simp add: pages perm_init_def shm_inv_def)
  qed
  moreover have "p_mode (h_perm q) AND SHM_DEST = 0" by (simp add: assms(8) perm_init_def and.assoc)
  moreover have "seg_ok (shm_atts s) slot q" using assms(3,8-10) g(2,3) ac inv by (simp add: seg_ok_def perm_init_def shm_inv_def)
  ultimately have "shm_inv {} ((set_seg slot q s)\<lparr>shm_seq_next := seq_advance (shm_seq_next s), shm_pages_total := shm_pages_total s + of_nat np\<rparr>)"
    using inv slot(1) ac tot seq_advance_range [of "shm_seq_next s"] by (intro shm_inv_replace) (auto simp: pages shm_inv_def)
  moreover have "seg_cnt ((shms s)[slot := q]) i = cnt frames i + seg_cnt (shms s) i" for i
    using seg_cnt_upd [of slot "shms s" q i] slot len assms(7,9) by simp
  then have "frames_led pm (\<lambda>i. seg_cnt ((shms s)[slot := q]) i + (pte_cnt (sm_ptes m) i + K i))" using g(1) by (simp add: add.assoc)
  ultimately show ?thesis by (simp add: shm_good_def shm_led_def set_seg_def)
qed

lemma do_shmget_good:
  assumes "shm_good K {} (s, m)" "do_shmget mem c now (s, m) key sz flag = (r, s', m')"
  shows "shm_good K {} (s', m')"
proof (cases "s' = s \<and> m' = m")
  case False
  define np where "np = (sz + 4095) div 4096"
  have e: "\<exists>slot. find (\<lambda>i. \<not> h_used (shms s ! i)) [0..<SYSV_SHMMNI] = Some slot \<and> \<not> (sz < 1 \<or> sz > SYSV_SHMMAX) \<and> \<not> shm_pages_total s + np > SYSV_SHMALL \<and>
      \<not> (c_euid c \<noteq> 0 \<and> shm_mine s (c_euid c) + np > SYSV_SHM_USER_PAGES) \<and>
      (case get_frames (unat np) [] (sm_pmm m) of (None, pm) \<Rightarrow> (- ENOMEM, s, m\<lparr>sm_pmm := pm\<rparr>)
       | (Some frames, pm) \<Rightarrow> (ID_OF slot (shm_seq_next s) SYSV_SHMMNI,
          (set_seg slot (shm_zero\<lparr>h_used := True, h_perm := perm_init c key flag (shm_seq_next s), h_size := sz,
             h_frames := frames, h_ctime := now, h_cpid := c_tgid c\<rparr>) s)\<lparr>shm_seq_next := seq_advance (shm_seq_next s), shm_pages_total := shm_pages_total s + np\<rparr>,
          m\<lparr>sm_pmm := pm\<rparr>)) = (r, s', m')"
    using assms(2) False unfolding do_shmget_def prod.case Let_def np_def [symmetric]
    by (simp split: option.splits if_splits)
  then obtain slot where slot: "find (\<lambda>i. \<not> h_used (shms s ! i)) [0..<SYSV_SHMMNI] = Some slot" and sz: "\<not> (sz < 1 \<or> sz > SYSV_SHMMAX)"
    and lim: "\<not> shm_pages_total s + of_nat (unat np) > SYSV_SHMALL" "\<not> (c_euid c \<noteq> 0 \<and> shm_mine s (c_euid c) + of_nat (unat np) > SYSV_SHM_USER_PAGES)" by auto
  note np = shm_np [OF sz, folded np_def]
  show ?thesis
  proof (cases "get_frames (unat np) [] (sm_pmm m)")
    case (Pair fo pm)
    show ?thesis
    proof (cases fo)
      case None
      then have "s' = s" "m' = m\<lparr>sm_pmm := pm\<rparr>" using e Pair by auto
      then show ?thesis
        using led_get [of "sm_pmm m" "[]" "\<lambda>i. seg_cnt (shms s) i + (pte_cnt (sm_ptes m) i + K i)", OF _ Pair] assms(1) None
        by (simp add: shm_good_def shm_led_def)
    next
      case (Some frames)
      then show ?thesis
        using shm_create_good [OF assms(1) slot np lim, of frames pm] Pair e slot by (auto simp: shm_zero_def)
    qed
  qed
qed (use assms in simp)

subsection \<open>Boot\<close>

lemma unused_segs:
  assumes "\<not> h_used q"
  shows "seg_cnt (replicate n q) i = 0" "pages_of P (replicate n q) = 0"
  using assms by (induction n) (simp_all add: seg_cnt_def pages_of_def seg_pages_def)

lemma shm_boot_inv: "shm_inv {} shm_boot"
  by (simp add: shm_inv_def shm_boot_def seg_ok_def att_ok_def lingers_def unused_segs shm_zero_def)

end
