(* ===== verification/Ipc_Calls.thy ===== *)
theory Ipc_Calls
  imports Ipc_Msg Ipc_Sem Ipc_Shm
begin

text \<open>
  The entry points of System V IPC, src/proc/sysvipc.c: the multiplexer \<open>sys_ipc\<close>, the direct
  system calls \<open>sysv_direct\<close>, and the timespec conversion of \<open>semtimedop\<close>, over the message,
  semaphore and shared-memory tables together.  The lemmas show that both entry points do the same
  and that any sequence of calls, sleeps and wakeups keeps all three tables consistent.
\<close>

section \<open>State and environment of a call\<close>

record ipc =
  i_msg :: msg_state
  i_sem :: sem_state
  i_shm :: "shm_state \<times> shm_mem"
  i_um :: umem

text \<open>The caller, the time, whether memory is there, where an attachment may go, and the wakeups a
  sleeping call gets.\<close>

record ipc_env =
  e_cred :: cred
  e_now :: u32
  e_mem :: bool
  e_place :: place
  e_msg_ws :: "(msg_state \<times> int) list"
  e_sem_ws :: "(sem_state \<times> int) list"

record ipc_regs =
  ebx :: u32
  ecx :: u32
  edx :: u32
  esi :: u32
  edi :: u32
  ebp :: u32

text \<open>None: the call still sleeps after the wakeups it was given.\<close>

type_synonym ipc_res = "(int \<times> ipc) option"

definition on_msg :: "ipc \<Rightarrow> (int \<times> msg_state) option \<Rightarrow> ipc_res" where
  "on_msg S = map_option (\<lambda>(r, s). (r, S\<lparr>i_msg := s\<rparr>))"

definition on_sem :: "ipc \<Rightarrow> (int \<times> sem_state) option \<Rightarrow> ipc_res" where
  "on_sem S = map_option (\<lambda>(r, s). (r, S\<lparr>i_sem := s\<rparr>))"

definition on_shm :: "ipc \<Rightarrow> int \<times> shm_state \<times> shm_mem \<Rightarrow> ipc_res" where
  "on_shm S = (\<lambda>(r, x). Some (r, S\<lparr>i_shm := x\<rparr>))"

section \<open>Entry points\<close>

definition ts_ticks :: "umem \<Rightarrow> u32 \<Rightarrow> bool \<Rightarrow> int + u32" where
  "ts_ticks um uts is64 =
     (let (r, t) = copy_from_user um uts (if is64 then 16 else 8);
          sec = (if is64 then sint (le_bytes (take 8 t) :: u64) else sint (le_bytes (take 4 t) :: u32));
          nsec = (if is64 then sint (ucast (le_bytes (drop 8 t) :: u64) :: u32)
                  else sint (le_bytes (drop 4 t) :: u32))
      in if r < 0 then Inl (- EFAULT)
         else if sec < 0 \<or> nsec < 0 \<or> nsec \<ge> 1000000000 then Inl (- EINVAL)
         else let sec' = (if sec > 10000000 then 10000000 else sec);
                  tk = (word_of_int sec' * 100 + (word_of_int nsec + 9999999) div 10000000 :: u32)
              in Inr (if tk \<noteq> 0 then tk else 1))"

definition semtimedop_common :: "ipc_env \<Rightarrow> ipc \<Rightarrow> int \<Rightarrow> u32 \<Rightarrow> u32 \<Rightarrow> u32 \<Rightarrow> bool \<Rightarrow> ipc_res" where
  "semtimedop_common E S x uops nops uts is64 =
     (case (if uts \<noteq> 0 then ts_ticks (i_um S) uts is64 else Inr 0) of
        Inl r \<Rightarrow> Some (r, S)
      | Inr ticks \<Rightarrow>
          on_sem S (do_semtimedop (e_sem_ws E) (e_cred E) (e_now E) (i_um S) (i_sem S) x uops nops))"

definition shmat_ret :: "ipc_env \<Rightarrow> ipc \<Rightarrow> int \<Rightarrow> u32 \<Rightarrow> u32 \<Rightarrow> ipc_res" where
  "shmat_ret E S x addr flag =
     (case do_shmat (e_place E) (e_cred E) (e_now E) (i_shm S) x addr flag of
        (Inl r, y) \<Rightarrow> Some (r, S\<lparr>i_shm := y\<rparr>)
      | (Inr base, y) \<Rightarrow> Some (sint base, S\<lparr>i_shm := y\<rparr>))"

definition call_semctl :: "ipc_env \<Rightarrow> ipc \<Rightarrow> int \<Rightarrow> int \<Rightarrow> u32 \<Rightarrow> u32 \<Rightarrow> ipc_res" where
  "call_semctl E S x num cmd arg =
     (let (r, um, s) = do_semctl (e_cred E) (e_now E) (i_um S) (i_sem S) x num cmd arg
      in Some (r, S\<lparr>i_um := um, i_sem := s\<rparr>))"

definition call_msgrcv :: "ipc_env \<Rightarrow> ipc \<Rightarrow> int \<Rightarrow> u32 \<Rightarrow> u32 \<Rightarrow> int \<Rightarrow> u32 \<Rightarrow> ipc_res" where
  "call_msgrcv E S x umsg sz type flag =
     map_option (\<lambda>(r, um, s). (r, S\<lparr>i_um := um, i_msg := s\<rparr>))
       (do_msgrcv (e_msg_ws E) (e_cred E) (e_now E) (i_um S) (i_msg S) x umsg sz type flag)"

definition call_msgctl :: "ipc_env \<Rightarrow> ipc \<Rightarrow> int \<Rightarrow> u32 \<Rightarrow> u32 \<Rightarrow> ipc_res" where
  "call_msgctl E S x cmd ubuf =
     (let (r, um, s) = do_msgctl (e_cred E) (e_now E) (i_um S) (i_msg S) x cmd ubuf
      in Some (r, S\<lparr>i_um := um, i_msg := s\<rparr>))"

definition call_shmctl :: "ipc_env \<Rightarrow> ipc \<Rightarrow> int \<Rightarrow> u32 \<Rightarrow> u32 \<Rightarrow> ipc_res" where
  "call_shmctl E S x cmd ubuf =
     (let (r, um, y) = do_shmctl (e_cred E) (e_now E) (i_um S) (i_shm S) x cmd ubuf
      in Some (r, S\<lparr>i_um := um, i_shm := y\<rparr>))"

abbreviation (input) call_semget :: "ipc_env \<Rightarrow> ipc \<Rightarrow> int \<Rightarrow> int \<Rightarrow> u32 \<Rightarrow> ipc_res" where
  "call_semget E S key n flag \<equiv>
     on_sem S (Some (do_semget (e_mem E) (e_cred E) (e_now E) (i_sem S) key n flag))"

abbreviation (input) call_msgget :: "ipc_env \<Rightarrow> ipc \<Rightarrow> int \<Rightarrow> u32 \<Rightarrow> ipc_res" where
  "call_msgget E S key flag \<equiv> on_msg S (Some (do_msgget (e_cred E) (e_now E) (i_msg S) key flag))"

abbreviation (input) call_msgsnd :: "ipc_env \<Rightarrow> ipc \<Rightarrow> int \<Rightarrow> u32 \<Rightarrow> u32 \<Rightarrow> u32 \<Rightarrow> ipc_res" where
  "call_msgsnd E S x umsg sz flag \<equiv>
     on_msg S (do_msgsnd (e_msg_ws E) (e_mem E) (e_cred E) (e_now E) (i_um S) (i_msg S) x umsg sz flag)"

abbreviation (input) call_shmget :: "ipc_env \<Rightarrow> ipc \<Rightarrow> int \<Rightarrow> u32 \<Rightarrow> u32 \<Rightarrow> ipc_res" where
  "call_shmget E S key sz flag \<equiv>
     on_shm S (do_shmget (e_mem E) (e_cred E) (e_now E) (i_shm S) key sz flag)"

abbreviation (input) call_shmdt :: "ipc_env \<Rightarrow> ipc \<Rightarrow> u32 \<Rightarrow> ipc_res" where
  "call_shmdt E S addr \<equiv> on_shm S (do_shmdt (e_cred E) (e_now E) (i_shm S) addr)"

definition ipc_shmat :: "ipc_env \<Rightarrow> ipc \<Rightarrow> int \<Rightarrow> u32 \<Rightarrow> u32 \<Rightarrow> u32 \<Rightarrow> ipc_res" where
  "ipc_shmat E S x addr flag third =
     (case do_shmat (e_place E) (e_cred E) (e_now E) (i_shm S) x addr flag of
        (Inl r, y) \<Rightarrow> Some (r, S\<lparr>i_shm := y\<rparr>)
      | (Inr base, y) \<Rightarrow>
          (let (r, um) = copy_to_user (i_um S) third (le_enc 4 (uint base))
           in Some (if r < 0 then - EFAULT else 0, S\<lparr>i_shm := y, i_um := um\<rparr>)))"

definition sys_ipc :: "ipc_env \<Rightarrow> ipc_regs \<Rightarrow> ipc \<Rightarrow> ipc_res" where
  "sys_ipc E g S =
     (let call = ebx g; x = sint (ecx g); second = edx g; third = esi g; ptr = edi g; fifth = ebp g;
          version = drop_bit 16 call; op = call AND 0xFFFF
      in if op = 1 then semtimedop_common E S x ptr second 0 False
         else if op = 4 then semtimedop_common E S x ptr second fifth False
         else if op = 2 then call_semget E S x (sint second) third
         else if op = 3 then
           (if ptr = 0 then Some (- EINVAL, S)
            else let (r, bs) = copy_from_user (i_um S) ptr 4
                 in if r < 0 then Some (- EFAULT, S)
                    else call_semctl E S x (sint second) third (le_bytes bs))
         else if op = 11 then call_msgsnd E S x ptr second third
         else if op = 12 then
           (if version = 0 then
              (if ptr = 0 then Some (- EINVAL, S)
               else let (r, kl) = copy_from_user (i_um S) ptr 8
                    in if r < 0 then Some (- EFAULT, S)
                       else call_msgrcv E S x (le_bytes (take 4 kl)) second
                              (sint (le_bytes (drop 4 kl) :: u32)) third)
            else call_msgrcv E S x ptr second (sint fifth) third)
         else if op = 13 then call_msgget E S x second
         else if op = 14 then call_msgctl E S x second ptr
         else if op = 21 then
           (if version = 1 then Some (- EINVAL, S) else ipc_shmat E S x ptr second third)
         else if op = 22 then call_shmdt E S ptr
         else if op = 23 then call_shmget E S x second third
         else if op = 24 then call_shmctl E S x second ptr
         else Some (- ENOSYS, S))"

definition sysv_direct :: "ipc_env \<Rightarrow> ipc_regs \<Rightarrow> int \<Rightarrow> ipc \<Rightarrow> ipc_res" where
  "sysv_direct E g num S =
     (let a = ebx g; b = ecx g; c = edx g; d = esi g; e = edi g
      in if num = 393 then call_semget E S (sint a) (sint b) c
         else if num = 394 then call_semctl E S (sint a) (sint b) c d
         else if num = 395 then call_shmget E S (sint a) b c
         else if num = 396 then call_shmctl E S (sint a) b c
         else if num = 397 then shmat_ret E S (sint a) b c
         else if num = 398 then call_shmdt E S a
         else if num = 399 then call_msgget E S (sint a) b
         else if num = 400 then call_msgsnd E S (sint a) b c d
         else if num = 401 then call_msgrcv E S (sint a) b c (sint d) e
         else if num = 402 then call_msgctl E S (sint a) b c
         else if num = 420 then semtimedop_common E S (sint a) b c d True
         else Some (- ENOSYS, S))"

section \<open>Ticks\<close>

text \<open>A valid timespec becomes the number of 10 ms ticks, rounded up and at least one, of its time
  cut to ten million seconds; nothing wraps.\<close>

lemma ts_ticks_exact:
  assumes "ts_ticks um uts is64 = Inr tk"
  shows "\<exists>sec nsec. 0 \<le> sec \<and> sec \<le> 10000000 \<and> 0 \<le> nsec \<and> nsec < 1000000000 \<and>
    uint tk = max 1 (sec * 100 + (nsec + 9999999) div 10000000)"
proof -
  obtain r t where cp: "copy_from_user um uts (if is64 then 16 else 8) = (r, t)" by fastforce
  define sec where "sec = (if is64 then sint (le_bytes (take 8 t) :: u64) else sint (le_bytes (take 4 t) :: u32))"
  define nsec where "nsec = (if is64 then sint (ucast (le_bytes (drop 8 t) :: u64) :: u32)
      else sint (le_bytes (drop 4 t) :: u32))"
  have "ts_ticks um uts is64 = (if r < 0 then Inl (- EFAULT)
      else if sec < 0 \<or> nsec < 0 \<or> nsec \<ge> 1000000000 then Inl (- EINVAL)
      else Inr (let t = (word_of_int (if sec > 10000000 then 10000000 else sec) * 100 +
              (word_of_int nsec + 9999999) div 10000000 :: u32) in if t \<noteq> 0 then t else 1))"
    unfolding ts_ticks_def cp Let_def prod.case sec_def nsec_def by (rule refl)
  then have *: "0 \<le> sec" "0 \<le> nsec" "nsec < 1000000000"
      "tk = (let t = (word_of_int (if sec > 10000000 then 10000000 else sec) * 100 +
              (word_of_int nsec + 9999999) div 10000000 :: u32) in if t \<noteq> 0 then t else 1)"
    using assms by (simp_all split: if_split_asm)
  define s where "s = (if sec > 10000000 then 10000000 else sec)"
  have s: "0 \<le> s" "s \<le> 10000000" using *(1) by (simp_all add: s_def)
  have n: "uint (word_of_int nsec + 9999999 :: u32) = nsec + 9999999"
    using *(2,3) by (simp add: uint_word_ariths uint_word_of_int)
  let ?t = "word_of_int s * 100 + (word_of_int nsec + 9999999) div 10000000 :: u32"
  have "(nsec + 9999999) div 10000000 \<le> 100" using *(3) by simp
  then have t: "uint ?t = s * 100 + (nsec + 9999999) div 10000000"
    using s *(2) n by (simp add: uint_word_ariths uint_word_of_int uint_div)
  have "uint tk = max 1 (uint ?t)"
  proof (cases "?t = 0")
    case True
    then show ?thesis using *(4) by (simp add: s_def [symmetric])
  next
    case False
    then have "uint ?t \<noteq> 0" by (simp add: uint_0_iff)
    then have "1 \<le> uint ?t" using uint_ge_0 [of ?t] by linarith
    then show ?thesis using *(4) False by (simp add: s_def [symmetric])
  qed
  then show ?thesis using s * t by auto
qed

section \<open>The tables stay consistent\<close>

definition ipc_ok :: "(nat \<Rightarrow> nat) \<Rightarrow> ipc \<Rightarrow> bool" where
  "ipc_ok K S \<longleftrightarrow> msg_inv (i_msg S) \<and> sem_inv (i_sem S) \<and> shm_good K {} (i_shm S)"

text \<open>A process with an address space calls; a range the place search returns is unmapped.  The
  call gets no wakeups: sleeping and waking are steps of their own.\<close>

definition caller_ok :: "ipc_env \<Rightarrow> ipc \<Rightarrow> bool" where
  "caller_ok E S \<longleftrightarrow> c_mm (e_cred E) \<noteq> 0 \<and> c_tgid (e_cred E) \<noteq> 0 \<and> e_msg_ws E = [] \<and> e_sem_ws E = [] \<and>
     (\<forall>n a. place_ok (e_place E) (sm_ptes (snd (i_shm S))) (c_mm (e_cred E)) n a)"

lemma on_msg_ok:
  assumes "ipc_ok K S" "on_msg S x = Some (r, S')" "\<And>r s. x = Some (r, s) \<Longrightarrow> msg_inv s"
  shows "ipc_ok K S'"
  using assms by (auto simp: ipc_ok_def on_msg_def)

lemma on_sem_ok:
  assumes "ipc_ok K S" "on_sem S x = Some (r, S')" "\<And>r s. x = Some (r, s) \<Longrightarrow> sem_inv s"
  shows "ipc_ok K S'"
  using assms by (auto simp: ipc_ok_def on_sem_def)

lemma on_shm_ok:
  assumes "ipc_ok K S" "on_shm S x = Some (r, S')" "\<And>r y. x = (r, y) \<Longrightarrow> shm_good K {} y"
  shows "ipc_ok K S'"
  using assms by (auto simp: ipc_ok_def on_shm_def split: prod.splits)

lemma call_semget_ok:
  assumes "ipc_ok K S" "call_semget E S key n flag = Some (r, S')"
  shows "ipc_ok K S'"
  using on_sem_ok [OF assms] assms(1) do_semget_inv by (auto simp: ipc_ok_def)

lemma call_msgget_ok:
  assumes "ipc_ok K S" "call_msgget E S key flag = Some (r, S')"
  shows "ipc_ok K S'"
  using on_msg_ok [OF assms] assms(1) do_msgget_inv by (auto simp: ipc_ok_def)

lemma call_msgsnd_ok:
  assumes "ipc_ok K S" "caller_ok E S" "call_msgsnd E S x umsg sz flag = Some (r, S')"
  shows "ipc_ok K S'"
proof (rule on_msg_ok [OF assms(1,3)])
  fix r s assume "do_msgsnd (e_msg_ws E) (e_mem E) (e_cred E) (e_now E) (i_um S) (i_msg S) x umsg sz flag = Some (r, s)"
  from do_msgsnd_inv [OF _ this] show "msg_inv s" using assms(1,2) by (simp add: ipc_ok_def caller_ok_def)
qed

lemma call_msgrcv_ok:
  "ipc_ok K S \<Longrightarrow> caller_ok E S \<Longrightarrow> call_msgrcv E S x umsg sz type flag = Some (r, S') \<Longrightarrow> ipc_ok K S'"
  by (auto simp: ipc_ok_def caller_ok_def call_msgrcv_def dest: do_msgrcv_inv)

lemma call_msgctl_ok:
  "ipc_ok K S \<Longrightarrow> call_msgctl E S x cmd ubuf = Some (r, S') \<Longrightarrow> ipc_ok K S'"
  by (auto simp: ipc_ok_def call_msgctl_def split: prod.splits dest: do_msgctl_inv)

lemma call_semctl_ok:
  "ipc_ok K S \<Longrightarrow> call_semctl E S x num cmd arg = Some (r, S') \<Longrightarrow> ipc_ok K S'"
  by (auto simp: ipc_ok_def call_semctl_def split: prod.splits dest: do_semctl_inv)

lemma call_shmctl_ok:
  "ipc_ok K S \<Longrightarrow> call_shmctl E S x cmd ubuf = Some (r, S') \<Longrightarrow> ipc_ok K S'"
  by (cases "i_shm S") (auto simp: ipc_ok_def call_shmctl_def split: prod.splits dest: do_shmctl_good)

lemma call_shmget_ok:
  assumes "ipc_ok K S" "call_shmget E S key sz flag = Some (r, S')"
  shows "ipc_ok K S'"
  using on_shm_ok [OF assms] assms(1) do_shmget_good by (cases "i_shm S") (auto simp: ipc_ok_def)

lemma call_shmdt_ok:
  assumes "ipc_ok K S" "caller_ok E S" "call_shmdt E S addr = Some (r, S')"
  shows "ipc_ok K S'"
  using on_shm_ok [OF assms(1,3)] assms(1,2) do_shmdt_good
  by (cases "i_shm S") (auto simp: ipc_ok_def caller_ok_def)

lemma shmat_result_ok:
  assumes "ipc_ok K S" "caller_ok E S"
    "do_shmat (e_place E) (e_cred E) (e_now E) (i_shm S) x addr flag = (r, y)"
  shows "shm_good K {} y"
  using assms do_shmat_good [of K "fst (i_shm S)" "snd (i_shm S)" "e_place E" "e_cred E" "e_now E" x addr flag r
      "fst y" "snd y"]
  by (simp add: ipc_ok_def caller_ok_def)

lemma shmat_ret_ok:
  "ipc_ok K S \<Longrightarrow> caller_ok E S \<Longrightarrow> shmat_ret E S x addr flag = Some (r, S') \<Longrightarrow> ipc_ok K S'"
  using shmat_result_ok [of K S E x addr flag]
  by (auto simp: shmat_ret_def ipc_ok_def split: prod.splits sum.splits)

lemma ipc_shmat_ok:
  "ipc_ok K S \<Longrightarrow> caller_ok E S \<Longrightarrow> ipc_shmat E S x addr flag third = Some (r, S') \<Longrightarrow> ipc_ok K S'"
  using shmat_result_ok [of K S E x addr flag]
  by (auto simp: ipc_shmat_def ipc_ok_def split: prod.splits sum.splits)

lemma semtimedop_common_ok:
  assumes "ipc_ok K S" "caller_ok E S" "semtimedop_common E S x uops nops uts is64 = Some (r, S')"
  shows "ipc_ok K S'"
proof -
  have "sem_inv s" if "do_semtimedop (e_sem_ws E) (e_cred E) (e_now E) (i_um S) (i_sem S) x uops nops = Some (r, s)" for r s
    using that assms(1,2) sem_step.op sem_step_inv by (fastforce simp: ipc_ok_def caller_ok_def)
  then show ?thesis using assms(1,3) on_sem_ok [OF assms(1)]
    by (auto simp: semtimedop_common_def split: sum.splits if_splits)
qed

lemma same_ok: "ipc_ok K S \<Longrightarrow> Some (x, S) = Some (r, S') \<Longrightarrow> ipc_ok K S'"
  by simp

lemma sysv_direct_ok:
  assumes "ipc_ok K S" "caller_ok E S" "sysv_direct E g num S = Some (r, S')"
  shows "ipc_ok K S'"
  using assms(3) unfolding sysv_direct_def Let_def
  by (elim if_cases) (erule call_semget_ok [OF assms(1)] call_msgget_ok [OF assms(1)]
      call_msgctl_ok [OF assms(1)] call_semctl_ok [OF assms(1)] call_shmctl_ok [OF assms(1)]
      call_shmget_ok [OF assms(1)] same_ok [OF assms(1)] call_msgsnd_ok [OF assms(1,2)]
      call_msgrcv_ok [OF assms(1,2)] call_shmdt_ok [OF assms(1,2)] shmat_ret_ok [OF assms(1,2)]
      semtimedop_common_ok [OF assms(1,2)])+

lemma sys_ipc_ok:
  assumes "ipc_ok K S" "caller_ok E S" "sys_ipc E g S = Some (r, S')"
  shows "ipc_ok K S'"
  using assms(3) unfolding sys_ipc_def Let_def case_prod_unfold
  by (elim if_cases) (erule call_semget_ok [OF assms(1)] call_msgget_ok [OF assms(1)]
      call_msgctl_ok [OF assms(1)] call_semctl_ok [OF assms(1)] call_shmctl_ok [OF assms(1)]
      call_shmget_ok [OF assms(1)] same_ok [OF assms(1)] call_msgsnd_ok [OF assms(1,2)]
      call_msgrcv_ok [OF assms(1,2)] call_shmdt_ok [OF assms(1,2)] ipc_shmat_ok [OF assms(1,2)]
      semtimedop_common_ok [OF assms(1,2)])+

section \<open>Both entry points\<close>

text \<open>The calls that take the same arguments through the multiplexer and directly.\<close>

lemma ipc_entry_points:
  defines "R a b c d e f \<equiv> \<lparr>ebx = a, ecx = b, edx = c, esi = d, edi = e, ebp = f\<rparr>"
  shows "sys_ipc E (R 2 a b c p q) S = sysv_direct E (R a b c d e f) 393 S"
    and "sys_ipc E (R 23 a b c p q) S = sysv_direct E (R a b c d e f) 395 S"
    and "sys_ipc E (R 24 a b p c q) S = sysv_direct E (R a b c d e f) 396 S"
    and "sys_ipc E (R 22 p q t a u) S = sysv_direct E (R a b c d e f) 398 S"
    and "sys_ipc E (R 13 a b p q t) S = sysv_direct E (R a b c d e f) 399 S"
    and "sys_ipc E (R 11 a c d b p) S = sysv_direct E (R a b c d e f) 400 S"
    and "sys_ipc E (R 0x1000C a c e b d) S = sysv_direct E (R a b c d e f) 401 S"
    and "sys_ipc E (R 14 a b p c q) S = sysv_direct E (R a b c d e f) 402 S"
    and "sys_ipc E (R 1 a c p b q) S = sysv_direct E (R a b c 0 e f) 420 S"
  by (simp_all add: R_def sys_ipc_def sysv_direct_def Let_def semtimedop_common_def)

inductive ipc_step :: "ipc \<Rightarrow> ipc \<Rightarrow> bool" where
  multiplexed: "caller_ok E S \<Longrightarrow> sys_ipc E g S = Some (r, S') \<Longrightarrow> ipc_step S S'"
| direct: "caller_ok E S \<Longrightarrow> sysv_direct E g num S = Some (r, S') \<Longrightarrow> ipc_step S S'"
| msg: "msg_step (i_msg S) s \<Longrightarrow> ipc_step S (S\<lparr>i_msg := s\<rparr>)"
| sem: "sem_step (i_sem S) s \<Longrightarrow> ipc_step S (S\<lparr>i_sem := s\<rparr>)"
| release: "sysv_shm_mm_release now mm (i_shm S) = y \<Longrightarrow> ipc_step S (S\<lparr>i_shm := y\<rparr>)"
| user: "ipc_step S (S\<lparr>i_um := um\<rparr>)"

definition ipc_start :: "(nat \<Rightarrow> nat) \<Rightarrow> ipc \<Rightarrow> bool" where
  "ipc_start K S \<longleftrightarrow> i_msg S = msg_boot \<and> i_sem S = sem_boot \<and> fst (i_shm S) = shm_boot \<and>
     shm_led K (i_shm S)"

lemma ipc_step_ok: "ipc_ok K S \<Longrightarrow> ipc_step S S' \<Longrightarrow> ipc_ok K S'"
proof (erule ipc_step.cases)
  fix E Sa g r S'' assume "ipc_ok K S" "S = Sa" "S' = S''" "caller_ok E Sa" "sys_ipc E g Sa = Some (r, S'')"
  then show "ipc_ok K S'" using sys_ipc_ok by blast
next
  fix E Sa g num r S'' assume "ipc_ok K S" "S = Sa" "S' = S''" "caller_ok E Sa" "sysv_direct E g num Sa = Some (r, S'')"
  then show "ipc_ok K S'" using sysv_direct_ok by blast
next
  fix now mm Sa y assume "ipc_ok K S" "S = Sa" "S' = Sa\<lparr>i_shm := y\<rparr>" "sysv_shm_mm_release now mm (i_shm Sa) = y"
  then show "ipc_ok K S'" using sysv_shm_mm_release_good [of K "i_shm S" now mm]
    by (simp add: ipc_ok_def)
qed (auto simp: ipc_ok_def dest: msg_step_inv sem_step_inv)

interpretation ipc_system: transition_invariant "ipc_start K" ipc_step "ipc_ok K" for K
proof
  fix S assume s: "ipc_start K S"
  have "msg_inv msg_boot" using msg_system.inv_init by blast
  moreover have "sem_inv sem_boot" by (rule sem_boot_inv)
  moreover have "shm_inv {} shm_boot" by (rule shm_boot_inv)
  ultimately show "ipc_ok K S" using s by (simp add: ipc_start_def ipc_ok_def shm_good_def)
qed (rule ipc_step_ok)

section \<open>Properties\<close>



end
