(* ===== verification/Shm.thy ===== *)
theory Shm
  imports Ipc_Shm
begin

text \<open>
  The window-buffer shared memory of proc/shm.c: objects with a creator's reservation, attachments by
  address space, and the hooks of fork, exec and exit, which also run the ones of System V shared
  memory (Ipc_Shm). \<open>npages\<close> of an object is the length of its list of frames. The last part
  puts both tables over one physical memory manager.
\<close>

section \<open>State\<close>

abbreviation (input) SHM_MAX_OBJECTS :: nat where "SHM_MAX_OBJECTS \<equiv> 32"
abbreviation (input) SHM_MAX_PAGES :: u32 where "SHM_MAX_PAGES \<equiv> 2048"
abbreviation (input) SHM_MAX_ATTACH :: nat where "SHM_MAX_ATTACH \<equiv> 256"
abbreviation (input) SHM_UID_MAX_PAGES :: u32 where "SHM_UID_MAX_PAGES \<equiv> 10240"

record shm_object =
  o_used :: bool
  o_frames :: "u32 list"
  o_maps :: int
  o_creator :: u32
  o_uid :: u32
  o_gid :: u32
  o_mode :: u32

record shm_attach =
  t_mm :: u32
  t_id :: int
  t_addr :: u32
  t_npages :: nat

record shm_objs =
  objects :: "shm_object list"
  attaches :: "shm_attach list"

definition objs_boot :: shm_objs where
  "objs_boot = \<lparr>objects = replicate SHM_MAX_OBJECTS
       \<lparr>o_used = False, o_frames = [], o_maps = 0, o_creator = 0, o_uid = 0, o_gid = 0, o_mode = 0\<rparr>,
     attaches = replicate SHM_MAX_ATTACH \<lparr>t_mm = 0, t_id = 0, t_addr = 0, t_npages = 0\<rparr>\<rparr>"

definition set_obj :: "nat \<Rightarrow> shm_object \<Rightarrow> shm_objs \<Rightarrow> shm_objs" where
  "set_obj k o' s = s\<lparr>objects := (objects s)[k := o']\<rparr>"

definition set_attach :: "nat \<Rightarrow> shm_attach \<Rightarrow> shm_objs \<Rightarrow> shm_objs" where
  "set_attach i a s = s\<lparr>attaches := (attaches s)[i := a]\<rparr>"

section \<open>Lookups\<close>

definition shm_get :: "shm_objs \<Rightarrow> int \<Rightarrow> nat option" where
  "shm_get s x = (if x < 0 \<or> x \<ge> int SHM_MAX_OBJECTS \<or> \<not> o_used (objects s ! nat x) then None else Some (nat x))"

definition attach_find :: "shm_objs \<Rightarrow> u32 \<Rightarrow> int \<Rightarrow> nat option" where
  "attach_find s mm x = find (\<lambda>i. t_mm (attaches s ! i) = mm \<and> t_id (attaches s ! i) = x) [0..<SHM_MAX_ATTACH]"

definition attach_alloc :: "shm_objs \<Rightarrow> nat option" where
  "attach_alloc s = find (\<lambda>i. t_mm (attaches s ! i) = 0) [0..<SHM_MAX_ATTACH]"

section \<open>Operations\<close>

definition obj_clear :: "shm_object \<Rightarrow> shm_object" where
  "obj_clear o' = o'\<lparr>o_used := False, o_frames := [], o_maps := 0, o_creator := 0\<rparr>"

definition shm_obj_destroy :: "nat \<Rightarrow> shm_objs \<times> shm_mem \<Rightarrow> shm_objs \<times> shm_mem" where
  "shm_obj_destroy k = (\<lambda>(s, m).
     (set_obj k (obj_clear (objects s ! k)) s, m\<lparr>sm_pmm := put_frames (o_frames (objects s ! k)) (sm_pmm m)\<rparr>))"

definition shm_put :: "nat \<Rightarrow> shm_objs \<times> shm_mem \<Rightarrow> shm_objs \<times> shm_mem" where
  "shm_put k = (\<lambda>(s, m).
     (let o' = (objects s ! k)\<lparr>o_maps := o_maps (objects s ! k) - 1\<rparr>; s' = set_obj k o' s
      in if o_maps o' \<le> 0 then shm_obj_destroy k (s', m) else (s', m)))"

definition shm_held :: "shm_objs \<Rightarrow> u32 \<Rightarrow> u32" where
  "shm_held s uid =
     sum_list (map (\<lambda>i. of_nat (length (o_frames (objects s ! i))))
       (filter (\<lambda>i. o_used (objects s ! i) \<and> o_uid (objects s ! i) = uid) [0..<SHM_MAX_OBJECTS]))"

definition shm_sys_create :: "cred \<Rightarrow> shm_objs \<times> shm_mem \<Rightarrow> u32 \<Rightarrow> int \<times> shm_objs \<times> shm_mem" where
  "shm_sys_create c = (\<lambda>(s, m) npages.
     (if npages < 1 \<or> npages > SHM_MAX_PAGES then (- EINVAL, s, m)
      else if c_euid c \<noteq> 0 \<and> shm_held s (c_euid c) + npages > SHM_UID_MAX_PAGES then (- ENOSPC, s, m)
      else
        case find (\<lambda>i. \<not> o_used (objects s ! i)) [0..<SHM_MAX_OBJECTS] of
          None \<Rightarrow> (- ENOSPC, s, m)
        | Some k \<Rightarrow>
            case get_frames (unat npages) [] (sm_pmm m) of
              (None, pm) \<Rightarrow> (- ENOMEM, set_obj k (obj_clear (objects s ! k)) s, m\<lparr>sm_pmm := pm\<rparr>)
            | (Some frames, pm) \<Rightarrow>
                (int k, set_obj k \<lparr>o_used = True, o_frames = frames, o_maps = 1, o_creator = c_mm c, o_uid = c_euid c,
                          o_gid = c_egid c, o_mode = 0x180\<rparr> s, m\<lparr>sm_pmm := pm\<rparr>)))"

definition shm_in_group :: "cred \<Rightarrow> u32 \<Rightarrow> bool" where
  "shm_in_group c g = (g = c_egid c \<or> list_ex (\<lambda>x. x = g) (take (c_ngroups c) (c_groups c)))"

definition class_bits :: "cred \<Rightarrow> shm_object \<Rightarrow> u32" where
  "class_bits c o' =
     (if c_euid c = o_uid o' then drop_bit 6 (o_mode o')
      else if shm_in_group c (o_gid o') then drop_bit 3 (o_mode o') else o_mode o')"

definition shm_may_map :: "cred \<Rightarrow> shm_object \<Rightarrow> bool" where
  "shm_may_map c o' = (c_euid c = 0 \<or> class_bits c o' AND 6 = 6)"

definition attach_drop :: "nat \<Rightarrow> nat \<Rightarrow> shm_objs \<times> shm_mem \<Rightarrow> shm_objs \<times> shm_mem" where
  "attach_drop i k = (\<lambda>(s, m). shm_put k (set_attach i ((attaches s ! i)\<lparr>t_mm := 0, t_id := - 1\<rparr>) s, m))"

text \<open>The part of a map after a stale record has been forgotten: \<open>k\<close> is the object.\<close>

definition map_object :: "place \<Rightarrow> cred \<Rightarrow> shm_objs \<times> shm_mem \<Rightarrow> nat \<Rightarrow> int \<times> shm_objs \<times> shm_mem" where
  "map_object pl c = (\<lambda>(s, m) k.
     (case attach_alloc s of None \<Rightarrow> (- ENOMEM, s, m)
      | Some i \<Rightarrow>
          let o' = objects s ! k; (base, m') = mm_shm_attach_at pl (c_mm c) (o_frames o') 0 m in
          if base = 0 then (- ENOMEM, s, m')
          else (sint base,
                set_obj k (if o_creator o' = c_mm c then o'\<lparr>o_creator := 0\<rparr> else o'\<lparr>o_maps := o_maps o' + 1\<rparr>)
                  (set_attach i \<lparr>t_mm = c_mm c, t_id = int k, t_addr = base, t_npages = length (o_frames o')\<rparr> s),
                m')))"

definition shm_sys_map :: "place \<Rightarrow> cred \<Rightarrow> shm_objs \<times> shm_mem \<Rightarrow> int \<Rightarrow> int \<times> shm_objs \<times> shm_mem" where
  "shm_sys_map pl c = (\<lambda>(s, m) x.
     (case shm_get s x of None \<Rightarrow> (- EINVAL, s, m)
      | Some k \<Rightarrow>
          if c_mm c = 0 then (- EINVAL, s, m)
          else if \<not> shm_may_map c (objects s ! k) then (- EACCES, s, m)
          else
            case attach_find s (c_mm c) x of
              None \<Rightarrow> map_object pl c (s, m) k
            | Some i \<Rightarrow>
                let a = attaches s ! i in
                if mm_shm_mapped (sm_ptes m) (c_mm c) (t_addr a) (o_frames (objects s ! k)) (t_npages a) \<noteq> 0 then (- EEXIST, s, m)
                else
                  let (s', m') = attach_drop i k (s, m) in
                  case shm_get s' x of None \<Rightarrow> (- EINVAL, s', m') | Some k' \<Rightarrow> map_object pl c (s', m') k'))"

definition shm_sys_unmap :: "cred \<Rightarrow> shm_objs \<times> shm_mem \<Rightarrow> int \<Rightarrow> int \<times> shm_objs \<times> shm_mem" where
  "shm_sys_unmap c = (\<lambda>(s, m) x.
     (case shm_get s x of None \<Rightarrow> (- EINVAL, s, m)
      | Some k \<Rightarrow>
          if c_mm c = 0 then (- EINVAL, s, m)
          else
            let o' = objects s ! k in
            case attach_find s (c_mm c) x of
              None \<Rightarrow>
                if o_creator o' = c_mm c then (0, shm_put k (set_obj k (o'\<lparr>o_creator := 0\<rparr>) s, m)) else (- EINVAL, s, m)
            | Some i \<Rightarrow>
                let a = attaches s ! i in
                (0, attach_drop i k (s, mm_shm_detach (c_mm c) (t_addr a) (o_frames o') (t_npages a) m))))"

definition shm_sys_chmod :: "cred \<Rightarrow> shm_objs \<Rightarrow> int \<Rightarrow> u32 \<Rightarrow> int \<times> shm_objs" where
  "shm_sys_chmod c s x mode =
     (case shm_get s x of None \<Rightarrow> (- EINVAL, s)
      | Some k \<Rightarrow>
          if c_euid c \<noteq> 0 \<and> c_euid c \<noteq> o_uid (objects s ! k) then (- EPERM, s)
          else (0, set_obj k ((objects s ! k)\<lparr>o_mode := mode AND 0x1B6\<rparr>) s))"

definition shm_sys_size :: "cred \<Rightarrow> shm_objs \<Rightarrow> int \<Rightarrow> int" where
  "shm_sys_size c s x =
     (case shm_get s x of None \<Rightarrow> - EINVAL
      | Some k \<Rightarrow>
          if c_euid c \<noteq> 0 \<and> attach_find s (c_mm c) x = None \<and> class_bits c (objects s ! k) AND 4 = 0 then - EACCES
          else int (length (o_frames (objects s ! k)) * 4096))"

section \<open>The life of an address space\<close>

text \<open>Both kinds of shared memory.\<close>

record shm_sys =
  sy_objs :: shm_objs
  sy_sysv :: shm_state
  sy_mem :: shm_mem

text \<open>The loop stops when the table is full.\<close>

fun fork_attaches :: "u32 \<Rightarrow> u32 \<Rightarrow> nat list \<Rightarrow> shm_objs \<Rightarrow> shm_objs" where
  "fork_attaches pm cm [] s = s"
| "fork_attaches pm cm (i # is) s =
     (let a = attaches s ! i in
      if t_mm a \<noteq> pm then fork_attaches pm cm is s
      else
        case shm_get s (t_id a) of None \<Rightarrow> fork_attaches pm cm is s
        | Some k \<Rightarrow>
            case attach_alloc s of None \<Rightarrow> s
            | Some j \<Rightarrow>
                fork_attaches pm cm is
                  (set_obj k ((objects s ! k)\<lparr>o_maps := o_maps (objects s ! k) + 1\<rparr>) (set_attach j (a\<lparr>t_mm := cm\<rparr>) s)))"

definition shm_proc_fork :: "u32 \<Rightarrow> u32 \<Rightarrow> shm_sys \<Rightarrow> shm_sys" where
  "shm_proc_fork pm cm s =
     (if pm = 0 \<or> cm = 0 \<or> pm = cm then s
      else s\<lparr>sy_sysv := sysv_shm_fork pm cm (sy_sysv s), sy_objs := fork_attaches pm cm [0..<SHM_MAX_ATTACH] (sy_objs s)\<rparr>)"

definition release_attach :: "u32 \<Rightarrow> nat \<Rightarrow> shm_objs \<times> shm_mem \<Rightarrow> shm_objs \<times> shm_mem" where
  "release_attach mm i = (\<lambda>(s, m).
     (let a = attaches s ! i in
      if t_mm a \<noteq> mm then (s, m)
      else
        let s' = set_attach i (a\<lparr>t_mm := 0, t_id := - 1\<rparr>) s in
        case shm_get s (t_id a) of None \<Rightarrow> (s', m) | Some k \<Rightarrow> shm_put k (s', m)))"

definition release_creator :: "u32 \<Rightarrow> nat \<Rightarrow> shm_objs \<times> shm_mem \<Rightarrow> shm_objs \<times> shm_mem" where
  "release_creator mm k = (\<lambda>(s, m).
     (if o_used (objects s ! k) \<and> o_creator (objects s ! k) = mm
      then shm_put k (set_obj k ((objects s ! k)\<lparr>o_creator := 0\<rparr>) s, m) else (s, m)))"

definition shm_mm_release :: "u32 \<Rightarrow> u32 \<Rightarrow> shm_sys \<Rightarrow> shm_sys" where
  "shm_mm_release now mm s =
     (if mm = 0 then s
      else
        let (v, m) = sysv_shm_mm_release now mm (sy_sysv s, sy_mem s);
            (b, m) = fold (release_attach mm) [0..<SHM_MAX_ATTACH] (sy_objs s, m);
            (b, m) = fold (release_creator mm) [0..<SHM_MAX_OBJECTS] (b, m)
        in \<lparr>sy_objs = b, sy_sysv = v, sy_mem = m\<rparr>)"

text \<open>\<open>others\<close>: the other slots of the process table, each with its page directory and whether it is alive.\<close>

definition shm_proc_exit :: "(u32 \<times> bool) list \<Rightarrow> u32 \<Rightarrow> u32 \<Rightarrow> shm_sys \<Rightarrow> shm_sys" where
  "shm_proc_exit others now mm s =
     (if mm = 0 then s
      else if list_ex (\<lambda>(q, alive). q = mm \<and> alive) others then s
      else shm_mm_release now mm s)"

section \<open>The invariant of the objects\<close>

definition t_count :: "shm_attach list \<Rightarrow> nat \<Rightarrow> nat" where
  "t_count as k = length (filter (\<lambda>a. t_mm a \<noteq> 0 \<and> t_id a = int k) as)"

definition obj_pages :: "u32 \<Rightarrow> shm_object list \<Rightarrow> nat" where
  "obj_pages uid bs = sum_list (map (\<lambda>b. if o_used b \<and> o_uid b = uid then length (o_frames b) else 0) bs)"

definition obj_cnt :: "shm_object list \<Rightarrow> nat \<Rightarrow> nat" where
  "obj_cnt bs i = sum_list (map (\<lambda>b. if o_used b then cnt (o_frames b) i else 0) bs)"

text \<open>An object counts its attachments and the reservation of its creator.\<close>

definition obj_ok :: "shm_attach list \<Rightarrow> nat \<Rightarrow> shm_object \<Rightarrow> bool" where
  "obj_ok as k b \<longleftrightarrow> (o_used b \<longrightarrow> length (o_frames b) \<le> 2048 \<and> 0 \<notin> set (o_frames b) \<and>
     o_maps b = int (t_count as k) + (if o_creator b \<noteq> 0 then 1 else 0))"

definition attach_ok :: "shm_object list \<Rightarrow> shm_attach \<Rightarrow> bool" where
  "attach_ok bs a \<longleftrightarrow> (t_mm a \<noteq> 0 \<longrightarrow> 0 \<le> t_id a \<and> t_id a < int SHM_MAX_OBJECTS \<and> o_used (bs ! nat (t_id a)) \<and>
     t_npages a = length (o_frames (bs ! nat (t_id a))))"

definition objs_inv :: "nat set \<Rightarrow> shm_objs \<Rightarrow> bool" where
  "objs_inv X s \<longleftrightarrow> length (objects s) = SHM_MAX_OBJECTS \<and> length (attaches s) = SHM_MAX_ATTACH \<and>
     (\<forall>k<SHM_MAX_OBJECTS. obj_ok (attaches s) k (objects s ! k)) \<and> (\<forall>i<SHM_MAX_ATTACH. attach_ok (objects s) (attaches s ! i)) \<and>
     (\<forall>k<SHM_MAX_OBJECTS. k \<notin> X \<longrightarrow> o_used (objects s ! k) \<longrightarrow> 0 < o_maps (objects s ! k)) \<and>
     (\<forall>uid. uid \<noteq> 0 \<longrightarrow> obj_pages uid (objects s) \<le> 10240)"

definition obj_good :: "(nat \<Rightarrow> nat) \<Rightarrow> nat set \<Rightarrow> shm_objs \<times> shm_mem \<Rightarrow> bool" where
  "obj_good K X = (\<lambda>(s, m). objs_inv X s \<and> frames_led (sm_pmm m) (\<lambda>i. obj_cnt (objects s) i + (pte_cnt (sm_ptes m) i + K i)))"

lemma obj_pages_upd:
  "k < length bs \<Longrightarrow> obj_pages uid (bs[k := b]) + (if o_used (bs ! k) \<and> o_uid (bs ! k) = uid then length (o_frames (bs ! k)) else 0) =
   obj_pages uid bs + (if o_used b \<and> o_uid b = uid then length (o_frames b) else 0)"
  using sum_list_upd [of k bs "\<lambda>b. if o_used b \<and> o_uid b = uid then length (o_frames b) else 0" b] by (simp only: obj_pages_def)

lemma obj_cnt_upd:
  "k < length bs \<Longrightarrow> obj_cnt (bs[k := b]) i + (if o_used (bs ! k) then cnt (o_frames (bs ! k)) i else 0) =
   obj_cnt bs i + (if o_used b then cnt (o_frames b) i else 0)"
  using sum_list_upd [of k bs "\<lambda>b. if o_used b then cnt (o_frames b) i else 0" b] by (simp only: obj_cnt_def)

lemma obj_cnt_pos: "k < length bs \<Longrightarrow> o_used (bs ! k) \<Longrightarrow> f \<in> set (o_frames (bs ! k)) \<Longrightarrow> 0 < obj_cnt bs (fidx f)"
  using obj_cnt_upd [of k bs "obj_clear (bs ! k)" "fidx f"] cnt_pos [of f "o_frames (bs ! k)"] by (simp add: obj_clear_def)

lemma t_count_upd:
  "j < length as \<Longrightarrow> t_count (as[j := a]) k + (if t_mm (as ! j) \<noteq> 0 \<and> t_id (as ! j) = int k then 1 else 0) =
   t_count as k + (if t_mm a \<noteq> 0 \<and> t_id a = int k then 1 else 0)"
  using length_filter_upd [of j as "\<lambda>a. t_mm a \<noteq> 0 \<and> t_id a = int k" a] by (simp only: t_count_def)

definition same_obj :: "shm_object \<Rightarrow> shm_object \<Rightarrow> bool" where
  "same_obj b b' \<longleftrightarrow> o_used b' = o_used b \<and> o_frames b' = o_frames b \<and> o_uid b' = o_uid b"

lemma same_obj_sums:
  assumes "k < length bs" "same_obj (bs ! k) b"
  shows "obj_pages uid (bs[k := b]) = obj_pages uid bs" and "obj_cnt (bs[k := b]) = obj_cnt bs"
proof -
  show "obj_pages uid (bs[k := b]) = obj_pages uid bs" using obj_pages_upd [OF assms(1), of uid b] assms(2) by (simp add: same_obj_def split: if_splits)
  show "obj_cnt (bs[k := b]) = obj_cnt bs"
  proof
    fix i show "obj_cnt (bs[k := b]) i = obj_cnt bs i" using obj_cnt_upd [OF assms(1), of b i] assms(2) by (simp add: same_obj_def split: if_splits)
  qed
qed

text \<open>Attachment \<open>j\<close> becomes \<open>a\<close> and object \<open>k\<close>, whose count changes, becomes \<open>b\<close>.\<close>

lemma objs_inv_upd:
  assumes "objs_inv X s" "k < SHM_MAX_OBJECTS" "same_obj (objects s ! k) b" "j < SHM_MAX_ATTACH" "attach_ok (objects s) a"
    and "\<And>l. l \<noteq> k \<Longrightarrow> t_count ((attaches s)[j := a]) l = t_count (attaches s) l"
    and "o_used b \<Longrightarrow> o_maps b = int (t_count ((attaches s)[j := a]) k) + (if o_creator b \<noteq> 0 then 1 else 0)"
    and "X - {k} \<subseteq> Y" "k \<in> Y \<or> (o_used b \<longrightarrow> 0 < o_maps b)"
  shows "objs_inv Y (set_obj k b (set_attach j a s)) \<and> obj_cnt (objects (set_obj k b (set_attach j a s))) = obj_cnt (objects s)"
proof -
  have len: "length (objects s) = SHM_MAX_OBJECTS" "length (attaches s) = SHM_MAX_ATTACH" using assms(1) by (auto simp: objs_inv_def)
  note sums = same_obj_sums [of k "objects s" b, unfolded len, OF assms(2,3)]
  have "obj_ok ((attaches s)[j := a]) l ((objects s)[k := b] ! l)" if "l < SHM_MAX_OBJECTS" for l
  proof (cases "l = k")
    case True
    then show ?thesis using assms(1,2,3,7) len by (auto simp: objs_inv_def obj_ok_def same_obj_def)
  next
    case False
    then show ?thesis using assms(1,6) that by (auto simp: objs_inv_def obj_ok_def)
  qed
  moreover have "attach_ok ((objects s)[k := b]) x = attach_ok (objects s) x" for x
    using assms(2,3) len by (cases "nat (t_id x) = k") (auto simp: attach_ok_def same_obj_def)
  then have "attach_ok ((objects s)[k := b]) ((attaches s)[j := a] ! i)" if "i < SHM_MAX_ATTACH" for i
    using assms(1,5) len that by (cases "i = j") (auto simp: objs_inv_def)
  moreover have "0 < o_maps ((objects s)[k := b] ! l)" if "l < SHM_MAX_OBJECTS" "l \<notin> Y" "o_used ((objects s)[k := b] ! l)" for l
  proof (cases "l = k")
    case True
    then show ?thesis using that assms(2,9) len by auto
  next
    case False
    then have "l \<notin> X" using that(2) assms(8) by auto
    then show ?thesis using that False assms(1) by (auto simp: objs_inv_def)
  qed
  ultimately show ?thesis using assms(1) len sums by (simp add: objs_inv_def set_obj_def set_attach_def)
qed

lemma t_count_0: "t_count as k = 0 \<Longrightarrow> i < length as \<Longrightarrow> t_mm (as ! i) \<noteq> 0 \<Longrightarrow> t_id (as ! i) \<noteq> int k"
  by (auto simp: t_count_def filter_empty_conv)

lemma t_count_unused:
  assumes "objs_inv X s" "\<not> o_used (objects s ! k)"
  shows "t_count (attaches s) k = 0"
proof -
  have "attach_ok (objects s) a" if "a \<in> set (attaches s)" for a using assms(1) that by (auto simp: objs_inv_def in_set_conv_nth)
  then have "\<not> (t_mm a \<noteq> 0 \<and> t_id a = int k)" if "a \<in> set (attaches s)" for a using that assms(2) unfolding attach_ok_def by (metis nat_int)
  then have "filter (\<lambda>a. t_mm a \<noteq> 0 \<and> t_id a = int k) (attaches s) = []" by (simp add: filter_empty_conv)
  then show ?thesis by (simp add: t_count_def)
qed

lemma objs_inv_replace:
  assumes "objs_inv X s" "k < SHM_MAX_OBJECTS" "t_count (attaches s) k = 0" "o_used b \<Longrightarrow> obj_ok (attaches s) k b"
    and "X - {k} \<subseteq> Y" "k \<in> Y \<or> (o_used b \<longrightarrow> 0 < o_maps b)" "\<And>uid. uid \<noteq> 0 \<Longrightarrow> obj_pages uid ((objects s)[k := b]) \<le> 10240"
  shows "objs_inv Y (set_obj k b s)"
proof -
  have len: "length (objects s) = SHM_MAX_OBJECTS" "length (attaches s) = SHM_MAX_ATTACH" using assms(1) by (auto simp: objs_inv_def)
  have "obj_ok (attaches s) l ((objects s)[k := b] ! l)" if "l < SHM_MAX_OBJECTS" for l
    using assms(1,4) len that by (cases "l = k") (auto simp: objs_inv_def obj_ok_def)
  moreover have "attach_ok ((objects s)[k := b]) (attaches s ! i)" if "i < SHM_MAX_ATTACH" for i
  proof (cases "t_mm (attaches s ! i) = 0")
    case False
    then have "nat (t_id (attaches s ! i)) \<noteq> k" using t_count_0 [OF assms(3), of i] assms(1) that len by (auto simp: objs_inv_def attach_ok_def)
    then show ?thesis using assms(1) that by (simp add: objs_inv_def attach_ok_def)
  qed (simp add: attach_ok_def)
  moreover have "0 < o_maps ((objects s)[k := b] ! l)" if "l < SHM_MAX_OBJECTS" "l \<notin> Y" "o_used ((objects s)[k := b] ! l)" for l
    using that assms(1,2,5,6) len by (cases "l = k") (auto simp: objs_inv_def)
  ultimately show ?thesis using assms(7) len by (simp add: objs_inv_def set_obj_def)
qed

subsection \<open>Operations\<close>

lemma obj_led_keep: "obj_good K X (s, m) \<Longrightarrow> objs_inv Y t \<Longrightarrow> obj_cnt (objects t) = obj_cnt (objects s) \<Longrightarrow> obj_good K Y (t, m)"
  by (simp add: obj_good_def)

lemma obj_destroy_good:
  assumes "obj_good K {k} (s, m)" "k < SHM_MAX_OBJECTS" "o_used (objects s ! k)" "o_maps (objects s ! k) \<le> 0"
  shows "obj_good K {} (shm_obj_destroy k (s, m))"
proof -
  have inv: "objs_inv {k} s" and led: "frames_led (sm_pmm m) (\<lambda>i. obj_cnt (objects s) i + (pte_cnt (sm_ptes m) i + K i))" using assms(1) by (simp_all add: obj_good_def)
  let ?b = "objects s ! k"
  have len: "length (objects s) = SHM_MAX_OBJECTS" using inv by (simp add: objs_inv_def)
  have "obj_ok (attaches s) k ?b" using inv assms(2) by (simp add: objs_inv_def)
  then have nz: "t_count (attaches s) k = 0" using assms(3,4) by (auto simp: obj_ok_def split: if_splits)
  have le: "obj_pages uid ((objects s)[k := obj_clear ?b]) \<le> obj_pages uid (objects s)" for uid
    using obj_pages_upd [of k "objects s" uid "obj_clear ?b"] assms(2) len by (simp add: obj_clear_def)
  have "obj_pages uid ((objects s)[k := obj_clear ?b]) \<le> 10240" if "uid \<noteq> 0" for uid
    by (rule le_trans [OF le]) (use inv that in \<open>simp add: objs_inv_def\<close>)
  then have "objs_inv {} (set_obj k (obj_clear ?b) s)"
    by (intro objs_inv_replace [OF inv assms(2) nz]) (simp_all add: obj_clear_def)
  moreover have "obj_cnt (objects s) i = cnt (o_frames ?b) i + obj_cnt ((objects s)[k := obj_clear ?b]) i" for i
    using obj_cnt_upd [of k "objects s" "obj_clear ?b" i] assms(2,3) len by (simp add: obj_clear_def)
  then have "frames_led (sm_pmm m) (\<lambda>i. cnt (o_frames ?b) i + (obj_cnt ((objects s)[k := obj_clear ?b]) i + (pte_cnt (sm_ptes m) i + K i)))"
    using led by (simp add: add.assoc)
  note led_put [OF this]
  ultimately show ?thesis by (simp add: obj_good_def shm_obj_destroy_def set_obj_def)
qed

lemma shm_put_good:
  assumes "obj_good K {k} (set_obj k ((objects s ! k)\<lparr>o_maps := o_maps (objects s ! k) - 1\<rparr>) s, m)" "k < SHM_MAX_OBJECTS" "o_used (objects s ! k)"
    "length (objects s) = SHM_MAX_OBJECTS"
  shows "obj_good K {} (shm_put k (s, m))"
proof -
  let ?s = "set_obj k ((objects s ! k)\<lparr>o_maps := o_maps (objects s ! k) - 1\<rparr>) s"
  have b: "objects ?s ! k = (objects s ! k)\<lparr>o_maps := o_maps (objects s ! k) - 1\<rparr>" using assms(2,4) by (simp add: set_obj_def)
  show ?thesis
  proof (cases "o_maps (objects s ! k) - 1 \<le> 0")
    case True
    then show ?thesis using obj_destroy_good [OF assms(1,2)] assms(3) by (simp add: b shm_put_def Let_def)
  next
    case False
    then show ?thesis using assms(1) by (auto simp: obj_good_def objs_inv_def shm_put_def Let_def b)
  qed
qed

text \<open>Dropping an attachment, and dropping the creator's reservation.\<close>

lemma drop_attach_good:
  assumes "obj_good K {} (s, m)" "i < SHM_MAX_ATTACH" "t_mm (attaches s ! i) \<noteq> 0" "t_id (attaches s ! i) = int k"
  shows "obj_good K {} (shm_put k (set_attach i ((attaches s ! i)\<lparr>t_mm := 0, t_id := - 1\<rparr>) s, m))"
proof -
  let ?a = "(attaches s ! i)\<lparr>t_mm := 0, t_id := - 1\<rparr>" let ?b = "objects s ! k"
  have inv: "objs_inv {} s" using assms(1) by (simp add: obj_good_def)
  have len: "length (objects s) = SHM_MAX_OBJECTS" "length (attaches s) = SHM_MAX_ATTACH" using inv by (auto simp: objs_inv_def)
  have "attach_ok (objects s) (attaches s ! i)" using inv assms(2) by (simp add: objs_inv_def)
  then have k: "k < SHM_MAX_OBJECTS" "o_used ?b" using assms(3,4) by (auto simp: attach_ok_def)
  have maps: "o_maps ?b = int (t_count (attaches s) k) + (if o_creator ?b \<noteq> 0 then 1 else 0)" using inv k by (simp add: objs_inv_def obj_ok_def)
  have c: "t_count ((attaches s)[i := ?a]) l + (if k = l then 1 else 0) = t_count (attaches s) l" for l
    using t_count_upd [of i "attaches s" ?a l] len assms(2-4) by simp
  let ?s = "set_attach i ?a s"
  have "objs_inv {k} (set_obj k (?b\<lparr>o_maps := o_maps ?b - 1\<rparr>) ?s) \<and> obj_cnt (objects (set_obj k (?b\<lparr>o_maps := o_maps ?b - 1\<rparr>) ?s)) = obj_cnt (objects s)"
  proof (rule objs_inv_upd [OF inv k(1) _ assms(2)])
    show "t_count ((attaches s)[i := ?a]) l = t_count (attaches s) l" if "l \<noteq> k" for l using c [of l] that by simp
    show "o_maps (?b\<lparr>o_maps := o_maps ?b - 1\<rparr>) = int (t_count ((attaches s)[i := ?a]) k) + (if o_creator (?b\<lparr>o_maps := o_maps ?b - 1\<rparr>) \<noteq> 0 then 1 else 0)"
      using c [of k] maps by simp
  qed (auto simp: same_obj_def attach_ok_def)
  moreover have "objects ?s = objects s" by (simp add: set_attach_def)
  ultimately show ?thesis using obj_led_keep [OF assms(1)] k len by (intro shm_put_good) auto
qed

lemma drop_creator_good:
  assumes "obj_good K {} (s, m)" "k < SHM_MAX_OBJECTS" "o_used (objects s ! k)" "o_creator (objects s ! k) \<noteq> 0"
  shows "obj_good K {} (shm_put k (set_obj k ((objects s ! k)\<lparr>o_creator := 0\<rparr>) s, m))"
proof -
  let ?b = "objects s ! k" let ?s = "set_obj k (?b\<lparr>o_creator := 0\<rparr>) s" let ?b' = "?b\<lparr>o_creator := 0, o_maps := o_maps ?b - 1\<rparr>"
  have inv: "objs_inv {} s" using assms(1) by (simp add: obj_good_def)
  have len: "length (objects s) = SHM_MAX_OBJECTS" "length (attaches s) = SHM_MAX_ATTACH" using inv by (auto simp: objs_inv_def)
  have "objs_inv {k} (set_obj k ?b' (set_attach 0 (attaches s ! 0) s)) \<and> obj_cnt (objects (set_obj k ?b' (set_attach 0 (attaches s ! 0) s))) = obj_cnt (objects s)"
    using inv assms(2-4) by (intro objs_inv_upd [OF inv assms(2)]) (auto simp: same_obj_def objs_inv_def obj_ok_def)
  then have g: "obj_good K {k} (set_obj k ?b' s, m)" using obj_led_keep [OF assms(1)] by (simp add: set_attach_def)
  have e: "objects ?s ! k = ?b\<lparr>o_creator := 0\<rparr>" "set_obj k ((objects ?s ! k)\<lparr>o_maps := o_maps (objects ?s ! k) - 1\<rparr>) ?s = set_obj k ?b' s"
    using assms(2) len by (simp_all add: set_obj_def)
  show ?thesis using g e assms(3) len by (intro shm_put_good assms(2)) (simp_all add: set_obj_def)
qed

lemma shm_get_Some: "shm_get s x = Some k \<Longrightarrow> k < SHM_MAX_OBJECTS \<and> o_used (objects s ! k) \<and> x = int k"
  by (auto simp: shm_get_def split: if_splits)

lemma map_object_good:
  assumes "obj_good K {} (s, m)" "k < SHM_MAX_OBJECTS" "o_used (objects s ! k)" "map_object pl c (s, m) k = (r, s', m')" "c_mm c \<noteq> 0"
    and pl: "\<And>n addr. place_ok pl (sm_ptes m) (c_mm c) n addr"
  shows "obj_good K {} (s', m')"
proof (cases "attach_alloc s")
  case None
  then show ?thesis using assms(1,4) by (simp add: map_object_def)
next
  case (Some i)
  let ?b = "objects s ! k" let ?fs = "o_frames ?b"
  obtain base m1 where at: "mm_shm_attach_at pl (c_mm c) ?fs 0 m = (base, m1)" by fastforce
  have inv: "objs_inv {} s" and led: "frames_led (sm_pmm m) (\<lambda>i. obj_cnt (objects s) i + (pte_cnt (sm_ptes m) i + K i))" using assms(1) by (simp_all add: obj_good_def)
  have len: "length (objects s) = SHM_MAX_OBJECTS" "length (attaches s) = SHM_MAX_ATTACH" using inv by (auto simp: objs_inv_def)
  have b: "length ?fs \<le> MM_SHM_MAX_PAGES" "o_maps ?b = int (t_count (attaches s) k) + (if o_creator ?b \<noteq> 0 then 1 else 0)" "0 < o_maps ?b"
    using inv assms(2,3) by (auto simp: objs_inv_def obj_ok_def)
  have i: "i < SHM_MAX_ATTACH" "t_mm (attaches s ! i) = 0" using Some find_upt0_Some by (auto simp: attach_alloc_def)
  have "0 < obj_cnt (objects s) (fidx f)" if "f \<in> set ?fs" for f using obj_cnt_pos assms(2,3) len that by simp
  then have L: "frames_led (sm_pmm m1) (\<lambda>i. pte_cnt (sm_ptes m1) i + (obj_cnt (objects s) i + K i)) \<and> (base = 0 \<longrightarrow> m1 = m)"
    using led_attach [OF _ at b(1) _ pl, of "\<lambda>i. obj_cnt (objects s) i + K i"] led by (simp add: add.left_commute)
  then have l: "obj_good K {} (s, m1)" using inv by (simp add: obj_good_def add.left_commute)
  show ?thesis
  proof (cases "base = 0")
    case True
    then show ?thesis using assms(1,4) Some at L by (simp add: map_object_def Let_def)
  next
    case False
    let ?a = "\<lparr>t_mm = c_mm c, t_id = int k, t_addr = base, t_npages = length ?fs\<rparr>"
    let ?b' = "if o_creator ?b = c_mm c then ?b\<lparr>o_creator := 0\<rparr> else ?b\<lparr>o_maps := o_maps ?b + 1\<rparr>"
    have c: "t_count ((attaches s)[i := ?a]) l = t_count (attaches s) l + (if k = l then 1 else 0)" for l
      using t_count_upd [of i "attaches s" ?a l] len i assms(5) by simp
    have "objs_inv {} (set_obj k ?b' (set_attach i ?a s)) \<and> obj_cnt (objects (set_obj k ?b' (set_attach i ?a s))) = obj_cnt (objects s)"
    proof (rule objs_inv_upd [OF inv assms(2) _ i(1)])
      show "same_obj ?b ?b'" by (simp add: same_obj_def)
      show "attach_ok (objects s) ?a" using assms(2,3) by (simp add: attach_ok_def)
      show "t_count ((attaches s)[i := ?a]) l = t_count (attaches s) l" if "l \<noteq> k" for l using c that by simp
      show "o_maps ?b' = int (t_count ((attaches s)[i := ?a]) k) + (if o_creator ?b' \<noteq> 0 then 1 else 0)" using c [of k] b(2) assms(5) by auto
      show "k \<in> {} \<or> (o_used ?b' \<longrightarrow> 0 < o_maps ?b')" using b(3) by simp
    qed simp
    moreover have "s' = set_obj k ?b' (set_attach i ?a s)" "m' = m1" using assms(4) Some at False by (simp_all add: map_object_def Let_def)
    ultimately show ?thesis using obj_led_keep [OF l] by simp
  qed
qed

lemma obj_count_keep: "obj_good K X (s, m) \<Longrightarrow> frames_led (sm_pmm m') (\<lambda>i. obj_cnt (objects s) i + (pte_cnt (sm_ptes m') i + K i)) \<Longrightarrow> obj_good K X (s, m')"
  by (simp add: obj_good_def)

lemma obj_detach_good: "obj_good K X (s, m) \<Longrightarrow> obj_good K X (s, mm_shm_detach mm base frames n m)"
  using led_detach [of m "\<lambda>i. obj_cnt (objects s) i + K i"] by (simp add: obj_good_def add.left_commute)

lemma attach_find_Some: "attach_find s mm x = Some i \<Longrightarrow> i < SHM_MAX_ATTACH \<and> t_mm (attaches s ! i) = mm \<and> t_id (attaches s ! i) = x"
  using find_upt0_Some by (auto simp: attach_find_def)

lemma attach_drop_ptes: "attach_drop i k (s, m) = (s', m') \<Longrightarrow> sm_ptes m' = sm_ptes m"
  by (auto simp: attach_drop_def shm_put_def shm_obj_destroy_def Let_def split: if_splits)

lemma shm_sys_map_good:
  assumes "obj_good K {} (s, m)" "shm_sys_map pl c (s, m) x = (r, s', m')" "\<And>n addr. place_ok pl (sm_ptes m) (c_mm c) n addr"
  shows "obj_good K {} (s', m')"
proof (cases "s' = s \<and> m' = m")
  case False
  obtain k where k: "shm_get s x = Some k" "c_mm c \<noteq> 0" using assms(2) False by (auto simp: shm_sys_map_def split: option.splits if_splits)
  note kg = shm_get_Some [OF k(1)]
  show ?thesis
  proof (cases "attach_find s (c_mm c) x")
    case None
    then have "map_object pl c (s, m) k = (r, s', m')" using assms(2) False k by (auto simp: shm_sys_map_def split: if_splits)
    then show ?thesis using map_object_good [OF assms(1) _ _ _ k(2) assms(3)] kg by blast
  next
    case (Some i)
    note i = attach_find_Some [OF Some]
    obtain s1 m1 where d: "attach_drop i k (s, m) = (s1, m1)" by fastforce
    have g: "obj_good K {} (s1, m1)" using drop_attach_good [OF assms(1), of i k] i k kg d by (simp add: attach_drop_def)
    have "(case shm_get s1 x of None \<Rightarrow> (- EINVAL, s1, m1) | Some k' \<Rightarrow> map_object pl c (s1, m1) k') = (r, s', m')"
      using assms(2) False k Some d by (auto simp: shm_sys_map_def Let_def split: if_splits)
    then show ?thesis
    proof (cases "shm_get s1 x")
      case None
      then show ?thesis using g \<open>(case shm_get s1 x of None \<Rightarrow> _ | Some k' \<Rightarrow> _) = _\<close> by simp
    next
      case (Some k')
      have pl': "place_ok pl (sm_ptes m1) (c_mm c) n addr" for n addr using assms(3) attach_drop_ptes [OF d] by simp
      show ?thesis
        using map_object_good [OF g _ _ _ k(2) pl', of k'] shm_get_Some [OF Some] Some \<open>(case shm_get s1 x of None \<Rightarrow> _ | Some k' \<Rightarrow> _) = _\<close> by auto
    qed
  qed
qed (use assms in simp)

lemma shm_sys_unmap_good:
  assumes "obj_good K {} (s, m)" "shm_sys_unmap c (s, m) x = (r, s', m')"
  shows "obj_good K {} (s', m')"
proof (cases "s' = s \<and> m' = m")
  case False
  obtain k where k: "shm_get s x = Some k" "c_mm c \<noteq> 0" using assms(2) False by (auto simp: shm_sys_unmap_def split: option.splits if_splits)
  note kg = shm_get_Some [OF k(1)]
  let ?b = "objects s ! k"
  show ?thesis
  proof (cases "attach_find s (c_mm c) x")
    case None
    then have "o_creator ?b = c_mm c" "(s', m') = shm_put k (set_obj k (?b\<lparr>o_creator := 0\<rparr>) s, m)"
      using assms(2) False k by (auto simp: shm_sys_unmap_def Let_def split: if_splits)
    then show ?thesis using drop_creator_good [OF assms(1)] kg k(2) by simp
  next
    case (Some i)
    note i = attach_find_Some [OF Some]
    let ?m = "mm_shm_detach (c_mm c) (t_addr (attaches s ! i)) (o_frames ?b) (t_npages (attaches s ! i)) m"
    have "(s', m') = attach_drop i k (s, ?m)" using assms(2) Some k by (simp add: shm_sys_unmap_def Let_def)
    then show ?thesis using drop_attach_good [OF obj_detach_good [OF assms(1)], of i k] i k kg by (simp add: attach_drop_def)
  qed
qed (use assms in simp)

lemma shm_held_pages:
  assumes "length (objects s) = SHM_MAX_OBJECTS"
  shows "shm_held s uid = of_nat (obj_pages uid (objects s))"
proof -
  let ?f = "\<lambda>b. if o_used b \<and> o_uid b = uid then length (o_frames b) else 0"
  have "map ?f (objects s) = map (\<lambda>i. ?f (objects s ! i)) [0..<SHM_MAX_OBJECTS]" by (rule nth_equalityI) (simp_all add: assms)
  then have "obj_pages uid (objects s) = sum_list (map (\<lambda>i. ?f (objects s ! i)) [0..<SHM_MAX_OBJECTS])"
    by (simp only: obj_pages_def)
  moreover have "sum_list (map (\<lambda>i. of_nat (length (o_frames (objects s ! i)))) (filter (\<lambda>i. o_used (objects s ! i) \<and> o_uid (objects s ! i) = uid) is)) =
    (of_nat (sum_list (map (\<lambda>i. ?f (objects s ! i)) is)) :: u32)" for "is"
    by (induction "is") auto
  ultimately show ?thesis unfolding shm_held_def by simp
qed

lemma shm_sys_create_good:
  assumes "obj_good K {} (s, m)" "shm_sys_create c (s, m) npages = (r, s', m')" "c_mm c \<noteq> 0"
  shows "obj_good K {} (s', m')"
proof (cases "s' = s \<and> m' = m")
  case False
  obtain k where f: "find (\<lambda>i. \<not> o_used (objects s ! i)) [0..<SHM_MAX_OBJECTS] = Some k" "\<not> (npages < 1 \<or> npages > SHM_MAX_PAGES)"
      "\<not> (c_euid c \<noteq> 0 \<and> shm_held s (c_euid c) + npages > SHM_UID_MAX_PAGES)"
    using assms(2) False by (simp add: shm_sys_create_def split: option.splits if_splits)
  have k: "k < SHM_MAX_OBJECTS" "\<not> o_used (objects s ! k)" using find_upt0_Some [OF f(1)] by auto
  have inv: "objs_inv {} s" and led: "frames_led (sm_pmm m) (\<lambda>i. obj_cnt (objects s) i + (pte_cnt (sm_ptes m) i + K i))" using assms(1) by (simp_all add: obj_good_def)
  have len: "length (objects s) = SHM_MAX_OBJECTS" using inv by (auto simp: objs_inv_def)
  note tc = t_count_unused [OF inv k(2)]
  have bnd: "unat npages \<le> 2048" using f(2) by (simp add: word_less_nat_alt)
  have pages: "obj_pages uid ((objects s)[k := b]) = obj_pages uid (objects s) + (if o_used b \<and> o_uid b = uid then length (o_frames b) else 0)" for uid b
    using obj_pages_upd [of k "objects s" uid b] k len by simp
  have cnts: "obj_cnt ((objects s)[k := b]) i = (if o_used b then cnt (o_frames b) i else 0) + obj_cnt (objects s) i" for b i
    using obj_cnt_upd [of k "objects s" b i] k len by simp
  obtain fo pm where g: "get_frames (unat npages) [] (sm_pmm m) = (fo, pm)" by fastforce
  show ?thesis
  proof (cases fo)
    case None
    have "objs_inv {} (set_obj k (obj_clear (objects s ! k)) s)"
      using inv by (intro objs_inv_replace [OF inv k(1) tc]) (auto simp: obj_clear_def pages objs_inv_def)
    moreover have "frames_led pm (\<lambda>i. obj_cnt (objects s) i + (pte_cnt (sm_ptes m) i + K i))"
      using led_get [of "sm_pmm m" "[]" "\<lambda>i. obj_cnt (objects s) i + (pte_cnt (sm_ptes m) i + K i)", OF _ g] led None by simp
    moreover have "s' = set_obj k (obj_clear (objects s ! k)) s" "m' = m\<lparr>sm_pmm := pm\<rparr>"
      using assms(2) f g None by (auto simp: shm_sys_create_def)
    ultimately show ?thesis by (simp add: obj_good_def set_obj_def cnts) (simp add: obj_clear_def)
  next
    case (Some frames)
    let ?b = "\<lparr>o_used = True, o_frames = frames, o_maps = 1, o_creator = c_mm c, o_uid = c_euid c, o_gid = c_egid c, o_mode = 0x180\<rparr>"
    have fr: "frames_led pm (\<lambda>i. cnt frames i + (obj_cnt (objects s) i + (pte_cnt (sm_ptes m) i + K i)))" "length frames = unat npages" "0 \<notin> set frames"
      using led_get [of "sm_pmm m" "[]" "\<lambda>i. obj_cnt (objects s) i + (pte_cnt (sm_ptes m) i + K i)", OF _ g] led Some by auto
    have "obj_pages uid ((objects s)[k := ?b]) \<le> 10240" if uid: "uid \<noteq> 0" for uid
    proof -
      have le: "obj_pages uid (objects s) \<le> 10240" using inv uid by (simp add: objs_inv_def)
      then have "unat (of_nat (obj_pages uid (objects s)) + npages) = obj_pages uid (objects s) + unat npages"
        using bnd by (simp add: unat_word_ariths unat_of_nat take_bit_nat_eq_self)
      then show ?thesis using f(3) uid shm_held_pages [OF len, of uid] le fr(2) by (auto simp: pages word_less_nat_alt)
    qed
    then have "objs_inv {} (set_obj k ?b s)"
      using fr(2,3) bnd tc assms(3) by (intro objs_inv_replace [OF inv k(1) tc]) (auto simp: obj_ok_def)
    moreover have "s' = set_obj k ?b s" "m' = m\<lparr>sm_pmm := pm\<rparr>" using assms(2) f g Some by (auto simp: shm_sys_create_def)
    ultimately show ?thesis using fr(1) by (simp add: obj_good_def set_obj_def cnts add.assoc)
  qed
qed (use assms in simp)

lemma obj_upd_good:
  assumes "obj_good K {} (s, m)" "k < SHM_MAX_OBJECTS" "same_obj (objects s ! k) b" "o_maps b = o_maps (objects s ! k)" "o_creator b = o_creator (objects s ! k)"
  shows "obj_good K {} (set_obj k b s, m)"
proof -
  have inv: "objs_inv {} s" using assms(1) by (simp add: obj_good_def)
  have "objs_inv {} (set_obj k b (set_attach 0 (attaches s ! 0) s)) \<and> obj_cnt (objects (set_obj k b (set_attach 0 (attaches s ! 0) s))) = obj_cnt (objects s)"
    using inv assms(2-5) by (intro objs_inv_upd [OF inv assms(2,3)]) (auto simp: same_obj_def objs_inv_def obj_ok_def)
  then show ?thesis using obj_led_keep [OF assms(1)] by (simp add: set_attach_def)
qed

lemma shm_sys_chmod_good: "obj_good K {} (s, m) \<Longrightarrow> shm_sys_chmod c s x mode = (r, s') \<Longrightarrow> obj_good K {} (s', m)"
  by (auto simp: shm_sys_chmod_def same_obj_def intro!: obj_upd_good dest!: shm_get_Some split: option.splits if_splits)

lemma fork_attaches_good:
  assumes "obj_good K {} (s, m)" "pm \<noteq> 0" "cm \<noteq> 0" "\<forall>i\<in>set is. i < SHM_MAX_ATTACH"
  shows "obj_good K {} (fork_attaches pm cm is s, m)"
  using assms(1,4)
proof (induction "is" arbitrary: s)
  case (Cons i "is")
  let ?a = "attaches s ! i"
  show ?case
  proof (cases "t_mm ?a = pm \<and> shm_get s (t_id ?a) \<noteq> None \<and> attach_alloc s \<noteq> None")
    case True
    then obtain k j where e: "shm_get s (t_id ?a) = Some k" "attach_alloc s = Some j" by auto
    note kg = shm_get_Some [OF e(1)]
    have j: "j < SHM_MAX_ATTACH" "t_mm (attaches s ! j) = 0" using e(2) find_upt0_Some by (auto simp: attach_alloc_def)
    have inv: "objs_inv {} s" using Cons.prems(1) by (simp add: obj_good_def)
    have len: "length (attaches s) = SHM_MAX_ATTACH" using inv by (auto simp: objs_inv_def)
    let ?b = "objects s ! k" let ?a' = "?a\<lparr>t_mm := cm\<rparr>" let ?b' = "?b\<lparr>o_maps := o_maps ?b + 1\<rparr>"
    have aok: "attach_ok (objects s) ?a" using inv Cons.prems(2) by (simp add: objs_inv_def)
    have bok: "o_maps ?b = int (t_count (attaches s) k) + (if o_creator ?b \<noteq> 0 then 1 else 0)" "0 < o_maps ?b" using inv kg by (auto simp: objs_inv_def obj_ok_def)
    have c: "t_count ((attaches s)[j := ?a']) l = t_count (attaches s) l + (if k = l then 1 else 0)" for l
      using t_count_upd [of j "attaches s" ?a' l] len j kg assms(3) by simp
    have "objs_inv {} (set_obj k ?b' (set_attach j ?a' s)) \<and> obj_cnt (objects (set_obj k ?b' (set_attach j ?a' s))) = obj_cnt (objects s)"
    proof (rule objs_inv_upd [OF inv _ _ j(1)])
      show "attach_ok (objects s) ?a'" using aok True assms(2) by (simp add: attach_ok_def)
      show "t_count ((attaches s)[j := ?a']) l = t_count (attaches s) l" if "l \<noteq> k" for l using c that by simp
      show "o_maps ?b' = int (t_count ((attaches s)[j := ?a']) k) + (if o_creator ?b' \<noteq> 0 then 1 else 0)" using c [of k] bok by simp
    qed (use kg bok in \<open>auto simp: same_obj_def\<close>)
    then have "obj_good K {} (set_obj k ?b' (set_attach j ?a' s), m)" using obj_led_keep [OF Cons.prems(1)] by simp
    then show ?thesis using Cons.IH Cons.prems(2) True e by (simp add: Let_def)
  next
    case False
    then show ?thesis using Cons by (auto simp: Let_def split: option.splits)
  qed
qed simp

lemma release_attach_good:
  assumes "obj_good K {} x" "mm \<noteq> 0" "i < SHM_MAX_ATTACH"
  shows "obj_good K {} (release_attach mm i x)"
proof -
  obtain s m where x: "x = (s, m)" by fastforce
  let ?a = "attaches s ! i"
  show ?thesis
  proof (cases "t_mm ?a = mm")
    case True
    have "attach_ok (objects s) ?a" using assms(1,3) x by (simp add: obj_good_def objs_inv_def)
    then have "shm_get s (t_id ?a) = Some (nat (t_id ?a))" "t_id ?a = int (nat (t_id ?a))" using True assms(2) by (auto simp: attach_ok_def shm_get_def)
    then show ?thesis using drop_attach_good [of K s m i "nat (t_id ?a)"] assms x True by (simp add: release_attach_def Let_def)
  qed (use assms x in \<open>simp add: release_attach_def\<close>)
qed

lemma release_creator_good:
  assumes "obj_good K {} x" "mm \<noteq> 0" "k < SHM_MAX_OBJECTS"
  shows "obj_good K {} (release_creator mm k x)"
  using drop_creator_good [of K "fst x" "snd x" k] assms by (auto simp: release_creator_def split_def)

section \<open>Both tables over one memory\<close>

text \<open>\<open>K\<close>: the references held by the rest of the kernel.\<close>

definition sys_refs :: "shm_sys \<Rightarrow> (nat \<Rightarrow> nat) \<Rightarrow> nat \<Rightarrow> nat" where
  "sys_refs s K i = obj_cnt (objects (sy_objs s)) i + seg_cnt (shms (sy_sysv s)) i + pte_cnt (sm_ptes (sy_mem s)) i + K i"

definition shm_sys_good :: "shm_sys \<times> (nat \<Rightarrow> nat) \<Rightarrow> bool" where
  "shm_sys_good = (\<lambda>(s, K). objs_inv {} (sy_objs s) \<and> shm_inv {} (sy_sysv s) \<and> frames_led (sm_pmm (sy_mem s)) (sys_refs s K))"

lemma sys_good_objs:
  "shm_sys_good (s, K) \<longleftrightarrow> shm_inv {} (sy_sysv s) \<and> obj_good (\<lambda>i. seg_cnt (shms (sy_sysv s)) i + K i) {} (sy_objs s, sy_mem s)"
proof -
  have "sys_refs s K = (\<lambda>i. obj_cnt (objects (sy_objs s)) i + (pte_cnt (sm_ptes (sy_mem s)) i + (seg_cnt (shms (sy_sysv s)) i + K i)))"
    by (simp add: sys_refs_def fun_eq_iff)
  then show ?thesis by (auto simp: shm_sys_good_def obj_good_def)
qed

lemma sys_good_sysv:
  "shm_sys_good (s, K) \<longleftrightarrow> objs_inv {} (sy_objs s) \<and> shm_good (\<lambda>i. obj_cnt (objects (sy_objs s)) i + K i) {} (sy_sysv s, sy_mem s)"
proof -
  have "sys_refs s K = (\<lambda>i. seg_cnt (shms (sy_sysv s)) i + (pte_cnt (sm_ptes (sy_mem s)) i + (obj_cnt (objects (sy_objs s)) i + K i)))"
    by (simp add: sys_refs_def fun_eq_iff)
  then show ?thesis by (auto simp: shm_sys_good_def shm_good_def shm_led_def)
qed

lemma shm_proc_fork_good: "shm_sys_good (s, K) \<Longrightarrow> shm_sys_good (shm_proc_fork pm cm s, K)"
proof -
  assume g: "shm_sys_good (s, K)"
  let ?s1 = "s\<lparr>sy_sysv := sysv_shm_fork pm cm (sy_sysv s)\<rparr>"
  have "shm_sys_good (?s1, K)" using g sysv_shm_fork_good [of _ "sy_sysv s" "sy_mem s"] by (simp add: sys_good_sysv)
  then have "shm_sys_good (?s1\<lparr>sy_objs := fork_attaches pm cm [0..<SHM_MAX_ATTACH] (sy_objs s)\<rparr>, K)" if "pm \<noteq> 0" "cm \<noteq> 0"
    using that fork_attaches_good [of _ "sy_objs s" "sy_mem s" pm cm "[0..<SHM_MAX_ATTACH]"] by (simp add: sys_good_objs)
  then show "shm_sys_good (shm_proc_fork pm cm s, K)" using g by (simp add: shm_proc_fork_def)
qed

lemma shm_mm_release_good: "shm_sys_good (s, K) \<Longrightarrow> shm_sys_good (shm_mm_release now mm s, K)"
proof (cases "mm = 0")
  case False
  assume g: "shm_sys_good (s, K)"
  obtain v m where e1: "sysv_shm_mm_release now mm (sy_sysv s, sy_mem s) = (v, m)" by fastforce
  obtain b1 m1 where e2: "fold (release_attach mm) [0..<SHM_MAX_ATTACH] (sy_objs s, m) = (b1, m1)" by fastforce
  obtain b2 m2 where e3: "fold (release_creator mm) [0..<SHM_MAX_OBJECTS] (b1, m1) = (b2, m2)" by fastforce
  have "shm_sys_good (s\<lparr>sy_sysv := v, sy_mem := m\<rparr>, K)"
    using g sysv_shm_mm_release_good [of _ "(sy_sysv s, sy_mem s)" now mm] e1 by (simp add: sys_good_sysv)
  then have o1: "shm_inv {} v" "obj_good (\<lambda>i. seg_cnt (shms v) i + K i) {} (sy_objs s, m)" by (simp_all add: sys_good_objs)
  have "obj_good (\<lambda>i. seg_cnt (shms v) i + K i) {} (b1, m1)"
    using fold_keeps [where P = "obj_good (\<lambda>i. seg_cnt (shms v) i + K i) {}" and f = "release_attach mm", OF o1(2), of "[0..<SHM_MAX_ATTACH]"] release_attach_good [OF _ False] e2 by simp
  then have "obj_good (\<lambda>i. seg_cnt (shms v) i + K i) {} (b2, m2)"
    using fold_keeps [where P = "obj_good (\<lambda>i. seg_cnt (shms v) i + K i) {}" and f = "release_creator mm" and x = "(b1, m1)", of "[0..<SHM_MAX_OBJECTS]"] release_creator_good [OF _ False] e3 by simp
  then have "shm_sys_good (\<lparr>sy_objs = b2, sy_sysv = v, sy_mem = m2\<rparr>, K)" using o1(1) by (simp add: sys_good_objs)
  moreover have "shm_mm_release now mm s = \<lparr>sy_objs = b2, sy_sysv = v, sy_mem = m2\<rparr>" using False by (simp add: shm_mm_release_def e1 e2 e3)
  ultimately show ?thesis by simp
qed (simp add: shm_mm_release_def)

lemma shm_proc_exit_good: "shm_sys_good (s, K) \<Longrightarrow> shm_sys_good (shm_proc_exit others now mm s, K)"
  using shm_mm_release_good by (auto simp: shm_proc_exit_def)

text \<open>
  The calls and hooks, the copying and dropping of page table entries by fork, munmap and the end of an address
  space, and the steps of the physical memory manager for the rest of the kernel.
\<close>

inductive shm_sys_step :: "shm_sys \<times> (nat \<Rightarrow> nat) \<Rightarrow> shm_sys \<times> (nat \<Rightarrow> nat) \<Rightarrow> bool" where
  shmget: "do_shmget mem c now (sy_sysv s, sy_mem s) key sz flag = (r, v, m) \<Longrightarrow> shm_sys_step (s, K) (s\<lparr>sy_sysv := v, sy_mem := m\<rparr>, K)"
| shmat: "do_shmat pl c now (sy_sysv s, sy_mem s) x addr flag = (r', v, m) \<Longrightarrow> c_mm c \<noteq> 0 \<Longrightarrow>
    (\<And>n a. place_ok pl (sm_ptes (sy_mem s)) (c_mm c) n a) \<Longrightarrow> shm_sys_step (s, K) (s\<lparr>sy_sysv := v, sy_mem := m\<rparr>, K)"
| shmdt: "do_shmdt c now (sy_sysv s, sy_mem s) addr = (r, v, m) \<Longrightarrow> c_mm c \<noteq> 0 \<Longrightarrow> shm_sys_step (s, K) (s\<lparr>sy_sysv := v, sy_mem := m\<rparr>, K)"
| shmctl: "do_shmctl c now um (sy_sysv s, sy_mem s) x cmd ubuf = (r, um', v, m) \<Longrightarrow> shm_sys_step (s, K) (s\<lparr>sy_sysv := v, sy_mem := m\<rparr>, K)"
| create: "shm_sys_create c (sy_objs s, sy_mem s) npages = (r, b, m) \<Longrightarrow> c_mm c \<noteq> 0 \<Longrightarrow> shm_sys_step (s, K) (s\<lparr>sy_objs := b, sy_mem := m\<rparr>, K)"
| map: "shm_sys_map pl c (sy_objs s, sy_mem s) x = (r, b, m) \<Longrightarrow> (\<And>n a. place_ok pl (sm_ptes (sy_mem s)) (c_mm c) n a) \<Longrightarrow>
    shm_sys_step (s, K) (s\<lparr>sy_objs := b, sy_mem := m\<rparr>, K)"
| unmap: "shm_sys_unmap c (sy_objs s, sy_mem s) x = (r, b, m) \<Longrightarrow> shm_sys_step (s, K) (s\<lparr>sy_objs := b, sy_mem := m\<rparr>, K)"
| chmod: "shm_sys_chmod c (sy_objs s) x mode = (r, b) \<Longrightarrow> shm_sys_step (s, K) (s\<lparr>sy_objs := b\<rparr>, K)"
| fork: "shm_sys_step (s, K) (shm_proc_fork pm cm s, K)"
| release: "shm_sys_step (s, K) (shm_mm_release now mm s, K)"
| exit: "shm_sys_step (s, K) (shm_proc_exit others now mm s, K)"
| pte_copy: "sm_ptes m p = Some f \<Longrightarrow> sm_ptes m p' = None \<Longrightarrow> m = sy_mem s \<Longrightarrow>
    shm_sys_step (s, K) (s\<lparr>sy_mem := m\<lparr>sm_ptes := (sm_ptes m)(p' \<mapsto> f), sm_pmm := frame_incref f (sm_pmm m)\<rparr>\<rparr>, K)"
| pte_drop: "sm_ptes m p = Some f \<Longrightarrow> m = sy_mem s \<Longrightarrow>
    shm_sys_step (s, K) (s\<lparr>sy_mem := m\<lparr>sm_ptes := (sm_ptes m)(p := None), sm_pmm := frame_decref f (sm_pmm m)\<rparr>\<rparr>, K)"
| other: "pmm_any_step (sm_pmm m, sys_refs s K) (pm, sys_refs s K') \<Longrightarrow> m = sy_mem s \<Longrightarrow> pmm_total pm \<le> refcount_frames pm \<Longrightarrow>
    shm_sys_step (s, K) (s\<lparr>sy_mem := m\<lparr>sm_pmm := pm\<rparr>\<rparr>, K')"

lemma pte_copy_good:
  assumes "shm_sys_good (s, K)" "sm_ptes (sy_mem s) p = Some f" "sm_ptes (sy_mem s) p' = None"
  shows "shm_sys_good (s\<lparr>sy_mem := (sy_mem s)\<lparr>sm_ptes := (sm_ptes (sy_mem s))(p' \<mapsto> f), sm_pmm := frame_incref f (sm_pmm (sy_mem s))\<rparr>\<rparr>, K)"
proof -
  let ?pt = "sm_ptes (sy_mem s)"
  have led: "frames_led (sm_pmm (sy_mem s)) (sys_refs s K)" using assms(1) by (simp add: shm_sys_good_def)
  have "0 < pte_cnt ?pt (fidx f)" using assms(2) pte_cnt_pos by blast
  then have "0 < sys_refs s K (fidx f)" by (simp add: sys_refs_def)
  note led_incref [OF led this refl]
  moreover have "(sys_refs s K)(fidx f := sys_refs s K (fidx f) + 1) =
    sys_refs (s\<lparr>sy_mem := (sy_mem s)\<lparr>sm_ptes := ?pt(p' \<mapsto> f), sm_pmm := frame_incref f (sm_pmm (sy_mem s))\<rparr>\<rparr>) K"
  proof
    fix i show "((sys_refs s K)(fidx f := sys_refs s K (fidx f) + 1)) i =
      sys_refs (s\<lparr>sy_mem := (sy_mem s)\<lparr>sm_ptes := ?pt(p' \<mapsto> f), sm_pmm := frame_incref f (sm_pmm (sy_mem s))\<rparr>\<rparr>) K i"
      using pte_cnt_upd [of ?pt p' "Some f" i] assms(3) by (auto simp: sys_refs_def)
  qed
  ultimately show ?thesis using assms(1) by (simp add: shm_sys_good_def)
qed

lemma pte_drop_good:
  assumes "shm_sys_good (s, K)" "sm_ptes (sy_mem s) p = Some f"
  shows "shm_sys_good (s\<lparr>sy_mem := (sy_mem s)\<lparr>sm_ptes := (sm_ptes (sy_mem s))(p := None), sm_pmm := frame_decref f (sm_pmm (sy_mem s))\<rparr>\<rparr>, K)"
proof -
  let ?pt = "sm_ptes (sy_mem s)"
  have led: "frames_led (sm_pmm (sy_mem s)) (sys_refs s K)" using assms(1) by (simp add: shm_sys_good_def)
  have "0 < pte_cnt ?pt (fidx f)" using assms(2) pte_cnt_pos by blast
  then have pos: "0 < sys_refs s K (fidx f)" by (simp add: sys_refs_def)
  note led_decref [OF led this refl]
  moreover have "(sys_refs s K)(fidx f := sys_refs s K (fidx f) - 1) =
    sys_refs (s\<lparr>sy_mem := (sy_mem s)\<lparr>sm_ptes := ?pt(p := None), sm_pmm := frame_decref f (sm_pmm (sy_mem s))\<rparr>\<rparr>) K"
  proof
    fix i show "((sys_refs s K)(fidx f := sys_refs s K (fidx f) - 1)) i =
      sys_refs (s\<lparr>sy_mem := (sy_mem s)\<lparr>sm_ptes := ?pt(p := None), sm_pmm := frame_decref f (sm_pmm (sy_mem s))\<rparr>\<rparr>) K i"
      using pte_cnt_upd [of ?pt p None i] assms(2) by (auto simp: sys_refs_def)
  qed
  ultimately show ?thesis using assms(1) by (simp add: shm_sys_good_def)
qed

lemma shm_sys_step_good: "shm_sys_step x y \<Longrightarrow> shm_sys_good x \<Longrightarrow> shm_sys_good y"
proof (induction rule: shm_sys_step.induct)
  case (shmget mem c now s key sz flag r v m K)
  then show ?case using do_shmget_good [OF _ shmget(1)] by (simp add: sys_good_sysv)
next
  case (shmat pl c now s x addr flag r' v m K)
  then show ?case using do_shmat_good [OF _ shmat(1,2)] by (simp add: sys_good_sysv)
next
  case (shmdt c now s addr r v m K)
  then show ?case using do_shmdt_good [OF _ shmdt(1,2)] by (simp add: sys_good_sysv)
next
  case (shmctl c now um s x cmd ubuf r um' v m K)
  then show ?case using do_shmctl_good [OF _ shmctl(1)] by (simp add: sys_good_sysv)
next
  case (create c s npages r b m K)
  then show ?case using shm_sys_create_good [OF _ create(1,2)] by (simp add: sys_good_objs)
next
  case (map pl c s x r b m K)
  then show ?case using shm_sys_map_good [OF _ map(1)] by (simp add: sys_good_objs)
next
  case (unmap c s x r b m K)
  then show ?case using shm_sys_unmap_good [OF _ unmap(1)] by (simp add: sys_good_objs)
next
  case (chmod c s x mode r b K)
  then show ?case using shm_sys_chmod_good [OF _ chmod(1)] by (simp add: sys_good_objs)
next
  case (pte_copy m p f p' s K)
  then show ?case using pte_copy_good by simp
next
  case (pte_drop m p f s K)
  then show ?case using pte_drop_good by simp
next
  case (other m s K pm K')
  have "sys_ok (sm_pmm m, sys_refs s K)" using other by (simp add: shm_sys_good_def frames_led_def)
  then have "sys_ok (pm, sys_refs s K')" using other(1) pmm_step_ok unfolding pmm_any_step_def by blast
  moreover have "sys_refs (s\<lparr>sy_mem := m\<lparr>sm_pmm := pm\<rparr>\<rparr>) K' = sys_refs s K'" using other(2) by (simp add: sys_refs_def fun_eq_iff)
  ultimately show ?case using other by (simp add: shm_sys_good_def frames_led_def)
qed (simp_all add: shm_proc_fork_good shm_mm_release_good shm_proc_exit_good)

definition shm_sys_start :: "shm_sys \<times> (nat \<Rightarrow> nat) \<Rightarrow> bool" where
  "shm_sys_start = (\<lambda>(s, K). sy_objs s = objs_boot \<and> sy_sysv s = shm_boot \<and> sm_ptes (sy_mem s) = (\<lambda>_. None) \<and> frames_led (sm_pmm (sy_mem s)) K)"

lemma shm_sys_start_good: "shm_sys_start x \<Longrightarrow> shm_sys_good x"
proof -
  obtain s K where x: "x = (s, K)" by fastforce
  assume st: "shm_sys_start x"
  have o: "obj_cnt (replicate n b) i = 0" "obj_pages uid (replicate n b) = 0" if "\<not> o_used b" for n b i uid
    using that by (induction n) (simp_all add: obj_cnt_def obj_pages_def)
  have "objs_inv {} objs_boot" by (simp add: objs_inv_def objs_boot_def obj_ok_def attach_ok_def o)
  moreover have "shm_inv {} shm_boot" by (rule shm_boot_inv)
  moreover have "sys_refs s K = K" using st x by (simp add: shm_sys_start_def sys_refs_def fun_eq_iff objs_boot_def shm_boot_def o unused_segs shm_zero_def pte_cnt_def)
  ultimately show "shm_sys_good x" using st x by (simp add: shm_sys_start_def shm_sys_good_def)
qed

interpretation shm_system: transition_invariant shm_sys_start shm_sys_step shm_sys_good
  by unfold_locales (auto intro: shm_sys_start_good shm_sys_step_good)

section \<open>Properties\<close>

text \<open>C4: whatever runs in whatever order, a frame that belongs to a window buffer or to a System V segment, or that a
  page of a shared mapping maps, is in use, is not waiting in the quarantine and is not handed out again; its
  reference count, unless it is saturated, is the number of its owners, mappings and other holders.\<close>

theorem shm_frames_safe:
  assumes "shm_sys_start x0" "shm_sys_step\<^sup>*\<^sup>* x0 (s, K)"
    and "(k < SHM_MAX_OBJECTS \<and> o_used (objects (sy_objs s) ! k) \<and> f \<in> set (o_frames (objects (sy_objs s) ! k))) \<or>
      (k < SYSV_SHMMNI \<and> h_used (shms (sy_sysv s) ! k) \<and> f \<in> set (h_frames (shms (sy_sysv s) ! k))) \<or> sm_ptes (sy_mem s) p = Some f"
  shows "BIT_TEST (pmm_bitmap (sm_pmm (sy_mem s))) (fidx f) \<and> fidx f \<notin> set (quar_list (sm_pmm (sy_mem s))) \<and>
    fst (frame_alloc q (sm_pmm (sy_mem s))) \<noteq> Some (fidx f) \<and>
    (frame_refcount (sm_pmm (sy_mem s)) (fidx f) < PMM_REF_SATURATED \<longrightarrow>
       unat (frame_refcount (sm_pmm (sy_mem s)) (fidx f)) = sys_refs s K (fidx f))"
proof -
  let ?pm = "sm_pmm (sy_mem s)" let ?i = "fidx f"
  have g: "shm_sys_good (s, K)" by (rule shm_system.inv_reachable [OF assms(1,2)])
  then have led: "frames_led ?pm (sys_refs s K)" and len: "length (objects (sy_objs s)) = SHM_MAX_OBJECTS" "length (shms (sy_sysv s)) = SYSV_SHMMNI"
    by (simp_all add: shm_sys_good_def objs_inv_def shm_inv_def)
  have "0 < obj_cnt (objects (sy_objs s)) ?i \<or> 0 < seg_cnt (shms (sy_sysv s)) ?i \<or> 0 < pte_cnt (sm_ptes (sy_mem s)) ?i"
    using assms(3) obj_cnt_pos seg_cnt_pos pte_cnt_pos len by metis
  then have "0 < sys_refs s K ?i" by (auto simp: sys_refs_def)
  then have l: "?i \<in> live_frames ?pm" "?i < refcount_frames ?pm" using led_live [OF led] by auto
  have ok: "pmm_ok ?pm" "refs_ok ?pm (sys_refs s K)" using led by (auto simp: frames_led_def sys_ok_def)
  have u: "?i \<in> used_set ?pm" "?i \<notin> set (quar_list ?pm)" using l by (auto simp: live_frames_def)
  then show ?thesis using frame_alloc_not_live [OF ok(1) u(1)] ok(2) l(2) by (auto simp: used_set_def refs_ok_def)
qed

text \<open>C13: in every reachable state a System V segment counts its attachments, a removed one exists only while it is
  attached, a window buffer counts its attachments and its creator's reservation and exists only while there is one,
  every attachment is of an object that exists, and the limits on pages hold, in all and for each user.\<close>

theorem shm_tables_consistent: "shm_sys_start x0 \<Longrightarrow> shm_sys_step\<^sup>*\<^sup>* x0 (s, K) \<Longrightarrow> objs_inv {} (sy_objs s) \<and> shm_inv {} (sy_sysv s)"
  using shm_system.inv_reachable [of x0 "(s, K)"] by (simp add: shm_sys_good_def)

text \<open>C22: attaching a System V segment maps every page of it to its frame and touches no other page; detaching it at
  the address shmat gave takes exactly these mappings away again and leaves the number of attachments of every segment
  as it was. (Hypothesis: the address space has no other record for that address.)\<close>

theorem shmat_shmdt_round_trip:
  assumes "shm_good K {} (s, m)" "c_mm c \<noteq> 0" "\<And>n a. place_ok pl (sm_ptes m) (c_mm c) n a"
    and at: "do_shmat pl c now (s, m) x addr flag = (Inr base, s1, m1)"
    and fresh: "\<And>i. i < SHM_ATT_MAX \<Longrightarrow> \<not> (a_mm (shm_atts s ! i) = c_mm c \<and> a_addr (shm_atts s ! i) = base)"
    and dt: "do_shmdt c now' (s1, m1) base = (r, s2, m2)"
  shows "\<exists>slot. shm_by_id s x = Some slot \<and>
    (\<forall>i<length (h_frames (shms s ! slot)). sm_ptes m1 (c_mm c, page_va base i) = Some (h_frames (shms s ! slot) ! i)) \<and>
    (\<forall>k. (\<forall>i<length (h_frames (shms s ! slot)). k \<noteq> (c_mm c, page_va base i)) \<longrightarrow> sm_ptes m1 k = sm_ptes m k) \<and>
    r = 0 \<and> sm_ptes m2 = sm_ptes m \<and> (\<forall>k. att_count (shm_atts s2) k = att_count (shm_atts s) k)"
proof -
  from at obtain slot i ad where e: "shm_by_id s x = Some slot" "i < SHM_ATT_MAX" "a_mm (shm_atts s ! i) = 0" "base \<noteq> 0"
      "mm_shm_attach_at pl (c_mm c) (h_frames (shms s ! slot)) ad m = (base, m1)"
      "s1 = set_seg slot ((shms s ! slot)\<lparr>h_nattch := h_nattch (shms s ! slot) + 1, h_atime := now, h_lpid := c_tgid c\<rparr>)
         (set_att i \<lparr>a_mm = c_mm c, a_slot = slot, a_seq = p_seq (h_perm (shms s ! slot)), a_addr = base, a_npages = length (h_frames (shms s ! slot))\<rparr> s)"
    by (cases rule: do_shmat_cases) auto
  let ?fs = "h_frames (shms s ! slot)"
  have inv: "shm_inv {} s" using assms(1) by (simp add: shm_good_def)
  note slot = shm_by_id_used [OF e(1)]
  have len: "length (shms s) = SYSV_SHMMNI" "length (shm_atts s) = SHM_ATT_MAX" "length ?fs \<le> MM_SHM_MAX_PAGES"
    and none: "h_nattch (shms s ! slot) = int (att_count (shm_atts s) slot)"
    using inv slot by (auto simp: shm_inv_def seg_ok_def)
  have ling: "p_mode (h_perm (shms s ! slot)) AND SHM_DEST \<noteq> 0 \<Longrightarrow> 0 < h_nattch (shms s ! slot)" using inv slot by (simp add: shm_inv_def lingers_def)
  note mapped = attach_maps [OF e(5,4) len(3) assms(3)]
  have f: "find (\<lambda>j. a_mm (shm_atts s1 ! j) = c_mm c \<and> a_addr (shm_atts s1 ! j) = base) [0..<SHM_ATT_MAX] = Some i"
    using e(2) fresh len by (auto simp: find_upt_Some e(6) set_seg_def set_att_def nth_list_update)
  let ?q = "shms s1 ! slot"
  have q: "h_used ?q" "h_frames ?q = ?fs" "h_nattch ?q = h_nattch (shms s ! slot) + 1" "h_perm ?q = h_perm (shms s ! slot)" "length (shms s1) = SYSV_SHMMNI"
    using slot len by (simp_all add: e(6) set_seg_def set_att_def)
  have a: "shm_atts s1 ! i = \<lparr>a_mm = c_mm c, a_slot = slot, a_seq = p_seq (h_perm (shms s ! slot)), a_addr = base, a_npages = length ?fs\<rparr>"
    using e(2) len by (simp add: e(6) set_seg_def set_att_def)
  let ?s = "set_seg slot (?q\<lparr>h_nattch := h_nattch ?q - 1, h_dtime := now', h_lpid := c_tgid c\<rparr>) (set_att i ((shm_atts s1 ! i)\<lparr>a_mm := 0\<rparr>) s1)"
  have nd: "shm_maybe_destroy slot (?s, m') = (?s, m')" for m'
    using ling slot q by (auto simp: shm_maybe_destroy_def Let_def set_seg_def set_att_def)
  have d: "(r, s2, m2) = (0, ?s, mm_shm_detach (c_mm c) base ?fs (length ?fs) m1)"
    using dt f q a nd by (simp add: do_shmdt_def Let_def)
  have cl: "fst (fold (clear_page (c_mm c) base ?fs) [0..<length ?fs] (sm_ptes m1, [])) = sm_ptes m"
    by (rule clear_all) (use mapped len(3) assms(3) e(4) in auto)
  have "sm_ptes m2 = sm_ptes m"
    using d cl len(3) by (simp add: mm_shm_detach_def Let_def split_def min_absorb1)
  moreover have "att_count (shm_atts s2) k = att_count (shm_atts s) k" for k
  proof -
    have "shm_atts s2 = (shm_atts s)[i := (shm_atts s1 ! i)\<lparr>a_mm := 0\<rparr>]" using d by (simp add: set_seg_def set_att_def e(6))
    then show ?thesis using att_count_upd [of i "shm_atts s" "(shm_atts s1 ! i)\<lparr>a_mm := 0\<rparr>" k] e(2,3) len by simp
  qed
  ultimately show ?thesis using e(1) mapped d by auto
qed

section \<open>Witnesses\<close>

definition user_cred :: cred where
  "user_cred = root_cred\<lparr>c_mm := 0x1000\<rparr>"

definition pl_example :: place where
  "pl_example = \<lparr>pl_owner = True, pl_vmas = [], pl_first = (\<lambda>_ _. 0), pl_gap = (\<lambda>_. 0x40000000), pl_reserve = (\<lambda>_ _. True), pl_add = True, pl_top = 0xBF000000\<rparr>"

lemma objs_example:
  obtains s0 f s where "shm_sys_start (s0, \<lambda>_. 0)" "shm_sys_step\<^sup>*\<^sup>* (s0, \<lambda>_. 0) (s, \<lambda>_. 0)"
    "o_used (objects (sy_objs s) ! 0)" "o_frames (objects (sy_objs s) ! 0) = [f]" "o_maps (objects (sy_objs s) ! 0) = 1"
proof -
  obtain pm f pm1 where e: "frames_led pm (\<lambda>_. 0)" "pmm_alloc_frame pm = (f, pm1)" "f \<noteq> 0" by (metis led_example)
  let ?m = "\<lparr>sm_pmm = pm, sm_ptes = \<lambda>_. None\<rparr>"
  let ?s0 = "\<lparr>sy_objs = objs_boot, sy_sysv = shm_boot, sy_mem = ?m\<rparr>"
  let ?b = "\<lparr>o_used = True, o_frames = [f], o_maps = 1, o_creator = 0x1000, o_uid = 0, o_gid = 0, o_mode = 0x180\<rparr>"
  have fi: "find (\<lambda>i. \<not> o_used (objects objs_boot ! i)) [0..<SHM_MAX_OBJECTS] = Some 0" by (simp add: find_upt_Some objs_boot_def)
  have g: "get_frames (unat 1) [] pm = (Some [f], frame_incref f pm1)" using e by (simp add: One_nat_def)
  have "shm_sys_create user_cred (objs_boot, ?m) 1 = (0, set_obj 0 ?b objs_boot, ?m\<lparr>sm_pmm := frame_incref f pm1\<rparr>)"
    using g by (simp add: shm_sys_create_def fi user_cred_def root_cred_def)
  then have "shm_sys_step (?s0, \<lambda>_. 0) (?s0\<lparr>sy_objs := set_obj 0 ?b objs_boot, sy_mem := ?m\<lparr>sm_pmm := frame_incref f pm1\<rparr>\<rparr>, \<lambda>_. 0)"
    using shm_sys_step.create [of user_cred ?s0] by (simp add: user_cred_def)
  note r_into_rtranclp [of shm_sys_step, OF this]
  moreover have "shm_sys_start (?s0, \<lambda>_. 0)" using e(1) by (simp add: shm_sys_start_def)
  ultimately show thesis using that by (fastforce simp: set_obj_def objs_boot_def)
qed

theorem shm_frames_safe_witness:
  "\<exists>(s :: shm_sys) f. o_frames (objects (sy_objs s) ! 0) = [f] \<and> BIT_TEST (pmm_bitmap (sm_pmm (sy_mem s))) (fidx f) \<and>
     fst (frame_alloc UserFrame (sm_pmm (sy_mem s))) \<noteq> Some (fidx f)"
proof -
  obtain s0 f s where e: "shm_sys_start (s0, \<lambda>_. 0)" "shm_sys_step\<^sup>*\<^sup>* (s0, \<lambda>_. 0) (s, \<lambda>_. 0)"
    "o_used (objects (sy_objs s) ! 0)" "o_frames (objects (sy_objs s) ! 0) = [f]" by (metis objs_example)
  have "BIT_TEST (pmm_bitmap (sm_pmm (sy_mem s))) (fidx f) \<and> fst (frame_alloc UserFrame (sm_pmm (sy_mem s))) \<noteq> Some (fidx f)"
    using shm_frames_safe [OF e(1,2), of 0 f "(0, 0)" UserFrame] e(3,4) by (simp del: frame_alloc.simps)
  then show ?thesis using e(4) by blast
qed

theorem shm_tables_consistent_witness: "\<exists>s :: shm_sys. o_maps (objects (sy_objs s) ! 0) = 1 \<and> objs_inv {} (sy_objs s) \<and> shm_inv {} (sy_sysv s)"
proof -
  obtain s0 s where e: "shm_sys_start (s0, \<lambda>_. 0)" "shm_sys_step\<^sup>*\<^sup>* (s0, \<lambda>_. 0) (s, \<lambda>_. 0)" "o_maps (objects (sy_objs s) ! 0) = 1"
    by (metis objs_example)
  then show ?thesis using shm_tables_consistent [OF e(1,2)] by blast
qed

lemma place_example: "sm_ptes m = (\<lambda>_. None) \<Longrightarrow> place_ok pl_example (sm_ptes m) mm n a"
  by (simp add: place_ok_def Let_def)

lemma shm_example:
  obtains s m f where "shm_good (\<lambda>_. 0) {} (s, m)" "sm_ptes m = (\<lambda>_. None)" "shm_by_id s 128 = Some 0" "h_frames (shms s ! 0) = [f]"
    "shm_atts s = shm_atts shm_boot" "pmm_frame_refcount (ucast f) (sm_pmm m) = 1"
proof -
  obtain pm f pm1 where e: "frames_led pm (\<lambda>_. 0)" "pmm_alloc_frame pm = (f, pm1)" "f \<noteq> 0" "frame_refcount pm1 (fidx f) = 0" "fidx f < refcount_frames pm1"
    by (metis led_example)
  let ?m = "\<lparr>sm_pmm = pm, sm_ptes = \<lambda>_. None\<rparr>"
  have "shm_sys_good (\<lparr>sy_objs = objs_boot, sy_sysv = shm_boot, sy_mem = ?m\<rparr>, \<lambda>_. 0)"
    by (rule shm_sys_start_good) (simp add: shm_sys_start_def e(1))
  moreover have "obj_cnt (objects objs_boot) i = 0" for i by (simp add: obj_cnt_def objs_boot_def sum_list_replicate)
  ultimately have g0: "shm_good (\<lambda>_. 0) {} (shm_boot, ?m)" by (simp add: sys_good_sysv)
  obtain r s' m' where d: "do_shmget True root_cred 0 (shm_boot, ?m) 0 4096 0x1B6 = (r, s', m')" by (metis prod_cases3)
  have fi: "find (\<lambda>i. \<not> h_used (shms shm_boot ! i)) [0..<SYSV_SHMMNI] = Some 0" by (simp add: find_upt_Some shm_boot_def shm_zero_def)
  have g: "get_frames (unat 1) [] pm = (Some [f], frame_incref f pm1)" using e by (simp add: One_nat_def)
  have np: "((4096 :: u32) + 4095) div 4096 = 1" by simp
  have b: "shm_pages_total shm_boot = 0" "shm_seq_next shm_boot = 1" "length (shms shm_boot) = SYSV_SHMMNI" "c_euid root_cred = 0" "c_tgid root_cred = 1"
    by (simp_all add: shm_boot_def root_cred_def)
  have "r = ID_OF 0 1 SYSV_SHMMNI" "m' = ?m\<lparr>sm_pmm := frame_incref f pm1\<rparr>" "shm_atts s' = shm_atts shm_boot"
    "shms s' ! 0 = shm_zero\<lparr>h_used := True, h_perm := perm_init root_cred 0 0x1B6 1, h_size := 4096, h_frames := [f], h_ctime := 0, h_cpid := 1\<rparr>"
    using d g by (auto simp: do_shmget_def np Let_def fi b set_seg_def)
  moreover from this have "shm_by_id s' 128 = Some 0" by (simp add: shm_by_id_def perm_init_def)
  moreover have "pmm_frame_refcount (ucast f) (frame_incref f pm1) = 1"
    using e(4,5) by (simp add: pmm_frame_refcount_def frame_incref_def pmm_frame_incref_def fidx_def Let_def)
  ultimately show thesis using that [of s' m' f] do_shmget_good [OF g0 d] by simp
qed

theorem shmat_shmdt_round_trip_witness:
  "\<exists>s m s1 m1 s2 m2 f. do_shmat pl_example user_cred 0 (s, m) 128 0 0 = (Inr 0x40000000, s1, m1) \<and>
     sm_ptes m1 (0x1000, 0x40000000) = Some f \<and> do_shmdt user_cred 0 (s1, m1) 0x40000000 = (0, s2, m2) \<and> sm_ptes m2 = sm_ptes m"
proof -
  obtain s m f where e: "shm_good (\<lambda>_. 0) {} (s, m)" "sm_ptes m = (\<lambda>_. None)" "shm_by_id s 128 = Some 0" "h_frames (shms s ! 0) = [f]"
    "shm_atts s = shm_atts shm_boot" "pmm_frame_refcount (ucast f) (sm_pmm m) = 1" by (metis shm_example)
  have mm: "c_mm user_cred = 0x1000" "ipcperms user_cred p flag = 0" for p flag by (simp_all add: user_cred_def ipcperms_def root_cred_def Let_def)
  have fi: "find (\<lambda>i. a_mm (shm_atts s ! i) = 0) [0..<SHM_ATT_MAX] = Some 0" by (simp add: find_upt_Some e(5) shm_boot_def)
  obtain m1 where at: "mm_shm_attach_at pl_example 0x1000 [f] 0 m = (0x40000000, m1)"
    using e(6) by (simp add: mm_shm_attach_at_def attach_base_def pl_example_def word_le_nat_alt)
  obtain s1 where d1: "do_shmat pl_example user_cred 0 (s, m) 128 0 0 = (Inr 0x40000000, s1, m1)"
    using at by (simp add: do_shmat_def e(3,4) mm fi Let_def)
  obtain r s2 m2 where d2: "do_shmdt user_cred 0 (s1, m1) 0x40000000 = (r, s2, m2)" by (metis prod_cases3)
  have fresh: "\<not> (a_mm (shm_atts s ! i) = c_mm user_cred \<and> a_addr (shm_atts s ! i) = 0x40000000)" if "i < SHM_ATT_MAX" for i
    using that by (simp add: e(5) shm_boot_def mm)
  have "r = 0 \<and> sm_ptes m1 (0x1000, page_va 0x40000000 0) = Some f \<and> sm_ptes m2 = sm_ptes m"
    using shmat_shmdt_round_trip [OF e(1) _ place_example [OF e(2)] d1 fresh d2] mm e(3,4) by auto
  then have "do_shmdt user_cred 0 (s1, m1) 0x40000000 = (0, s2, m2)" "sm_ptes m1 (0x1000, 0x40000000) = Some f" "sm_ptes m2 = sm_ptes m"
    using d2 by (simp_all add: page_va_def)
  then show ?thesis using d1 by blast
qed

end
